(* ===== verification/Prelude.thy ===== *)
theory Prelude
  imports Main "HOL-Library.Word" "HOL-Library.AList" "HOL-Library.Multiset"
    "HOL-Library.List_Lexorder" "HOL-Library.Char_ord"
begin

text \<open>
  Shared vocabulary of the whiteboard development: byte strings, Go's nil-able
  slices, Go maps, machine integers, error values, and the generic lemmas on
  lists, association lists and sorting that the component theories use.

  A Go \<^verbatim>\<open>map\<close> is an association list with distinct keys. The order of the list
  stands for the order in which one \<^verbatim>\<open>range\<close> loop visits the map; Go leaves that
  order open, so the component theories prove that what they compute does not
  depend on it.
\<close>

named_theorems go_defs \<open>definitions of straight-line Go code, unfolded to execute it\<close>
named_theorems keeps_inv \<open>operations preserve their component's invariant\<close>

section \<open>Types of the Go program\<close>

type_synonym bytes = string
  \<comment> \<open>a Go string or the contents of a byte slice; a \<open>char\<close> is one byte\<close>
type_synonym slice = "bytes option"
  \<comment> \<open>a byte slice: \<open>None\<close> is nil, which Go tells apart from an empty slice\<close>
type_synonym u64 = "64 word"
type_synonym u32 = "32 word"
type_synonym ('k, 'v) gomap = "('k \<times> 'v) list"
type_synonym go_error = string
type_synonym 'a go_result = "go_error + 'a"
  \<comment> \<open>a Go pair (value, error): \<open>Inl\<close> is a non-nil error\<close>

definition bind_result :: "'e + 'a \<Rightarrow> ('a \<Rightarrow> 'e + 'b) \<Rightarrow> 'e + 'b" where
  \<comment> \<open>go on with the value, or stop at the error or panic\<close>
  "bind_result r f = (case r of Inl e \<Rightarrow> Inl e | Inr x \<Rightarrow> f x)"

lemma bind_result_simps [simp]:
  "bind_result (Inl e) f = Inl e" "bind_result (Inr x) f = f x"
  by (simp_all add: bind_result_def)

lemma bind_result_Inr: "bind_result r f = Inr y \<longleftrightarrow> (\<exists>x. r = Inr x \<and> f x = Inr y)"
  by (cases r) simp_all

definition slice_bytes :: "slice \<Rightarrow> bytes" where
  "slice_bytes s = (case s of None \<Rightarrow> [] | Some bs \<Rightarrow> bs)"

definition slice_clone :: "slice \<Rightarrow> slice" where
  \<comment> \<open>\<open>append([]byte(nil), s...)\<close>: appending no bytes to nil leaves nil\<close>
  "slice_clone s = (if slice_bytes s = [] then None else Some (slice_bytes s))"

lemma slice_bytes_simps [simp]:
  "slice_bytes None = []" "slice_bytes (Some bs) = bs"
  by (simp_all add: slice_bytes_def)

lemma slice_bytes_clone [simp]: "slice_bytes (slice_clone s) = slice_bytes s"
  by (simp add: slice_clone_def)

lemma slice_clone_idem [simp]: "slice_clone (slice_clone s) = slice_clone s"
  by (simp add: slice_clone_def)

lemma slice_clone_Some: "bs \<noteq> [] \<Longrightarrow> slice_clone (Some bs) = Some bs"
  by (simp add: slice_clone_def)

section \<open>Go maps as association lists\<close>

definition gomap_ok :: "('k, 'v) gomap \<Rightarrow> bool" where
  "gomap_ok m \<longleftrightarrow> distinct (map fst m)"

abbreviation gomap_get :: "('k, 'v) gomap \<Rightarrow> 'k \<Rightarrow> 'v option" where
  "gomap_get \<equiv> map_of"

abbreviation gomap_put :: "'k \<Rightarrow> 'v \<Rightarrow> ('k, 'v) gomap \<Rightarrow> ('k, 'v) gomap" where
  "gomap_put \<equiv> AList.update"

abbreviation gomap_del :: "'k \<Rightarrow> ('k, 'v) gomap \<Rightarrow> ('k, 'v) gomap" where
  "gomap_del \<equiv> AList.delete"

lemma gomap_ok_Nil [simp]: "gomap_ok []"
  by (simp add: gomap_ok_def)

lemma gomap_ok_put [simp, intro]: "gomap_ok m \<Longrightarrow> gomap_ok (gomap_put k v m)"
  by (simp add: gomap_ok_def distinct_update)

lemma gomap_ok_del [simp, intro]: "gomap_ok m \<Longrightarrow> gomap_ok (gomap_del k m)"
  by (simp add: gomap_ok_def distinct_delete)

lemma gomap_get_put: "gomap_get (gomap_put k v m) = (gomap_get m)(k \<mapsto> v)"
  by (simp add: update_conv')

lemma gomap_get_del: "gomap_get (gomap_del k m) = (gomap_get m)(k := None)"
  by (simp add: delete_conv')

lemmas gomap_get_simps [simp] = gomap_get_put gomap_get_del

lemma gomap_get_iff: "gomap_ok m \<Longrightarrow> gomap_get m k = Some v \<longleftrightarrow> (k, v) \<in> set m"
  by (simp add: gomap_ok_def map_of_eq_Some_iff)

lemma gomap_entry_put:
  "gomap_ok m \<Longrightarrow> (x, y) \<in> set (gomap_put k v m) \<longleftrightarrow> (if x = k then y = v else (x, y) \<in> set m)"
  by (simp add: gomap_get_iff [symmetric] gomap_ok_put) auto

lemma gomap_entry_del:
  "gomap_ok m \<Longrightarrow> (x, y) \<in> set (gomap_del k m) \<longleftrightarrow> x \<noteq> k \<and> (x, y) \<in> set m"
  by (simp add: gomap_get_iff [symmetric] gomap_ok_del)

lemma gomap_get_None_iff: "gomap_get m k = None \<longleftrightarrow> k \<notin> fst ` set m"
  by (fact map_of_eq_None_iff)

lemma gomap_eq_imp_mset_eq:
  assumes "gomap_ok m" "gomap_ok m'" "gomap_get m = gomap_get m'"
  shows "mset m = mset m'"
proof -
  have "set m = set m'"
    using assms by (metis gomap_get_iff subrelI subset_antisym)
  moreover have "distinct m" "distinct m'"
    using assms(1,2) by (simp_all add: gomap_ok_def distinct_map)
  ultimately show ?thesis
    by (simp add: set_eq_iff_mset_eq_distinct)
qed

lemma gomap_get_mset:
  assumes "gomap_ok m" "mset m = mset m'"
  shows "gomap_get m = gomap_get m'"
proof (rule map_of_inject_set [THEN iffD2])
  show "distinct (map fst m)" using assms(1) by (simp add: gomap_ok_def)
  then show "distinct (map fst m')" using assms(2) by (metis mset_eq_imp_distinct_iff mset_map)
  show "set m = set m'" using assms(2) by (rule mset_eq_setD)
qed

section \<open>Sorting by a key\<close>

text \<open>
  \<^verbatim>\<open>sort.Slice\<close> promises a permutation ordered by the comparison and nothing
  about ties. Where keys are distinct there is only one such list, so the model
  may use the library's \<open>sort_key\<close>.
\<close>

lemma sort_key_unique:
  assumes "sorted (map f xs)" "mset xs = mset ys" "distinct (map f ys)"
  shows "xs = sort_key f ys"
proof -
  have "inj_on f (set ys)"
    using assms(3) by (simp add: distinct_map)
  then show ?thesis
    using assms(1,2) sort_key_inj_key_eq [of ys xs f] by simp
qed

lemma distinct_sort_key_strict:
  assumes "distinct (map f xs)"
  shows "sorted_wrt (<) (map f (sort_key f xs))"
proof -
  have "mset (map f (sort_key f xs)) = mset (map f xs)" by simp
  then have "distinct (map f (sort_key f xs))"
    using assms by (metis mset_eq_imp_distinct_iff)
  then show ?thesis by (simp add: strict_sorted_iff)
qed

text \<open>Counting the elements of a kind when one of them changes.\<close>

lemma length_filter_update:
  assumes "c < length xs"
  shows "length (filter P (xs[c := p])) + (if P (xs ! c) then 1 else 0) =
    length (filter P xs) + (if P p then 1 else 0)"
  using assms
proof (induction xs arbitrary: c)
  case (Cons x xs)
  then show ?case by (cases c) (auto dest: Cons.IH split: if_splits)
qed simp

section \<open>Unsigned 64-bit counters\<close>

lemma unat_Suc_u64: "x \<noteq> - 1 \<Longrightarrow> unat (x + 1 :: 'a::len word) = Suc (unat x)"
  by (metis add.commute eq_neg_iff_add_eq_0 unatSuc)

lemma less_Suc_u64: "x \<noteq> - 1 \<Longrightarrow> x < (x + 1 :: 'a::len word)"
  by (simp add: word_less_nat_alt unat_Suc_u64)

lemma less_max_u64: "x < - 1 \<longleftrightarrow> x \<noteq> (- 1 :: u64)"
  using word_order.not_eq_extremum [of x] by simp

lemma less_u64_ne_max: "x < y \<Longrightarrow> x \<noteq> (- 1 :: u64)"
  using less_le_trans [OF _ word_n1_ge, of x y] by auto

lemma unat_max_u64 [simp]: "unat (- 1 :: u64) = 2 ^ 64 - 1"
  by (simp add: unsigned_minus_1_eq_mask mask_eq_exp_minus_1)

end
