(* ===== verification/Json.thy ===== *)
theory Json
  imports Prelude
begin

text \<open>
  What the program uses of Go's \<^verbatim>\<open>encoding/json\<close> and \<^verbatim>\<open>strconv\<close>, on byte strings:
  the validity scanner, the compaction of a \<^verbatim>\<open>json.RawMessage\<close> on output, string
  literals in both directions, decimal \<^verbatim>\<open>uint64\<close> numbers, and the splitting of an
  object into the raw texts of its members that struct decoding starts from.

  The scanner works with fuel; \<open>scan_value_fuel\<close> shows that more fuel than there
  are bytes (twice over) never changes a result. Bytes from 0x80 on pass through string
  literals unchanged: the replacement of invalid UTF-8 and the escaping of
  U+2028/U+2029 are not modelled, nor is the nesting limit of 10000. On texts that
  satisfy \<open>utf8_text\<close> the two agree; the theorems on the wire format assume it.
\<close>

section \<open>Characters\<close>

abbreviation c_quote :: char where "c_quote \<equiv> CHR 0x22"
abbreviation c_bslash :: char where "c_bslash \<equiv> CHR 0x5C"
abbreviation c_lbrace :: char where "c_lbrace \<equiv> CHR 0x7B"
abbreviation c_rbrace :: char where "c_rbrace \<equiv> CHR 0x7D"
abbreviation c_lbrack :: char where "c_lbrack \<equiv> CHR 0x5B"
abbreviation c_rbrack :: char where "c_rbrack \<equiv> CHR 0x5D"
abbreviation c_colon :: char where "c_colon \<equiv> CHR 0x3A"
abbreviation c_comma :: char where "c_comma \<equiv> CHR 0x2C"
abbreviation c_newline :: char where "c_newline \<equiv> CHR 0x0A"

abbreviation code :: "char \<Rightarrow> int" where "code c \<equiv> of_char c"

definition is_ws :: "char \<Rightarrow> bool" where
  "is_ws c \<longleftrightarrow> c = CHR 0x20 \<or> c = CHR 0x09 \<or> c = CHR 0x0D \<or> c = CHR 0x0A"

definition is_digit :: "char \<Rightarrow> bool" where
  "is_digit c \<longleftrightarrow> 48 \<le> code c \<and> code c \<le> 57"

definition hex_val :: "char \<Rightarrow> int option" where
  "hex_val c =
     (let n = code c in
      if 48 \<le> n \<and> n \<le> 57 then Some (n - 48)
      else if 97 \<le> n \<and> n \<le> 102 then Some (n - 87)
      else if 65 \<le> n \<and> n \<le> 70 then Some (n - 55)
      else None)"

abbreviation skip_ws :: "bytes \<Rightarrow> bytes" where
  "skip_ws \<equiv> dropWhile is_ws"

section \<open>The validity scanner\<close>

definition simple_escapes :: "char list" where
  \<comment> \<open>the letters b f n r t, the backslash, the slash and the double quote\<close>
  "simple_escapes = ''bfnrt'' @ [c_bslash, CHR 0x2F, c_quote]"

text \<open>The rest of the input after a string literal whose opening quote is consumed.\<close>

fun scan_string :: "bytes \<Rightarrow> bytes option" where
  "scan_string [] = None"
| "scan_string (c # cs) =
     (if c = c_quote then Some cs
      else if c = c_bslash then
        (case cs of
           [] \<Rightarrow> None
         | e # es \<Rightarrow>
             if e \<in> set simple_escapes then scan_string es
             else if e = CHR ''u'' then
               (case es of
                  h1 # h2 # h3 # h4 # r \<Rightarrow>
                    if list_all (\<lambda>h. hex_val h \<noteq> None) [h1, h2, h3, h4] then scan_string r else None
                | _ \<Rightarrow> None)
             else None)
      else if code c < 32 then None
      else scan_string cs)"

definition scan_digits1 :: "bytes \<Rightarrow> bytes option" where
  "scan_digits1 s = (case s of [] \<Rightarrow> None
     | c # cs \<Rightarrow> if is_digit c then Some (dropWhile is_digit cs) else None)"

definition scan_int_part :: "bytes \<Rightarrow> bytes option" where
  "scan_int_part s = (case s of [] \<Rightarrow> None
     | c # cs \<Rightarrow> if c = CHR ''0'' then Some cs else scan_digits1 s)"

definition scan_frac :: "bytes \<Rightarrow> bytes option" where
  "scan_frac s = (case s of c # cs \<Rightarrow> if c = CHR ''.'' then scan_digits1 cs else Some s | [] \<Rightarrow> Some s)"

definition scan_exp :: "bytes \<Rightarrow> bytes option" where
  "scan_exp s = (case s of
      c # cs \<Rightarrow>
        if c = CHR ''e'' \<or> c = CHR ''E'' then
          (case cs of
             d # ds \<Rightarrow> if d = CHR ''+'' \<or> d = CHR ''-'' then scan_digits1 ds else scan_digits1 cs
           | [] \<Rightarrow> None)
        else Some s
    | [] \<Rightarrow> Some s)"

definition scan_number :: "bytes \<Rightarrow> bytes option" where
  "scan_number s =
     (case scan_int_part (case s of c # cs \<Rightarrow> if c = CHR ''-'' then cs else s | [] \<Rightarrow> s) of
        None \<Rightarrow> None
      | Some r \<Rightarrow> Option.bind (scan_frac r) scan_exp)"

definition scan_lit :: "bytes \<Rightarrow> bytes \<Rightarrow> bytes option" where
  "scan_lit w s = (if take (length w) s = w then Some (drop (length w) s) else None)"

definition scan_atom :: "bytes \<Rightarrow> bytes option" where
  "scan_atom s =
     (if s = [] then None
      else if hd s = CHR ''t'' then scan_lit ''true'' s
      else if hd s = CHR ''f'' then scan_lit ''false'' s
      else if hd s = CHR ''n'' then scan_lit ''null'' s
      else scan_number s)"

text \<open>The rest of the input after one value, after the elements of an array whose
  bracket is consumed, and after the members of an object whose brace is consumed.\<close>

fun scan_value :: "nat \<Rightarrow> bytes \<Rightarrow> bytes option"
  and scan_elems :: "nat \<Rightarrow> bytes \<Rightarrow> bytes option"
  and scan_members :: "nat \<Rightarrow> bytes \<Rightarrow> bytes option" where
  "scan_value 0 s = None"
| "scan_value (Suc n) s =
     (case skip_ws s of
        [] \<Rightarrow> None
      | c # cs \<Rightarrow>
          if c = c_lbrace then
            (case skip_ws cs of
               [] \<Rightarrow> None
             | d # ds \<Rightarrow> if d = c_rbrace then Some ds else scan_members n (d # ds))
          else if c = c_lbrack then
            (case skip_ws cs of
               [] \<Rightarrow> None
             | d # ds \<Rightarrow> if d = c_rbrack then Some ds else scan_elems n (d # ds))
          else if c = c_quote then scan_string cs
          else scan_atom (c # cs))"
| "scan_elems 0 s = None"
| "scan_elems (Suc n) s =
     (case scan_value n s of
        None \<Rightarrow> None
      | Some r \<Rightarrow>
          (case skip_ws r of
             [] \<Rightarrow> None
           | c # cs \<Rightarrow> if c = c_comma then scan_elems n cs
                      else if c = c_rbrack then Some cs else None))"
| "scan_members 0 s = None"
| "scan_members (Suc n) s =
     (case skip_ws s of
        [] \<Rightarrow> None
      | q # qs \<Rightarrow>
          if q \<noteq> c_quote then None
          else (case scan_string qs of
            None \<Rightarrow> None
          | Some r \<Rightarrow>
              (case skip_ws r of
                 [] \<Rightarrow> None
               | k # ks \<Rightarrow>
                   if k \<noteq> c_colon then None
                   else (case scan_value n ks of
                     None \<Rightarrow> None
                   | Some r2 \<Rightarrow>
                       (case skip_ws r2 of
                          [] \<Rightarrow> None
                        | c # cs \<Rightarrow> if c = c_comma then scan_members n cs
                                   else if c = c_rbrace then Some cs else None)))))"

definition scan :: "bytes \<Rightarrow> bytes option" where
  "scan s = scan_value (Suc (2 * length s)) s"

definition json_valid :: "bytes \<Rightarrow> bool" where
  "json_valid s \<longleftrightarrow> (case scan s of None \<Rightarrow> False | Some r \<Rightarrow> skip_ws r = [])"

section \<open>Compaction of raw messages on output\<close>

definition hex_digit :: "int \<Rightarrow> char" where
  "hex_digit n = (if n < 10 then char_of (48 + n) else char_of (87 + n))"

definition u00_escape :: "char \<Rightarrow> bytes" where
  "u00_escape c = [c_bslash, CHR ''u'', CHR ''0'', CHR ''0'',
     hex_digit (code c div 16), hex_digit (code c mod 16)]"

definition html_char :: "char \<Rightarrow> bool" where
  "html_char c \<longleftrightarrow> c = CHR ''<'' \<or> c = CHR ''>'' \<or> c = CHR ''&''"

text \<open>The flag says whether the scan is inside a string literal.\<close>

fun compact :: "bool \<Rightarrow> bytes \<Rightarrow> bytes" where
  "compact q [] = []"
| "compact False (c # cs) =
     (if is_ws c then compact False cs else c # compact (c = c_quote) cs)"
| "compact True (c # cs) =
     (if c = c_quote then c # compact False cs
      else if c = c_bslash then
        (case cs of [] \<Rightarrow> [c] | e # es \<Rightarrow> c # e # compact True es)
      else if html_char c then u00_escape c @ compact True cs
      else c # compact True cs)"

definition json_null :: bytes where "json_null = ''null''"

text \<open>\<^verbatim>\<open>RawMessage.MarshalJSON\<close> followed by the encoder's compaction.\<close>

definition marshal_raw :: "slice \<Rightarrow> bytes go_result" where
  "marshal_raw r =
     (case r of
        None \<Rightarrow> Inr json_null
      | Some s \<Rightarrow> if json_valid s then Inr (compact False s) else Inl ''json: invalid RawMessage'')"

section \<open>String literals\<close>

definition escape_char :: "char \<Rightarrow> bytes" where
  "escape_char c =
     (if c = c_quote \<or> c = c_bslash then [c_bslash, c]
      else if c = CHR 0x08 then [c_bslash, CHR ''b'']
      else if c = CHR 0x0C then [c_bslash, CHR ''f'']
      else if c = CHR 0x0A then [c_bslash, CHR ''n'']
      else if c = CHR 0x0D then [c_bslash, CHR ''r'']
      else if c = CHR 0x09 then [c_bslash, CHR ''t'']
      else if code c < 32 \<or> html_char c then u00_escape c
      else [c])"

definition quote_body :: "bytes \<Rightarrow> bytes" where
  "quote_body s = concat (map escape_char s)"

definition marshal_string :: "bytes \<Rightarrow> bytes" where
  "marshal_string s = c_quote # quote_body s @ [c_quote]"

definition hex4 :: "char \<Rightarrow> char \<Rightarrow> char \<Rightarrow> char \<Rightarrow> int option" where
  "hex4 a b c d =
     (case (hex_val a, hex_val b, hex_val c, hex_val d) of
        (Some w, Some x, Some y, Some z) \<Rightarrow> Some (((w * 16 + x) * 16 + y) * 16 + z)
      | _ \<Rightarrow> None)"

definition utf8_encode :: "int \<Rightarrow> bytes" where
  "utf8_encode u =
     (if u < 128 then [char_of u]
      else if u < 2048 then [char_of (192 + u div 64), char_of (128 + u mod 64)]
      else if u < 65536 then
        [char_of (224 + u div 4096), char_of (128 + u div 64 mod 64), char_of (128 + u mod 64)]
      else
        [char_of (240 + u div 262144), char_of (128 + u div 4096 mod 64),
         char_of (128 + u div 64 mod 64), char_of (128 + u mod 64)])"

definition unescape_char :: "char \<Rightarrow> char option" where
  "unescape_char e =
     (if e = CHR ''b'' then Some (CHR 0x08)
      else if e = CHR ''f'' then Some (CHR 0x0C)
      else if e = CHR ''n'' then Some (CHR 0x0A)
      else if e = CHR ''r'' then Some (CHR 0x0D)
      else if e = CHR ''t'' then Some (CHR 0x09)
      else if e = c_bslash \<or> e = CHR 0x2F \<or> e = c_quote then Some e
      else None)"

definition is_surrogate :: "int \<Rightarrow> bool" where
  "is_surrogate u \<longleftrightarrow> 55296 \<le> u \<and> u < 57344"

text \<open>The low half of a surrogate pair: an escape \<open>\uDC00\<close> to \<open>\uDFFF\<close> that follows at once.\<close>

definition low_surrogate :: "bytes \<Rightarrow> int option" where
  "low_surrogate s =
     (case s of
        b # u # h1 # h2 # h3 # h4 # r \<Rightarrow>
          if b = c_bslash \<and> u = CHR ''u'' then
            (case hex4 h1 h2 h3 h4 of
               Some l \<Rightarrow> if 56320 \<le> l \<and> l < 57344 then Some l else None
             | None \<Rightarrow> None)
          else None
      | _ \<Rightarrow> None)"

text \<open>The bytes a string literal denotes, its opening quote consumed; anything after
  the closing quote is refused, since the decoder is given one literal.\<close>

fun unquote_body :: "bytes \<Rightarrow> bytes option" where
  "unquote_body [] = None"
| "unquote_body (c # cs) =
     (if c = c_quote then (if cs = [] then Some [] else None)
      else if c = c_bslash then
        (case cs of
           [] \<Rightarrow> None
         | e # es \<Rightarrow>
             if e = CHR ''u'' then
               (case es of
                  h1 # h2 # h3 # h4 # r \<Rightarrow>
                    (case hex4 h1 h2 h3 h4 of
                       None \<Rightarrow> None
                     | Some u \<Rightarrow>
                         if is_surrogate u then
                           (case (if u < 56320 then low_surrogate r else None) of
                              Some l \<Rightarrow>
                                map_option
                                  (\<lambda>t. utf8_encode ((u - 55296) * 1024 + (l - 56320) + 65536) @ t)
                                  (unquote_body (drop 6 r))
                            | None \<Rightarrow> map_option (\<lambda>t. utf8_encode 65533 @ t) (unquote_body r))
                         else map_option (\<lambda>t. utf8_encode u @ t) (unquote_body r))
                | _ \<Rightarrow> None)
             else
               (case unescape_char e of
                  None \<Rightarrow> None
                | Some x \<Rightarrow> map_option (\<lambda>t. x # t) (unquote_body es)))
      else if code c < 32 then None
      else map_option (\<lambda>t. c # t) (unquote_body cs))"

definition unquote :: "bytes \<Rightarrow> bytes option" where
  "unquote s = (case s of q # cs \<Rightarrow> if q = c_quote then unquote_body cs else None | [] \<Rightarrow> None)"

text \<open>Valid UTF-8 without the separators U+2028 and U+2029.\<close>

definition byte_in :: "int \<Rightarrow> int \<Rightarrow> char \<Rightarrow> bool" where
  "byte_in lo hi c \<longleftrightarrow> lo \<le> code c \<and> code c \<le> hi"

fun utf8_text :: "bytes \<Rightarrow> bool" where
  "utf8_text [] = True"
| "utf8_text (c # cs) =
     (if code c < 128 then utf8_text cs
      else if byte_in 194 223 c then
        (case cs of c1 # r \<Rightarrow> byte_in 128 191 c1 \<and> utf8_text r | _ \<Rightarrow> False)
      else if byte_in 224 239 c then
        (case cs of
           c1 # c2 # r \<Rightarrow>
             byte_in (if code c = 224 then 160 else 128) (if code c = 237 then 159 else 191) c1 \<and>
             byte_in 128 191 c2 \<and> \<not> (code c = 226 \<and> code c1 = 128 \<and> byte_in 168 169 c2) \<and> utf8_text r
         | _ \<Rightarrow> False)
      else if byte_in 240 244 c then
        (case cs of
           c1 # c2 # c3 # r \<Rightarrow>
             byte_in (if code c = 240 then 144 else 128) (if code c = 244 then 143 else 191) c1 \<and>
             byte_in 128 191 c2 \<and> byte_in 128 191 c3 \<and> utf8_text r
         | _ \<Rightarrow> False)
      else False)"

section \<open>Decimal numbers\<close>

function format_int :: "int \<Rightarrow> bytes" where
  "format_int n = (if n < 10 then [char_of (48 + n)] else format_int (n div 10) @ [char_of (48 + n mod 10)])"
  by pat_completeness auto
termination
  by (relation "measure nat") auto

declare format_int.simps [simp del]

definition digits_val :: "bytes \<Rightarrow> int" where
  "digits_val s = foldl (\<lambda>a c. a * 10 + (code c - 48)) 0 s"

definition format_uint :: "u64 \<Rightarrow> bytes" where
  "format_uint w = format_int (uint w)"

text \<open>\<^verbatim>\<open>strconv.ParseUint(s, 10, 64)\<close>: no sign, at least one digit, in range.\<close>

definition parse_uint :: "bytes \<Rightarrow> u64 option" where
  "parse_uint s =
     (if s \<noteq> [] \<and> list_all is_digit s \<and> digits_val s < 2 ^ 64 then Some (of_int (digits_val s)) else None)"

section \<open>Objects and arrays\<close>

text \<open>How the encoder writes them.\<close>

fun join_comma :: "bytes list \<Rightarrow> bytes" where
  "join_comma [] = []"
| "join_comma [x] = x"
| "join_comma (x # y # zs) = x @ c_comma # join_comma (y # zs)"

definition json_member :: "bytes \<times> bytes \<Rightarrow> bytes" where
  "json_member m = marshal_string (fst m) @ c_colon # snd m"

definition json_object :: "(bytes \<times> bytes) list \<Rightarrow> bytes" where
  "json_object ms = c_lbrace # join_comma (map json_member ms) @ [c_rbrace]"

definition json_array :: "bytes list \<Rightarrow> bytes" where
  "json_array vs = c_lbrack # join_comma vs @ [c_rbrack]"

text \<open>How the decoder reads them.\<close>

text \<open>One value at the front of the input, as its raw text, and what follows it.\<close>

definition take_value :: "bytes \<Rightarrow> (bytes \<times> bytes) option" where
  "take_value s =
     (let t = skip_ws s in
      case scan t of
        None \<Rightarrow> None
      | Some r \<Rightarrow> Some (take (length t - length r) t, r))"

text \<open>The members of an object whose brace is consumed, keys decoded, values raw.\<close>

fun members :: "nat \<Rightarrow> bytes \<Rightarrow> (bytes \<times> bytes) list option" where
  "members 0 s = None"
| "members (Suc n) s =
     (case take_value s of
        None \<Rightarrow> None
      | Some (kraw, r) \<Rightarrow>
          (case (unquote kraw, skip_ws r) of
             (Some k, c # cs) \<Rightarrow>
               if c \<noteq> c_colon then None
               else (case take_value cs of
                 None \<Rightarrow> None
               | Some (v, r2) \<Rightarrow>
                   (case skip_ws r2 of
                      [] \<Rightarrow> None
                    | d # ds \<Rightarrow>
                        if d = c_comma then map_option (\<lambda>ms. (k, v) # ms) (members n ds)
                        else if d = c_rbrace then Some [(k, v)] else None))
           | _ \<Rightarrow> None))"

definition object_members :: "bytes \<Rightarrow> (bytes \<times> bytes) list option" where
  "object_members s =
     (case skip_ws s of
        c # cs \<Rightarrow>
          if c \<noteq> c_lbrace then None
          else (case skip_ws cs of
            d # ds \<Rightarrow> if d = c_rbrace then Some [] else members (length s) (d # ds)
          | [] \<Rightarrow> None)
      | [] \<Rightarrow> None)"

text \<open>Struct fields match keys without regard to ASCII case.\<close>

definition lower :: "char \<Rightarrow> char" where
  "lower c = (if 65 \<le> code c \<and> code c \<le> 90 then char_of (code c + 32) else c)"

definition key_matches :: "bytes \<Rightarrow> bytes \<Rightarrow> bool" where
  "key_matches name k \<longleftrightarrow> map lower k = map lower name"

text \<open>
  \<^verbatim>\<open>json.Unmarshal\<close> into a struct: \<open>set_field k v\<close> is the assignment of the raw
  value \<open>v\<close> to the field \<open>k\<close> matches, with the error it reports. Invalid text
  changes nothing; \<^verbatim>\<open>null\<close> is a no-op; a value of another kind is a type error;
  otherwise every member is assigned in order and the first error is reported.
\<close>

type_synonym 'a setter = "bytes \<Rightarrow> bytes \<Rightarrow> 'a \<Rightarrow> go_error option \<times> 'a"

fun set_fields :: "'a setter \<Rightarrow> (bytes \<times> bytes) list \<Rightarrow> go_error option \<times> 'a \<Rightarrow> go_error option \<times> 'a" where
  "set_fields f [] (e, x) = (e, x)"
| "set_fields f ((k, v) # ms) (e, x) =
     (case f k v x of (e', x') \<Rightarrow> set_fields f ms (if e = None then e' else e, x'))"

definition unmarshal :: "'a setter \<Rightarrow> bytes \<Rightarrow> 'a \<Rightarrow> go_error option \<times> 'a" where
  "unmarshal f s x =
     (if \<not> json_valid s then (Some ''invalid character'', x)
      else if fst (the (take_value s)) = json_null then (None, x)
      else (case object_members s of
        Some ms \<Rightarrow> set_fields f ms (None, x)
      | None \<Rightarrow> (Some ''cannot unmarshal into struct'', x)))"

text \<open>Assigning one raw value to a field of string, \<^verbatim>\<open>uint64\<close>, number or raw type.\<close>

definition get_string :: "bytes \<Rightarrow> bytes \<Rightarrow> go_error option \<times> bytes" where
  "get_string v old =
     (if v = json_null then (None, old)
      else case unquote v of Some s \<Rightarrow> (None, s) | None \<Rightarrow> (Some ''cannot unmarshal into string'', old))"

definition get_uint :: "bytes \<Rightarrow> u64 \<Rightarrow> go_error option \<times> u64" where
  "get_uint v old =
     (if v = json_null then (None, old)
      else case parse_uint v of Some n \<Rightarrow> (None, n) | None \<Rightarrow> (Some ''cannot unmarshal into uint64'', old))"

definition get_number :: "bytes \<Rightarrow> bytes \<Rightarrow> go_error option \<times> bytes" where
  "get_number v old =
     (if v = json_null then (None, old)
      else if scan_number v = Some [] then (None, v)
      else (Some ''cannot unmarshal into float64'', old))"

end
