(* ===== verification/JsonLaws.thy ===== *)
theory JsonLaws
  imports Json
begin

text \<open>
  Laws of the JSON text layer: enough fuel, what the scanner accepts among the
  texts the encoder writes, compaction of raw messages, and the round trips of
  string literals, decimal numbers and object members.
\<close>

section \<open>The scanner only consumes input\<close>

lemma is_ws_punct [simp]:
  "\<not> is_ws c_quote" "\<not> is_ws c_bslash" "\<not> is_ws c_lbrace" "\<not> is_ws c_rbrace"
  "\<not> is_ws c_lbrack" "\<not> is_ws c_rbrack" "\<not> is_ws c_colon" "\<not> is_ws c_comma" "\<not> is_ws CHR ''n''"
  by (simp_all add: is_ws_def)

lemma length_skip_ws: "length (skip_ws s) \<le> length s"
  by (rule length_dropWhile_le)

lemma skip_ws_length_Cons: "skip_ws s = c # cs \<Longrightarrow> length cs < length s"
  using length_skip_ws [of s] by simp

lemma scan_string_length: "scan_string s = Some r \<Longrightarrow> length r < length s"
  by (induction s rule: scan_string.induct) (force split: if_splits list.splits)+

lemma scan_digits1_length: "scan_digits1 s = Some r \<Longrightarrow> length r < length s"
  by (auto simp: scan_digits1_def less_Suc_eq_le length_dropWhile_le split: list.splits if_splits)

lemma scan_number_length:
  assumes "scan_number s = Some r"
  shows "length r < length s"
proof -
  obtain t where t: "scan_int_part (case s of c # cs \<Rightarrow> if c = CHR ''-'' then cs else s | [] \<Rightarrow> s) = Some t"
    and r: "Option.bind (scan_frac t) scan_exp = Some r"
    using assms by (auto simp: scan_number_def split: option.splits)
  have "length t < length s"
    using t by (auto simp: scan_int_part_def split: list.splits if_splits
        dest!: scan_digits1_length)
  moreover obtain u where "scan_frac t = Some u" "scan_exp u = Some r"
    using r by (cases "scan_frac t") auto
  then have "length u \<le> length t" "length r \<le> length u"
    by (auto simp: scan_frac_def scan_exp_def split: list.splits if_splits dest!: scan_digits1_length)
  ultimately show ?thesis by simp
qed

lemma scan_atom_length: "scan_atom s = Some r \<Longrightarrow> length r < length s"
  by (cases s) (auto simp: scan_atom_def scan_lit_def split: if_splits dest!: scan_number_length)

section \<open>The grammar behind the scanner\<close>

text \<open>
  \<open>value_at s r\<close>: a value stands at the front of \<open>s\<close> and \<open>r\<close> follows it. The
  scanner computes exactly this relation, and it needs no fuel.
\<close>

inductive value_at :: "bytes \<Rightarrow> bytes \<Rightarrow> bool"
  and elems_at :: "bytes \<Rightarrow> bytes \<Rightarrow> bool"
  and members_at :: "bytes \<Rightarrow> bytes \<Rightarrow> bool" where
  empty_object: "skip_ws s = c_lbrace # cs \<Longrightarrow> skip_ws cs = c_rbrace # r \<Longrightarrow> value_at s r"
| object: "skip_ws s = c_lbrace # cs \<Longrightarrow> skip_ws cs = d # ds \<Longrightarrow> d \<noteq> c_rbrace \<Longrightarrow>
    members_at (d # ds) r \<Longrightarrow> value_at s r"
| empty_array: "skip_ws s = c_lbrack # cs \<Longrightarrow> skip_ws cs = c_rbrack # r \<Longrightarrow> value_at s r"
| array: "skip_ws s = c_lbrack # cs \<Longrightarrow> skip_ws cs = d # ds \<Longrightarrow> d \<noteq> c_rbrack \<Longrightarrow>
    elems_at (d # ds) r \<Longrightarrow> value_at s r"
| str: "skip_ws s = c_quote # cs \<Longrightarrow> scan_string cs = Some r \<Longrightarrow> value_at s r"
| atom: "skip_ws s = c # cs \<Longrightarrow> c \<notin> {c_lbrace, c_lbrack, c_quote} \<Longrightarrow>
    scan_atom (c # cs) = Some r \<Longrightarrow> value_at s r"
| last_elem: "value_at s r \<Longrightarrow> skip_ws r = c_rbrack # cs \<Longrightarrow> elems_at s cs"
| more_elems: "value_at s r \<Longrightarrow> skip_ws r = c_comma # cs \<Longrightarrow> elems_at cs t \<Longrightarrow> elems_at s t"
| last_member: "skip_ws s = c_quote # qs \<Longrightarrow> scan_string qs = Some r \<Longrightarrow> skip_ws r = c_colon # ks \<Longrightarrow>
    value_at ks r2 \<Longrightarrow> skip_ws r2 = c_rbrace # cs \<Longrightarrow> members_at s cs"
| more_members: "skip_ws s = c_quote # qs \<Longrightarrow> scan_string qs = Some r \<Longrightarrow> skip_ws r = c_colon # ks \<Longrightarrow>
    value_at ks r2 \<Longrightarrow> skip_ws r2 = c_comma # cs \<Longrightarrow> members_at cs t \<Longrightarrow> members_at s t"

lemmas at_intros = value_at_elems_at_members_at.intros
lemmas at_induct = value_at_elems_at_members_at.inducts

lemma scan_sound_all:
  "(\<forall>s r. scan_value n s = Some r \<longrightarrow> value_at s r) \<and>
   (\<forall>s r. scan_elems n s = Some r \<longrightarrow> elems_at s r) \<and>
   (\<forall>s r. scan_members n s = Some r \<longrightarrow> members_at s r)"
proof (induction n)
  case (Suc n)
  then have IH: "\<And>s r. scan_value n s = Some r \<Longrightarrow> value_at s r"
    "\<And>s r. scan_elems n s = Some r \<Longrightarrow> elems_at s r"
    "\<And>s r. scan_members n s = Some r \<Longrightarrow> members_at s r" by blast+
  have "value_at s r" if "scan_value (Suc n) s = Some r" for s r
    using that by (auto split: list.splits if_splits intro: at_intros IH)
  moreover have "elems_at s r" if "scan_elems (Suc n) s = Some r" for s r
    using that by (auto split: list.splits if_splits option.splits intro: at_intros IH)
  moreover have "members_at s r" if "scan_members (Suc n) s = Some r" for s r
    using that by (auto split: list.splits if_splits option.splits intro: at_intros IH)
  ultimately show ?case by blast
qed simp

lemma scan_sound:
  "scan_value n s = Some r \<Longrightarrow> value_at s r"
  "scan_elems n s = Some r \<Longrightarrow> elems_at s r"
  "scan_members n s = Some r \<Longrightarrow> members_at s r"
  using scan_sound_all by blast+

lemma at_length:
  "value_at s r \<Longrightarrow> length r < length s"
  "elems_at s r \<Longrightarrow> length r < length s"
  "members_at s r \<Longrightarrow> length r < length s"
  by (induction rule: at_induct)
    (auto dest!: skip_ws_length_Cons scan_string_length scan_atom_length)

lemma scan_complete:
  "value_at s r \<Longrightarrow> 2 * length s < n \<Longrightarrow> scan_value n s = Some r"
  "elems_at s r \<Longrightarrow> 2 * length s + 1 < n \<Longrightarrow> scan_elems n s = Some r"
  "members_at s r \<Longrightarrow> 2 * length s + 1 < n \<Longrightarrow> scan_members n s = Some r"
proof (induction arbitrary: n and n and n rule: at_induct)
  case (object s cs d ds r)
  then show ?case
    using skip_ws_length_Cons [of s] skip_ws_length_Cons [of cs] by (cases n) auto
next
  case (array s cs d ds r)
  then show ?case
    using skip_ws_length_Cons [of s] skip_ws_length_Cons [of cs] by (cases n) auto
next
  case (more_elems s r cs t)
  then show ?case
    using skip_ws_length_Cons [of r] at_length(1) [of s r] by (cases n) auto
next
  case (last_member s qs r ks r2 cs)
  then show ?case
    using skip_ws_length_Cons [of s] skip_ws_length_Cons [of r] scan_string_length [of qs r]
    by (cases n) auto
next
  case (more_members s qs r ks r2 cs t)
  then show ?case
    using skip_ws_length_Cons [of s] skip_ws_length_Cons [of r] scan_string_length [of qs r]
      skip_ws_length_Cons [of r2] at_length(1) [of ks r2]
    by (cases n) auto
qed (case_tac n; auto)+

lemma scan_eq_iff: "scan s = Some r \<longleftrightarrow> value_at s r"
  unfolding scan_def using scan_sound(1) scan_complete(1) by blast

lemma scan_value_fuel: "2 * length s < n \<Longrightarrow> scan_value n s = scan s"
  using scan_eq_iff scan_complete(1) scan_sound(1)
  by (metis not_Some_eq)

lemma json_valid_iff: "json_valid s \<longleftrightarrow> (\<exists>r. value_at s r \<and> skip_ws r = [])"
  by (auto simp: json_valid_def scan_eq_iff [symmetric] split: option.splits)

section \<open>Atoms\<close>

text \<open>\<open>plain w\<close>: no byte of \<open>w\<close> is white space or a quote, so compaction copies it.\<close>

definition plain :: "bytes \<Rightarrow> bool" where
  "plain w \<longleftrightarrow> list_all (\<lambda>c. \<not> is_ws c \<and> c \<noteq> c_quote) w"

definition delim :: "bytes \<Rightarrow> bool" where
  "delim t \<longleftrightarrow> t = [] \<or> is_ws (hd t) \<or> hd t \<in> {c_comma, c_rbrace, c_rbrack}"

definition no_digit :: "bytes \<Rightarrow> bool" where
  "no_digit t \<longleftrightarrow> t = [] \<or> \<not> is_digit (hd t)"

lemma delim_simps [simp]:
  "delim []" "delim (c_comma # t)" "delim (c_rbrace # t)" "delim (c_rbrack # t)"
  by (simp_all add: delim_def)

lemma plain_simps [simp]:
  "plain []" "plain (c # w) \<longleftrightarrow> \<not> is_ws c \<and> c \<noteq> c_quote \<and> plain w"
  "plain (v @ w) \<longleftrightarrow> plain v \<and> plain w"
  by (auto simp: plain_def)

lemma compact_plain: "plain w \<Longrightarrow> compact False (w @ t) = w @ compact False t"
  by (induction w) auto

lemma digit_plain: "list_all is_digit w \<Longrightarrow> plain w"
  by (induction w) (auto simp: is_digit_def is_ws_def)

lemma delim_no_digit: "delim t \<Longrightarrow> no_digit t"
  by (auto simp: delim_def no_digit_def is_digit_def is_ws_def)

lemma dropWhile_no_digit: "no_digit t \<Longrightarrow> list_all is_digit w \<Longrightarrow> dropWhile is_digit (w @ t) = t"
  by (cases t) (auto simp: no_digit_def list_all_iff dropWhile_append)

lemma scan_digits1_split:
  assumes "scan_digits1 s = Some r"
  obtains w where "s = w @ r" "w \<noteq> []" "list_all is_digit w" "no_digit r"
proof -
  obtain c cs where s: "s = c # cs" "is_digit c" "r = dropWhile is_digit cs"
    using assms by (auto simp: scan_digits1_def split: list.splits if_splits)
  show thesis
  proof (rule that)
    show "s = (c # takeWhile is_digit cs) @ r" using s by simp
    show "list_all is_digit (c # takeWhile is_digit cs)"
      using s by (auto simp: list_all_iff dest: set_takeWhileD)
    show "no_digit r" unfolding no_digit_def using s hd_dropWhile by metis
  qed simp
qed

lemma scan_digits1_append:
  "w \<noteq> [] \<Longrightarrow> list_all is_digit w \<Longrightarrow> no_digit t \<Longrightarrow> scan_digits1 (w @ t) = Some t"
  by (cases w) (auto simp: scan_digits1_def dropWhile_no_digit)

lemma scan_int_part_split:
  assumes "scan_int_part s = Some r"
  obtains w where "s = w @ r" "w \<noteq> []" "list_all is_digit w"
    "\<And>t. no_digit t \<Longrightarrow> scan_int_part (w @ t) = Some t"
proof (cases "\<exists>cs. s = CHR ''0'' # cs")
  case True
  then have "s = ''0'' @ r"
    using assms by (auto simp: scan_int_part_def)
  then show thesis
    by (rule that) (auto simp: scan_int_part_def is_digit_def)
next
  case False
  then have "scan_digits1 s = Some r"
    using assms by (auto simp: scan_int_part_def split: list.splits if_splits)
  then obtain w where w: "s = w @ r" "w \<noteq> []" "list_all is_digit w"
    by (rule scan_digits1_split)
  then have "hd w \<noteq> CHR ''0''" using False by (cases w) auto
  with w show thesis
    by (intro that [of w])
      (auto simp: scan_int_part_def neq_Nil_conv scan_digits1_append [of "_ # _", simplified])
qed

lemma scan_frac_split:
  assumes "scan_frac s = Some r"
  obtains w where "s = w @ r" "plain w" "w = [] \<or> hd w = CHR ''.''"
    "\<And>t. no_digit t \<Longrightarrow> (w \<noteq> [] \<or> t = [] \<or> hd t \<noteq> CHR ''.'') \<Longrightarrow> scan_frac (w @ t) = Some t"
proof (cases "\<exists>cs. s = CHR ''.'' # cs")
  case True
  then obtain cs where s: "s = CHR ''.'' # cs" and "scan_digits1 cs = Some r"
    using assms by (auto simp: scan_frac_def)
  then obtain w where w: "cs = w @ r" "w \<noteq> []" "list_all is_digit w"
    by (auto elim: scan_digits1_split)
  with s show thesis
    by (intro that [of "CHR ''.'' # w"])
      (auto simp: scan_frac_def is_ws_def digit_plain scan_digits1_append)
next
  case False
  then have "r = s" using assms by (auto simp: scan_frac_def split: list.splits if_splits)
  then show thesis
    by (intro that [of "[]"]) (auto simp: scan_frac_def split: list.splits)
qed

lemma scan_exp_split:
  assumes "scan_exp s = Some r"
  obtains w where "s = w @ r" "plain w" "w = [] \<or> hd w \<in> {CHR ''e'', CHR ''E''}"
    "\<And>t. delim t \<Longrightarrow> scan_exp (w @ t) = Some t"
proof (cases "\<exists>c cs. s = c # cs \<and> c \<in> {CHR ''e'', CHR ''E''}")
  case True
  then obtain c cs where s: "s = c # cs" "c \<in> {CHR ''e'', CHR ''E''}" by blast
  show thesis
  proof (cases "\<exists>d ds. cs = d # ds \<and> d \<in> {CHR ''+'', CHR ''-''}")
    case True
    then obtain d ds where cs: "cs = d # ds" "d \<in> {CHR ''+'', CHR ''-''}" by blast
    then obtain w where "ds = w @ r" "w \<noteq> []" "list_all is_digit w"
      using assms s by (auto simp: scan_exp_def elim: scan_digits1_split)
    with s cs show thesis
      by (intro that [of "c # d # w"])
        (auto simp: scan_exp_def is_ws_def digit_plain scan_digits1_append delim_no_digit)
  next
    case False
    then have "scan_digits1 cs = Some r"
      using assms s by (auto simp: scan_exp_def split: list.splits if_splits)
    then obtain w where w: "cs = w @ r" "w \<noteq> []" "list_all is_digit w"
      by (rule scan_digits1_split)
    then have "scan_exp ((c # w) @ t) = Some t" if "delim t" for t
      using s that scan_digits1_append [OF w(2,3) delim_no_digit [OF that]]
      by (cases w) (auto simp: scan_exp_def is_digit_def)
    with s w show thesis
      by (intro that [of "c # w"]) (auto simp: is_ws_def digit_plain)
  qed
next
  case False
  then have "r = s" using assms by (auto simp: scan_exp_def split: list.splits if_splits)
  then show thesis
    by (intro that [of "[]"]) (auto simp: scan_exp_def delim_def is_ws_def split: list.splits)
qed

lemma scan_number_split:
  assumes "scan_number s = Some r"
  obtains w where "s = w @ r" "w \<noteq> []" "plain w" "\<And>t. delim t \<Longrightarrow> scan_number (w @ t) = Some t"
    "hd w = CHR ''-'' \<or> is_digit (hd w)"
proof -
  define m where "m = (if s \<noteq> [] \<and> hd s = CHR ''-'' then ''-'' else [])"
  define s' where "s' = (case s of c # cs \<Rightarrow> if c = CHR ''-'' then cs else s | [] \<Rightarrow> s)"
  have s: "s = m @ s'" by (auto simp: m_def s'_def split: list.splits)
  obtain r1 r2 where r12: "scan_int_part s' = Some r1" "scan_frac r1 = Some r2" "scan_exp r2 = Some r"
    using assms by (auto simp: scan_number_def s'_def split: option.splits bind_splits)
  obtain u where u: "s' = u @ r1" "u \<noteq> []" "list_all is_digit u"
    "\<And>t. no_digit t \<Longrightarrow> scan_int_part (u @ t) = Some t"
    by (rule scan_int_part_split [OF r12(1)], rule that)
  obtain v where v: "r1 = v @ r2" "plain v" "v = [] \<or> hd v = CHR ''.''"
    "\<And>t. no_digit t \<Longrightarrow> (v \<noteq> [] \<or> t = [] \<or> hd t \<noteq> CHR ''.'') \<Longrightarrow> scan_frac (v @ t) = Some t"
    by (rule scan_frac_split [OF r12(2)], rule that)
  obtain x where x: "r2 = x @ r" "plain x" "x = [] \<or> hd x \<in> {CHR ''e'', CHR ''E''}"
    "\<And>t. delim t \<Longrightarrow> scan_exp (x @ t) = Some t"
    by (rule scan_exp_split [OF r12(3)], rule that)
  have hd_u: "is_digit (hd u)" using u(2,3) by (cases u) auto
  have strip: "(case m @ u @ t of c # cs \<Rightarrow> if c = CHR ''-'' then cs else m @ u @ t | [] \<Rightarrow> m @ u @ t) = u @ t" for t
    using u(2) hd_u by (cases u) (auto simp: m_def is_digit_def)
  have tail: "no_digit (x @ t)" "x @ t = [] \<or> hd (x @ t) \<noteq> CHR ''.''" if "delim t" for t
    using that x(3) delim_no_digit [OF that]
    by (cases x; auto simp: no_digit_def is_digit_def delim_def is_ws_def)+
  have "no_digit (v @ x @ t)" if "delim t" for t
    using that v(3) tail(1) [OF that] by (cases v) (auto simp: no_digit_def is_digit_def)
  then have "scan_number ((m @ u @ v @ x) @ t) = Some t" if "delim t" for t
    using that strip [of "v @ x @ t"] u(4) [of "v @ x @ t"] v(4) [of "x @ t"] tail [OF that] x(4) [OF that]
    by (simp add: scan_number_def)
  moreover have "hd (m @ u @ v @ x) = CHR ''-'' \<or> is_digit (hd (m @ u @ v @ x))"
    using u(2) hd_u by (simp add: m_def)
  moreover have "s = (m @ u @ v @ x) @ r" using s u(1) v(1) x(1) by simp
  moreover have "plain (m @ u @ v @ x)"
    using v(2) x(2) digit_plain [OF u(3)] by (simp add: m_def is_ws_def)
  ultimately show thesis
    using u(2) by (intro that [of "m @ u @ v @ x"]) simp_all
qed

lemma scan_lit_split:
  assumes "scan_lit k s = Some r"
  shows "s = k @ r" "scan_lit k (k @ t) = Some t"
  using assms by (auto simp: scan_lit_def split: if_splits) (metis append_take_drop_id)

lemma scan_atom_split:
  assumes "scan_atom s = Some r" "hd s \<notin> {c_lbrace, c_lbrack, c_quote}"
  obtains w where "s = w @ r" "w \<noteq> []" "plain w" "\<And>t. delim t \<Longrightarrow> scan_atom (w @ t) = Some t"
proof -
  consider k where "k \<in> {''true'', ''false'', ''null''}" "scan_lit k s = Some r" "s \<noteq> []"
    | "scan_number s = Some r" "s \<noteq> []"
    using assms by (auto simp: scan_atom_def split: if_splits)
  then show thesis
  proof cases
    case 1
    then show thesis
      using scan_lit_split [OF 1(2)] by (intro that [of k]) (auto simp: scan_atom_def is_ws_def)
  next
    case 2
    obtain w where w: "s = w @ r" "w \<noteq> []" "plain w" "\<And>t. delim t \<Longrightarrow> scan_number (w @ t) = Some t"
      "hd w = CHR ''-'' \<or> is_digit (hd w)"
      by (rule scan_number_split [OF 2(1)], rule that)
    then have "scan_atom (w @ t) = scan_number (w @ t)" for t
      by (cases w) (auto simp: scan_atom_def is_digit_def)
    with w show thesis by (intro that [of w]) auto
  qed
qed

section \<open>String literals\<close>

lemma hex_digit_cases:
  assumes "0 \<le> n" "n < 16"
  shows "hex_val (hex_digit n) = Some n" "hex_digit n \<notin> {c_quote, c_bslash}" "\<not> html_char (hex_digit n)"
    "\<not> code (hex_digit n) < 32"
proof -
  have "n \<in> {0, 1, 2, 3, 4, 5, 6, 7, 8, 9, 10, 11, 12, 13, 14, 15}" using assms by simp presburger
  then show "hex_val (hex_digit n) = Some n" "hex_digit n \<notin> {c_quote, c_bslash}"
    "\<not> html_char (hex_digit n)" "\<not> code (hex_digit n) < 32"
    by (auto simp: hex_digit_def hex_val_def html_char_def char_of_eq_iff)
qed

lemma code_bounds: "0 \<le> code c" "code c < 256"
  by (simp_all add: of_char_def horner_sum_bit_eq_take_bit)

lemma u00_hex4:
  "hex4 CHR ''0'' CHR ''0'' (hex_digit (code c div 16)) (hex_digit (code c mod 16)) = Some (code c)"
proof -
  have "0 \<le> code c div 16" "code c div 16 < 16" using code_bounds [of c] by auto
  moreover have "hex_val CHR ''0'' = Some 0" by (simp add: hex_val_def)
  ultimately show ?thesis by (simp add: hex4_def hex_digit_cases)
qed

lemma u00_hex_digits:
  "hex_val (hex_digit (code c div 16)) \<noteq> None" "hex_val (hex_digit (code c mod 16)) \<noteq> None"
  "hex_digit (code c div 16) \<notin> {c_quote, c_bslash}" "hex_digit (code c mod 16) \<notin> {c_quote, c_bslash}"
  "\<not> html_char (hex_digit (code c div 16))" "\<not> html_char (hex_digit (code c mod 16))"
proof -
  have d: "0 \<le> code c div 16" "code c div 16 < 16" using code_bounds [of c] by auto
  have m: "0 \<le> code c mod 16" "code c mod 16 < 16" by auto
  show "hex_val (hex_digit (code c div 16)) \<noteq> None" "hex_val (hex_digit (code c mod 16)) \<noteq> None"
    "hex_digit (code c div 16) \<notin> {c_quote, c_bslash}" "hex_digit (code c mod 16) \<notin> {c_quote, c_bslash}"
    "\<not> html_char (hex_digit (code c div 16))" "\<not> html_char (hex_digit (code c mod 16))"
    using hex_digit_cases [OF d] hex_digit_cases [OF m] by simp_all
qed

text \<open>What each pass over a literal does with one escaped byte.\<close>

lemma scan_string_u00: "scan_string (u00_escape c @ t) = scan_string t"
  using u00_hex_digits [of c]
  by (simp add: u00_escape_def simple_escapes_def) (simp add: hex_val_def)

lemma compact_u00: "compact True (u00_escape c @ t) = u00_escape c @ compact True t"
  using u00_hex_digits [of c] by (simp add: u00_escape_def html_char_def)

lemma append_singleton_fun: "(@) [c] = (#) c"
  by auto

lemma unquote_u00: "code c < 128 \<Longrightarrow> unquote_body (u00_escape c @ t) = map_option ((#) c) (unquote_body t)"
  by (simp add: u00_escape_def u00_hex4 is_surrogate_def utf8_encode_def append_singleton_fun)

lemma scan_string_escape: "scan_string (escape_char c @ t) = scan_string t"
  by (simp add: escape_char_def scan_string_u00 simple_escapes_def)

lemma compact_escape: "compact True (escape_char c @ t) = escape_char c @ compact True t"
  by (simp add: escape_char_def compact_u00)

lemma unquote_escape: "unquote_body (escape_char c @ t) = map_option ((#) c) (unquote_body t)"
  by (auto simp: escape_char_def unquote_u00 unescape_char_def html_char_def)

lemma scan_string_quote_body: "scan_string (quote_body s @ t) = scan_string t"
  by (induction s) (simp_all add: quote_body_def scan_string_escape)

lemma compact_quote_body: "compact True (quote_body s @ t) = quote_body s @ compact True t"
  by (induction s) (simp_all add: quote_body_def compact_escape)

lemma unquote_quote_body: "unquote_body (quote_body s @ t) = map_option ((@) s) (unquote_body t)"
  by (induction s) (simp_all add: quote_body_def unquote_escape option.map_comp comp_def option.map_ident)

lemma unquote_marshal_string [simp]: "unquote (marshal_string s) = Some s"
  by (simp add: unquote_def marshal_string_def unquote_quote_body)

text \<open>Compacting the inside of a literal keeps it a literal.\<close>

lemma compact_string_split:
  "scan_string s = Some r \<Longrightarrow>
    \<exists>w. compact True s = w @ compact False r \<and> (\<forall>t. scan_string (w @ t) = Some t) \<and>
        (\<forall>t. compact True (w @ t) = w @ compact False t)"
proof (induction s rule: scan_string.induct)
  case (2 c cs)
  show ?case
  proof (cases "c = c_quote \<or> c \<noteq> c_bslash")
    case True
    show ?thesis
    proof (cases "c = c_quote")
      case True
      with 2 show ?thesis by (intro exI [of _ "[c_quote]"]) auto
    next
      case False
      with True have nb: "c \<noteq> c_bslash" by simp
      obtain w where w: "compact True cs = w @ compact False r" "\<forall>t. scan_string (w @ t) = Some t"
        "\<forall>t. compact True (w @ t) = w @ compact False t"
        using 2 False nb by (auto split: if_splits)
      have "\<not> code c < 32" using 2(4) False nb by (auto split: if_splits)
      with w False nb show ?thesis
        by (cases "html_char c")
          (rule exI [of _ "u00_escape c @ w"], simp add: scan_string_u00 compact_u00,
           rule exI [of _ "c # w"], simp)
    qed
  next
    case False
    then obtain e es where c: "c = c_bslash" and cs: "cs = e # es" using 2(4) by (cases cs) auto
    show ?thesis
    proof (cases "e \<in> set simple_escapes")
      case True
      then obtain w where "compact True es = w @ compact False r" "\<forall>t. scan_string (w @ t) = Some t"
        "\<forall>t. compact True (w @ t) = w @ compact False t"
        using 2 c cs by auto
      with True c cs show ?thesis by (intro exI [of _ "c # e # w"]) simp
    next
      case F: False
      then obtain h1 h2 h3 h4 u where es: "es = h1 # h2 # h3 # h4 # u"
        and e: "e = CHR ''u''" and hx: "list_all (\<lambda>h. hex_val h \<noteq> None) [h1, h2, h3, h4]"
        and r: "scan_string u = Some r"
        using 2(4) c cs by (auto split: if_splits list.splits)
      obtain w where w: "compact True u = w @ compact False r" "\<forall>t. scan_string (w @ t) = Some t"
        "\<forall>t. compact True (w @ t) = w @ compact False t"
        using 2(2) [OF _ c cs F e es refl refl refl hx r] c by auto
      have "h \<noteq> c_quote \<and> h \<noteq> c_bslash \<and> \<not> html_char h" if "hex_val h \<noteq> None" for h
        using that by (auto simp: hex_val_def html_char_def)
      with w F c cs es e hx show ?thesis
        by (intro exI [of _ "c # e # h1 # h2 # h3 # h4 # w"]) simp
    qed
  qed
qed simp

section \<open>Canonical values\<close>

text \<open>
  A canonical text is a value in its compact form: the scanner consumes exactly
  it, and compaction leaves it alone, whatever follows.
\<close>

definition canonical :: "bytes \<Rightarrow> bool" where
  "canonical v \<longleftrightarrow> v \<noteq> [] \<and> \<not> is_ws (hd v) \<and> (\<forall>t. delim t \<longrightarrow> value_at (v @ t) t) \<and>
     (\<forall>t. compact False (v @ t) = v @ compact False t)"

text \<open>The same for the rest of an array or object, closing bracket included.\<close>

definition closes :: "(bytes \<Rightarrow> bytes \<Rightarrow> bool) \<Rightarrow> bytes \<Rightarrow> bool" where
  "closes at w \<longleftrightarrow> w \<noteq> [] \<and> \<not> is_ws (hd w) \<and> (\<forall>t. at (w @ t) t) \<and>
     (\<forall>t. compact False (w @ t) = w @ compact False t)"

lemma skip_ws_append [simp]: "w \<noteq> [] \<Longrightarrow> \<not> is_ws (hd w) \<Longrightarrow> skip_ws (w @ t) = w @ t"
  by (cases w) auto

lemma skip_ws_hd: "skip_ws s = c # cs \<Longrightarrow> \<not> is_ws c"
  by (metis hd_dropWhile list.sel(1) list.distinct(1))

lemma compact_skip_ws: "compact False (skip_ws s) = compact False s"
  by (induction s) auto

lemma compact_at: "skip_ws s = c # cs \<Longrightarrow> compact False s = c # compact (c = c_quote) cs"
  using compact_skip_ws [of s] skip_ws_hd [of s] by simp

lemma canonical_wrap:
  assumes "closes at w" "skip_ws s = c # cs" "c \<noteq> c_quote" "compact False cs = w @ compact False r"
    and "\<And>t. value_at (c # w @ t) t"
  shows "compact False s = (c # w) @ compact False r" "canonical (c # w)"
  using assms skip_ws_hd [of s c cs]
  by (auto simp: canonical_def closes_def compact_at)

lemma canonical_value: "canonical v \<Longrightarrow> delim t \<Longrightarrow> value_at (v @ t) t"
  by (simp add: canonical_def)

lemma canonical_last_elem: "canonical v \<Longrightarrow> elems_at (v @ c_rbrack # t) t"
  by (rule at_intros(7) [OF canonical_value]) simp_all

lemma canonical_more_elems: "canonical v \<Longrightarrow> elems_at cs t \<Longrightarrow> elems_at (v @ c_comma # cs) t"
  by (rule at_intros(8) [OF canonical_value]) simp_all

lemma canonical_last_member:
  "scan_string (k @ c_colon # v @ c_rbrace # t) = Some (c_colon # v @ c_rbrace # t) \<Longrightarrow> canonical v \<Longrightarrow>
    members_at (c_quote # k @ c_colon # v @ c_rbrace # t) t"
  by (rule at_intros(9) [where r = "c_colon # v @ c_rbrace # t", OF _ _ _ canonical_value [where t = "c_rbrace # t"]]) simp_all

lemma canonical_more_members:
  "scan_string (k @ c_colon # v @ c_comma # cs) = Some (c_colon # v @ c_comma # cs) \<Longrightarrow> canonical v \<Longrightarrow>
    members_at cs t \<Longrightarrow> members_at (c_quote # k @ c_colon # v @ c_comma # cs) t"
  by (rule at_intros(10) [where r = "c_colon # v @ c_comma # cs", OF _ _ _ canonical_value [where t = "c_comma # cs"]]) simp_all

lemma compact_split:
  "value_at s r \<Longrightarrow>
    \<exists>w. compact False s = w @ compact False r \<and> canonical w \<and> hd w = hd (skip_ws s)"
  "elems_at s r \<Longrightarrow>
    \<exists>w. compact False s = w @ compact False r \<and> closes elems_at w \<and> hd w = hd (skip_ws s)"
  "members_at s r \<Longrightarrow>
    \<exists>w. compact False s = w @ compact False r \<and> closes members_at w \<and> hd w = hd (skip_ws s)"
proof (induction rule: at_induct)
  case (empty_object s cs r)
  then have "compact False s = [c_lbrace, c_rbrace] @ compact False r" by (simp add: compact_at)
  moreover have "canonical [c_lbrace, c_rbrace]"
    by (auto simp: canonical_def intro: at_intros(1))
  ultimately show ?case using empty_object by (intro exI [of _ "[c_lbrace, c_rbrace]"]) simp
next
  case (empty_array s cs r)
  then have "compact False s = [c_lbrack, c_rbrack] @ compact False r" by (simp add: compact_at)
  moreover have "canonical [c_lbrack, c_rbrack]"
    by (auto simp: canonical_def intro: at_intros(3))
  ultimately show ?case using empty_array by (intro exI [of _ "[c_lbrack, c_rbrack]"]) simp
next
  case (object s cs d ds r)
  then obtain w where w: "compact False (d # ds) = w @ compact False r" "closes members_at w" "hd w = d"
    using skip_ws_hd [OF object(2)] by auto
  have "value_at (c_lbrace # w @ t) t" for t
    using w(2,3) object(3) at_intros(2) [of "c_lbrace # w @ t" "w @ t" "hd w" "tl w @ t" t]
    by (cases w) (auto simp: closes_def)
  moreover have "compact False cs = w @ compact False r"
    using w(1) object(2) compact_skip_ws [of cs] by metis
  ultimately show ?case
    using canonical_wrap [OF w(2) object(1)] object(1) by (intro exI [of _ "c_lbrace # w"]) simp
next
  case (array s cs d ds r)
  then obtain w where w: "compact False (d # ds) = w @ compact False r" "closes elems_at w" "hd w = d"
    using skip_ws_hd [OF array(2)] by auto
  have "value_at (c_lbrack # w @ t) t" for t
    using w(2,3) array(3) at_intros(4) [of "c_lbrack # w @ t" "w @ t" "hd w" "tl w @ t" t]
    by (cases w) (auto simp: closes_def)
  moreover have "compact False cs = w @ compact False r"
    using w(1) array(2) compact_skip_ws [of cs] by metis
  ultimately show ?case
    using canonical_wrap [OF w(2) array(1)] array(1) by (intro exI [of _ "c_lbrack # w"]) simp
next
  case (str s cs r)
  then obtain w where "compact True cs = w @ compact False r" "\<forall>t. scan_string (w @ t) = Some t"
    "\<forall>t. compact True (w @ t) = w @ compact False t"
    using compact_string_split by blast
  with str show ?case
    by (intro exI [of _ "c_quote # w"])
      (auto simp: canonical_def compact_at intro: at_intros(5))
next
  case (atom s c cs r)
  then obtain w where w: "c # cs = w @ r" "w \<noteq> []" "plain w" "\<And>t. delim t \<Longrightarrow> scan_atom (w @ t) = Some t"
    by (auto elim!: scan_atom_split)
  have c: "w = c # tl w" using w(1,2) by (cases w) auto
  have "value_at (w @ t) t" if "delim t" for t
    using that w(4) [OF that] atom(2) skip_ws_hd [OF atom(1)] c
      at_intros(6) [of "w @ t" c "tl w @ t" t] by (metis append_Cons dropWhile.simps(2))
  moreover have "\<not> is_ws (hd w)" "hd w = hd (skip_ws s)"
    using skip_ws_hd [OF atom(1)] atom(1) c by (metis list.sel(1))+
  moreover have "compact False s = w @ compact False r"
    using compact_skip_ws [of s] atom(1) w(1) compact_plain [OF w(3)] by metis
  ultimately show ?case
    using w(2) compact_plain [OF w(3)] by (auto simp: canonical_def)
next
  case (last_elem s r cs)
  then obtain w where w: "compact False s = w @ compact False r" "canonical w" "hd w = hd (skip_ws s)"
    by blast
  with last_elem(2) show ?case
    by (intro exI [of _ "w @ [c_rbrack]"])
      (auto simp: closes_def compact_at canonical_last_elem, auto simp: canonical_def)
next
  case (more_elems s r cs t)
  then obtain w u where "compact False s = w @ compact False r" "canonical w" "hd w = hd (skip_ws s)"
    "compact False cs = u @ compact False t" "closes elems_at u"
    by blast
  with more_elems(2) show ?case
    by (intro exI [of _ "w @ c_comma # u"])
      (auto simp: closes_def compact_at canonical_more_elems, auto simp: canonical_def)
next
  case (last_member s qs r ks r2 cs)
  then obtain w v where "compact True qs = w @ compact False r" "\<forall>t. scan_string (w @ t) = Some t"
    "\<forall>t. compact True (w @ t) = w @ compact False t" "compact False ks = v @ compact False r2" "canonical v"
    using compact_string_split by blast
  with last_member(1,3,5) show ?case
    by (intro exI [of _ "c_quote # w @ c_colon # v @ [c_rbrace]"])
      (auto simp: closes_def compact_at canonical_last_member, auto simp: canonical_def)
next
  case (more_members s qs r ks r2 cs t)
  then obtain w v u where "compact True qs = w @ compact False r" "\<forall>t. scan_string (w @ t) = Some t"
    "\<forall>t. compact True (w @ t) = w @ compact False t" "compact False ks = v @ compact False r2" "canonical v"
    "compact False cs = u @ compact False t" "closes members_at u"
    using compact_string_split by blast
  with more_members(1,3,5) show ?case
    by (intro exI [of _ "c_quote # w @ c_colon # v @ c_comma # u"])
      (auto simp: closes_def compact_at canonical_more_members, auto simp: canonical_def)
qed

text \<open>The compact form of valid text is canonical: this is what a raw message becomes on the wire.\<close>

lemma canonical_compact:
  assumes "json_valid s"
  shows "canonical (compact False s)"
proof -
  obtain r where r: "value_at s r" "skip_ws r = []"
    using assms by (auto simp: json_valid_iff)
  then obtain w where "compact False s = w @ compact False r" "canonical w"
    using compact_split(1) by blast
  moreover have "compact False r = []" using r(2) compact_skip_ws [of r] by (metis compact.simps(1))
  ultimately show ?thesis by simp
qed

lemma canonical_json_valid: "canonical v \<Longrightarrow> json_valid v"
  using canonical_value [of v "[]"] by (auto simp: json_valid_iff)

lemma compact_canonical: "canonical v \<Longrightarrow> compact False v = v"
  by (metis append.right_neutral canonical_def compact.simps(1))

lemma canonical_ne: "canonical v \<Longrightarrow> v \<noteq> []"
  by (simp add: canonical_def)

lemma marshal_raw_canonical: "canonical v \<Longrightarrow> marshal_raw (Some v) = Inr v"
  by (simp add: marshal_raw_def canonical_json_valid compact_canonical)

lemma marshal_raw_Inr: "marshal_raw s = Inr v \<Longrightarrow> canonical v"
proof (cases s)
  case None
  assume "marshal_raw s = Inr v"
  with None have v: "v = ''null''" by (simp add: marshal_raw_def json_null_def)
  have "value_at (''null'' @ t) t" if "delim t" for t
    by (rule at_intros(6) [where c = "CHR ''n''" and cs = "''ull'' @ t"])
      (simp_all add: scan_atom_def scan_lit_def)
  then show ?thesis
    using v by (simp add: canonical_def is_ws_def)
qed (auto simp: marshal_raw_def canonical_compact split: if_splits)

lemma canonical_string: "canonical (marshal_string s)"
  by (auto simp: canonical_def marshal_string_def scan_string_quote_body compact_quote_body
      intro!: at_intros(5))

section \<open>Decimal numbers\<close>

lemma digit_char:
  assumes "0 \<le> n" "n < (10::int)"
  shows "is_digit (char_of (48 + n))" "code (char_of (48 + n)) = 48 + n"
  using assms by (simp_all add: is_digit_def take_bit_eq_mod)

lemma digits_val_append: "digits_val (s @ [c]) = digits_val s * 10 + (code c - 48)"
  by (simp add: digits_val_def)

lemma format_int_digits:
  "0 \<le> n \<Longrightarrow> format_int n \<noteq> [] \<and> list_all is_digit (format_int n) \<and> digits_val (format_int n) = n"
proof (induction n rule: format_int.induct)
  case (1 n)
  show ?case
  proof (cases "n < 10")
    case True
    with 1 show ?thesis by (simp add: format_int.simps [of n] digit_char digits_val_def)
  next
    case False
    then have "format_int n = format_int (n div 10) @ [char_of (48 + n mod 10)]"
      by (simp add: format_int.simps [of n])
    with False 1 show ?thesis by (simp add: digit_char digits_val_append)
  qed
qed

lemma parse_format_uint [simp]: "parse_uint (format_uint w) = Some w"
proof -
  have "uint w < 2 ^ 64" using uint_lt2p [of w] by simp
  then show ?thesis
    using format_int_digits [of "uint w"] by (simp add: parse_uint_def format_uint_def)
qed

lemma scan_number_digits:
  assumes "w \<noteq> []" "list_all is_digit w" "hd w \<noteq> CHR ''0'' \<or> tl w = []" "delim t"
  shows "scan_number (w @ t) = Some t"
proof -
  obtain c cs where w: "w = c # cs" using assms(1) by (cases w) auto
  have "c \<noteq> CHR ''-''" using assms(2) w by (auto simp: is_digit_def)
  moreover have "scan_int_part (w @ t) = Some t"
    using assms w scan_digits1_append [of w t] delim_no_digit [of t] by (auto simp: scan_int_part_def)
  moreover have "scan_frac t = Some t" "scan_exp t = Some t"
    using assms(4) by (auto simp: scan_frac_def scan_exp_def delim_def is_ws_def split: list.splits)
  ultimately show ?thesis using w by (simp add: scan_number_def)
qed

lemma format_int_leading: "0 \<le> n \<Longrightarrow> hd (format_int n) \<noteq> CHR ''0'' \<or> tl (format_int n) = []"
proof (induction n rule: format_int.induct)
  case (1 n)
  show ?case
  proof (cases "n < 10")
    case False
    have "0 < m \<Longrightarrow> hd (format_int m) \<noteq> CHR ''0''" for m
    proof (induction m rule: format_int.induct)
      case (1 m)
      then show ?case
        using format_int_digits [of "m div 10"]
        by (cases "m < 10")
          (auto simp: format_int.simps [of m] hd_append char_of_eq_iff take_bit_eq_mod)
    qed
    then show ?thesis using False by simp
  qed (simp add: format_int.simps [of n])
qed

lemma canonical_uint: "canonical (format_uint w)"
proof -
  let ?w = "format_int (uint w)"
  have w: "?w \<noteq> []" "list_all is_digit ?w" using format_int_digits [of "uint w"] by auto
  obtain c cs where c: "?w = c # cs" "is_digit c" using w by (cases ?w) auto
  have "value_at (?w @ t) t" if "delim t" for t
  proof (rule at_intros(6) [where c = c and cs = "cs @ t"])
    have "scan_number (?w @ t) = Some t"
      using scan_number_digits [OF w _ that] format_int_leading [of "uint w"] by simp
    then show "scan_atom (c # cs @ t) = Some t"
      using c by (auto simp: scan_atom_def is_digit_def)
  qed (use c in \<open>auto simp: is_digit_def is_ws_def\<close>)
  then show ?thesis
    using w c compact_plain [OF digit_plain [OF w(2)]]
    by (auto simp: canonical_def format_uint_def is_digit_def is_ws_def)
qed

section \<open>Objects\<close>

lemma compact_canonical_append: "canonical v \<Longrightarrow> compact False (v @ t) = v @ compact False t"
  by (simp add: canonical_def)

lemma join_members_at:
  "ms \<noteq> [] \<Longrightarrow> list_all (canonical \<circ> snd) ms \<Longrightarrow>
    members_at (join_comma (map json_member ms) @ c_rbrace # t) t"
  by (induction ms rule: induct_list012)
    (auto simp: json_member_def marshal_string_def scan_string_quote_body
      intro!: canonical_last_member [of "quote_body _ @ [c_quote]", simplified]
        canonical_more_members [of "quote_body _ @ [c_quote]", simplified])

lemma compact_join:
  "list_all (\<lambda>v. \<forall>t. compact False (v @ t) = v @ compact False t) vs \<Longrightarrow>
    compact False (join_comma vs @ t) = join_comma vs @ compact False t"
  by (induction vs rule: join_comma.induct) auto

lemma compact_member:
  "canonical (snd m) \<Longrightarrow> compact False (json_member m @ t) = json_member m @ compact False t"
  using compact_canonical_append [OF canonical_string, of "fst m"] compact_canonical_append [of "snd m"]
  by (simp add: json_member_def)

lemma json_member_hd: "json_member m = c_quote # tl (json_member m)"
  by (simp add: json_member_def marshal_string_def)

lemma join_hd: "vs \<noteq> [] \<Longrightarrow> hd vs \<noteq> [] \<Longrightarrow> join_comma vs = hd (hd vs) # tl (join_comma vs)"
  by (cases vs rule: join_comma.cases) (auto simp: neq_Nil_conv)

lemma join_members_hd:
  "ms \<noteq> [] \<Longrightarrow> join_comma (map json_member ms) = c_quote # tl (join_comma (map json_member ms))"
  using join_hd [of "map json_member ms"] json_member_hd [of "hd ms"]
  by (simp add: hd_map) (metis list.distinct(1) list.sel(1))

lemma canonical_object:
  assumes "list_all (canonical \<circ> snd) ms"
  shows "canonical (json_object ms)"
proof -
  have "list_all (\<lambda>v. \<forall>t. compact False (v @ t) = v @ compact False t) (map json_member ms)"
    using assms by (auto simp: list_all_iff compact_member)
  from compact_join [OF this]
  have c: "compact False (json_object ms @ t) = json_object ms @ compact False t" for t
    by (simp add: json_object_def)
  have "value_at (json_object ms @ t) t" for t
  proof (cases "ms = []")
    case True
    then show ?thesis
      by (simp add: json_object_def at_intros(1) [where cs = "c_rbrace # t"])
  next
    case False
    let ?b = "join_comma (map json_member ms) @ c_rbrace # t"
    have b: "?b = c_quote # tl ?b"
      using join_members_hd [OF False] by (metis append_Cons list.sel(3))
    have "members_at ?b t" using False assms by (rule join_members_at)
    with b have "members_at (c_quote # tl ?b) t" by simp
    moreover have "skip_ws ?b = c_quote # tl ?b" by (subst b) simp
    ultimately have "value_at (c_lbrace # ?b) t"
      by (intro at_intros(2) [where cs = ?b and d = c_quote and ds = "tl ?b"]) simp_all
    then show ?thesis by (simp add: json_object_def)
  qed
  with c show ?thesis by (simp add: canonical_def json_object_def)
qed

lemma join_elems_at:
  "vs \<noteq> [] \<Longrightarrow> list_all canonical vs \<Longrightarrow> elems_at (join_comma vs @ c_rbrack # t) t"
  by (induction vs rule: join_comma.induct) (auto intro: canonical_last_elem canonical_more_elems)

lemma no_value_at_rbrack: "\<not> value_at (c_rbrack # w) r"
proof
  assume "value_at (c_rbrack # w) r"
  then show False
    by cases (simp_all add: scan_atom_def scan_number_def scan_int_part_def scan_digits1_def is_digit_def)
qed

lemma canonical_hd_rbrack: "canonical v \<Longrightarrow> hd v \<noteq> c_rbrack"
  using canonical_value [of v "[]"] no_value_at_rbrack by (cases v) (auto dest: canonical_ne)

lemma canonical_array:
  assumes "list_all canonical vs"
  shows "canonical (json_array vs)"
proof -
  have "list_all (\<lambda>v. \<forall>t. compact False (v @ t) = v @ compact False t) vs"
    using assms by (auto simp: list_all_iff compact_canonical_append)
  from compact_join [OF this]
  have c: "compact False (json_array vs @ t) = json_array vs @ compact False t" for t
    by (simp add: json_array_def)
  have "value_at (json_array vs @ t) t" for t
  proof (cases "vs = []")
    case True
    then show ?thesis
      by (simp add: json_array_def at_intros(3) [where cs = "c_rbrack # t"])
  next
    case False
    let ?d = "hd (hd vs)"
    let ?b = "join_comma vs @ c_rbrack # t"
    have v: "canonical (hd vs)" using assms False by (cases vs) auto
    have b: "?b = ?d # tl ?b"
      using join_hd [OF False canonical_ne [OF v]] by (metis append_Cons list.sel(3))
    have "elems_at ?b t" using False assms by (rule join_elems_at)
    with b have "elems_at (?d # tl ?b) t" by simp
    moreover have "skip_ws ?b = ?d # tl ?b"
      by (subst b) (use v in \<open>simp add: canonical_def\<close>)
    ultimately have "value_at (c_lbrack # ?b) t"
      using canonical_hd_rbrack [OF v]
      by (intro at_intros(4) [where cs = ?b and d = ?d and ds = "tl ?b"]) simp_all
    then show ?thesis by (simp add: json_array_def)
  qed
  with c show ?thesis by (simp add: canonical_def json_array_def)
qed

section \<open>Reading back what the encoder wrote\<close>

lemma take_value_append: "v \<noteq> [] \<Longrightarrow> \<not> is_ws (hd v) \<Longrightarrow> value_at (v @ t) t \<Longrightarrow> take_value (v @ t) = Some (v, t)"
  by (simp add: take_value_def scan_eq_iff [THEN iffD2])

lemma take_value_canonical: "canonical v \<Longrightarrow> delim t \<Longrightarrow> take_value (v @ t) = Some (v, t)"
  by (rule take_value_append) (simp_all add: canonical_def)

lemma take_value_string: "take_value (marshal_string k @ t) = Some (marshal_string k, t)"
  by (rule take_value_append)
    (auto simp: marshal_string_def scan_string_quote_body intro!: at_intros(5))

lemma members_step:
  assumes "canonical v"
  shows "members (Suc n) (json_member (k, v) @ [c_rbrace]) = Some [(k, v)]"
    "members (Suc n) (json_member (k, v) @ c_comma # t) = map_option ((#) (k, v)) (members n t)"
  using take_value_canonical [OF assms, of "[c_rbrace]"] take_value_canonical [OF assms, of "c_comma # t"]
  by (simp_all add: json_member_def take_value_string)

lemma members_object:
  "ms \<noteq> [] \<Longrightarrow> list_all (canonical \<circ> snd) ms \<Longrightarrow> length ms \<le> n \<Longrightarrow>
    members n (join_comma (map json_member ms) @ [c_rbrace]) = Some ms"
proof (induction ms arbitrary: n rule: induct_list012)
  case (2 m)
  then show ?case by (cases m; cases n) (simp_all add: members_step del: members.simps)
next
  case (3 m m' ms)
  then obtain n' where "n = Suc n'" "length (m' # ms) \<le> n'" by (cases n) auto
  with 3 show ?case by (cases m) (simp add: members_step del: members.simps)
qed simp

lemma length_join_members: "length ms \<le> length (join_comma (map json_member ms))"
  by (induction ms rule: induct_list012) (auto simp: json_member_def marshal_string_def)

lemma object_members_object:
  assumes "list_all (canonical \<circ> snd) ms"
  shows "object_members (json_object ms) = Some ms"
proof (cases "ms = []")
  case True
  then show ?thesis by (simp add: object_members_def json_object_def)
next
  case False
  obtain b where b: "join_comma (map json_member ms) @ [c_rbrace] = c_quote # b"
    using join_members_hd [OF False] by (metis append_Cons)
  have "members (length (json_object ms)) (c_quote # b) = Some ms"
    using False assms length_join_members [of ms] b [symmetric]
    by (simp add: members_object json_object_def del: members.simps)
  moreover have "json_object ms = c_lbrace # c_quote # b" using b by (simp add: json_object_def)
  ultimately show ?thesis by (simp add: object_members_def del: members.simps)
qed

text \<open>Decoding an encoded object assigns its members in order.\<close>

lemma unmarshal_object:
  assumes "list_all (canonical \<circ> snd) ms"
  shows "unmarshal f (json_object ms) x = set_fields f ms (None, x)"
proof -
  have c: "canonical (json_object ms)" using assms by (rule canonical_object)
  then have "take_value (json_object ms) = Some (json_object ms, [])"
    using take_value_canonical [of "json_object ms" "[]"] by simp
  moreover have "json_object ms \<noteq> json_null" by (simp add: json_object_def json_null_def)
  ultimately show ?thesis
    using assms canonical_json_valid [OF c] by (simp add: unmarshal_def object_members_object)
qed

text \<open>A string, number or raw value read from its own encoding; \<^verbatim>\<open>null\<close> never arises.\<close>

lemma get_string_marshal [simp]: "get_string (marshal_string s) old = (None, s)"
  by (simp add: get_string_def) (simp add: marshal_string_def json_null_def)

lemma get_uint_format [simp]: "get_uint (format_uint w) old = (None, w)"
proof -
  have "format_uint w \<noteq> json_null"
    using format_int_digits [of "uint w"]
    by (auto simp: format_uint_def json_null_def is_digit_def)
  then show ?thesis by (simp add: get_uint_def)
qed

lemmas canonical_intros = canonical_string canonical_uint canonical_object canonical_array
  marshal_raw_Inr canonical_compact

section \<open>Values cut out of a text\<close>

lemma skip_ws_split:
  assumes "skip_ws s = c # cs"
  obtains p where "s = p @ c # cs" "list_all is_ws p" "\<not> is_ws c"
  using assms skip_ws_hd [OF assms] takeWhile_dropWhile_id [of is_ws s]
  by (metis list_all_iff set_takeWhileD)

lemma skip_ws_ws: "list_all is_ws p \<Longrightarrow> skip_ws (p @ t) = skip_ws t"
  by (induction p) auto

lemma delim_ws: "list_all is_ws p \<Longrightarrow> delim t \<Longrightarrow> delim (p @ t)"
  by (cases p) (auto simp: delim_def)

lemma scan_string_local: "scan_string s = Some r \<Longrightarrow> \<exists>w. s = w @ r \<and> (\<forall>t. scan_string (w @ t) = Some t)"
proof (induction s rule: scan_string.induct)
  case (2 c cs)
  show ?case
  proof (cases "c = c_quote \<or> c \<noteq> c_bslash")
    case True
    with 2 show ?thesis
      by (cases "c = c_quote") (auto split: if_splits intro: exI [of _ "c # _"] exI [of _ "[c]"])
  next
    case False
    then obtain e es where c: "c = c_bslash" and cs: "cs = e # es" using 2(4) by (cases cs) auto
    show ?thesis
    proof (cases "e \<in> set simple_escapes")
      case True
      with 2 c cs obtain w where "es = w @ r" "\<forall>t. scan_string (w @ t) = Some t" by auto
      with True c cs show ?thesis by (intro exI [of _ "c # e # w"]) simp
    next
      case F: False
      then obtain h1 h2 h3 h4 u where es: "es = h1 # h2 # h3 # h4 # u"
        and e: "e = CHR ''u''" and hx: "list_all (\<lambda>h. hex_val h \<noteq> None) [h1, h2, h3, h4]"
        and r: "scan_string u = Some r"
        using 2(4) c cs by (auto split: if_splits list.splits)
      obtain w where "u = w @ r" "\<forall>t. scan_string (w @ t) = Some t"
        using 2(2) [OF _ c cs F e es refl refl refl hx r] c by auto
      with F c cs es e hx show ?thesis
        by (intro exI [of _ "c # e # h1 # h2 # h3 # h4 # w"]) simp
    qed
  qed
qed simp


lemma at_local:
  "value_at s r \<Longrightarrow> \<exists>w. s = w @ r \<and> (\<forall>t. delim t \<longrightarrow> value_at (w @ t) t)"
  "elems_at s r \<Longrightarrow> \<exists>w. s = w @ r \<and> w \<noteq> [] \<and> (\<forall>t. elems_at (w @ t) t)"
  "members_at s r \<Longrightarrow> \<exists>w. s = w @ r \<and> w \<noteq> [] \<and> (\<forall>t. members_at (w @ t) t)"
proof (induction rule: at_induct)
  case (empty_object s cs r)
  obtain p q where s: "s = p @ c_lbrace # q @ c_rbrace # r" "list_all is_ws p" "list_all is_ws q"
    using skip_ws_split [OF empty_object(1)] skip_ws_split [OF empty_object(2)] by metis
  have "value_at ((p @ c_lbrace # q @ [c_rbrace]) @ t) t" for t
    by (rule at_intros(1) [of _ "q @ c_rbrace # t"]) (simp_all add: skip_ws_ws s)
  then show ?case using s(1) by (intro exI [of _ "p @ c_lbrace # q @ [c_rbrace]"]) simp
next
  case (empty_array s cs r)
  obtain p q where s: "s = p @ c_lbrack # q @ c_rbrack # r" "list_all is_ws p" "list_all is_ws q"
    using skip_ws_split [OF empty_array(1)] skip_ws_split [OF empty_array(2)] by metis
  have "value_at ((p @ c_lbrack # q @ [c_rbrack]) @ t) t" for t
    by (rule at_intros(3) [of _ "q @ c_rbrack # t"]) (simp_all add: skip_ws_ws s)
  then show ?case using s(1) by (intro exI [of _ "p @ c_lbrack # q @ [c_rbrack]"]) simp
next
  case (object s cs d ds r)
  obtain p q where s: "s = p @ c_lbrace # q @ d # ds" "list_all is_ws p" "list_all is_ws q" "\<not> is_ws d"
    using skip_ws_split [OF object(1)] skip_ws_split [OF object(2)] by metis
  obtain w where w: "ds = w @ r" "\<forall>t. members_at (d # w @ t) t" using object s(4) by (metis append_Cons Cons_eq_append_conv)
  have "value_at ((p @ c_lbrace # q @ d # w) @ t) t" for t
    by (rule at_intros(2) [of _ "q @ d # w @ t" d "w @ t"])
      (use s w object(3) in \<open>simp_all add: skip_ws_ws\<close>)
  then show ?case using s(1) w(1) by (intro exI [of _ "p @ c_lbrace # q @ d # w"]) simp
next
  case (array s cs d ds r)
  obtain p q where s: "s = p @ c_lbrack # q @ d # ds" "list_all is_ws p" "list_all is_ws q" "\<not> is_ws d"
    using skip_ws_split [OF array(1)] skip_ws_split [OF array(2)] by metis
  obtain w where w: "ds = w @ r" "\<forall>t. elems_at (d # w @ t) t" using array s(4) by (metis append_Cons Cons_eq_append_conv)
  have "value_at ((p @ c_lbrack # q @ d # w) @ t) t" for t
    by (rule at_intros(4) [of _ "q @ d # w @ t" d "w @ t"])
      (use s w array(3) in \<open>simp_all add: skip_ws_ws\<close>)
  then show ?case using s(1) w(1) by (intro exI [of _ "p @ c_lbrack # q @ d # w"]) simp
next
  case (str s cs r)
  obtain p where s: "s = p @ c_quote # cs" "list_all is_ws p" using skip_ws_split [OF str(1)] by metis
  obtain w where w: "cs = w @ r" "\<forall>t. scan_string (w @ t) = Some t" using scan_string_local [OF str(2)] by blast
  have "value_at ((p @ c_quote # w) @ t) t" for t
    by (rule at_intros(5) [of _ "w @ t"]) (simp_all add: skip_ws_ws s w)
  then show ?case using s(1) w(1) by (intro exI [of _ "p @ c_quote # w"]) simp
next
  case (atom s c cs r)
  obtain p where s: "s = p @ c # cs" "list_all is_ws p" "\<not> is_ws c" using skip_ws_split [OF atom(1)] by metis
  obtain v where v: "c # cs = v @ r" "v \<noteq> []" "\<And>t. delim t \<Longrightarrow> scan_atom (v @ t) = Some t"
    using atom(2,3) by (auto elim!: scan_atom_split)
  then obtain w where w: "cs = w @ r" "\<And>t. delim t \<Longrightarrow> scan_atom (c # w @ t) = Some t"
    by (cases v) auto
  have "value_at ((p @ c # w) @ t) t" if "delim t" for t
    by (rule at_intros(6) [of _ c "w @ t"])
      (use s w(2) [OF that] atom(2) in \<open>simp_all add: skip_ws_ws\<close>)
  then show ?case using s(1) w(1) by (intro exI [of _ "p @ c # w"]) simp
next
  case (last_elem s r cs)
  then obtain w where w: "s = w @ r" "\<forall>t. delim t \<longrightarrow> value_at (w @ t) t" by blast
  obtain p where p: "r = p @ c_rbrack # cs" "list_all is_ws p" using skip_ws_split [OF last_elem(2)] by metis
  have "elems_at ((w @ p @ [c_rbrack]) @ t) t" for t
    by (rule at_intros(7) [of _ "p @ c_rbrack # t"]) (use w p in \<open>simp_all add: skip_ws_ws delim_ws\<close>)
  then show ?case using w(1) p(1) by (intro exI [of _ "w @ p @ [c_rbrack]"]) simp
next
  case (more_elems s r cs t)
  then obtain w u where w: "s = w @ r" "\<forall>t. delim t \<longrightarrow> value_at (w @ t) t"
    "cs = u @ t" "\<forall>t. elems_at (u @ t) t" by blast
  obtain p where p: "r = p @ c_comma # cs" "list_all is_ws p" using skip_ws_split [OF more_elems(2)] by metis
  have "elems_at ((w @ p @ c_comma # u) @ v) v" for v
    by (rule at_intros(8) [of _ "p @ c_comma # u @ v" "u @ v"])
      (use w p in \<open>simp_all add: skip_ws_ws delim_ws\<close>)
  then show ?case using w(1,3) p(1) by (intro exI [of _ "w @ p @ c_comma # u"]) simp
next
  case (last_member s qs r ks r2 cs)
  obtain p k q where p: "s = p @ c_quote # k @ q @ c_colon # ks" "list_all is_ws p" "list_all is_ws q"
    "\<forall>t. scan_string (k @ t) = Some t"
    using skip_ws_split [OF last_member(1)] scan_string_local [OF last_member(2)] skip_ws_split [OF last_member(3)]
    by metis
  obtain w where w: "ks = w @ r2" "\<forall>t. delim t \<longrightarrow> value_at (w @ t) t" using last_member by blast
  obtain z where z: "r2 = z @ c_rbrace # cs" "list_all is_ws z" using skip_ws_split [OF last_member(5)] by metis
  have "members_at ((p @ c_quote # k @ q @ c_colon # w @ z @ [c_rbrace]) @ v) v" for v
    by (rule at_intros(9) [of _ "k @ q @ c_colon # w @ z @ c_rbrace # v" "q @ c_colon # w @ z @ c_rbrace # v"
          "w @ z @ c_rbrace # v" "z @ c_rbrace # v"])
      (use p w z in \<open>simp_all add: skip_ws_ws delim_ws\<close>)
  then show ?case
    using p(1) w(1) z(1) by (intro exI [of _ "p @ c_quote # k @ q @ c_colon # w @ z @ [c_rbrace]"]) simp
next
  case (more_members s qs r ks r2 cs t)
  obtain p k q where p: "s = p @ c_quote # k @ q @ c_colon # ks" "list_all is_ws p" "list_all is_ws q"
    "\<forall>t. scan_string (k @ t) = Some t"
    using skip_ws_split [OF more_members(1)] scan_string_local [OF more_members(2)] skip_ws_split [OF more_members(3)]
    by metis
  obtain w u where w: "ks = w @ r2" "\<forall>t. delim t \<longrightarrow> value_at (w @ t) t" "cs = u @ t" "\<forall>t. members_at (u @ t) t"
    using more_members by blast
  obtain z where z: "r2 = z @ c_comma # cs" "list_all is_ws z" using skip_ws_split [OF more_members(5)] by metis
  have "members_at ((p @ c_quote # k @ q @ c_colon # w @ z @ c_comma # u) @ v) v" for v
    by (rule at_intros(10) [of _ "k @ q @ c_colon # w @ z @ c_comma # u @ v" "q @ c_colon # w @ z @ c_comma # u @ v"
          "w @ z @ c_comma # u @ v" "z @ c_comma # u @ v" "u @ v"])
      (use p w z in \<open>simp_all add: skip_ws_ws delim_ws\<close>)
  then show ?case
    using p(1) w(1,3) z(1) by (intro exI [of _ "p @ c_quote # k @ q @ c_colon # w @ z @ c_comma # u"]) simp
qed

text \<open>The raw text of a value cut out of a valid text is itself valid.\<close>

lemma take_value_valid:
  assumes "take_value s = Some (v, r)"
  shows "json_valid v"
proof -
  have "value_at (skip_ws s) r" "v = take (length (skip_ws s) - length r) (skip_ws s)"
    using assms by (auto simp: take_value_def Let_def scan_eq_iff split: option.splits)
  moreover obtain w where "skip_ws s = w @ r" "\<forall>t. delim t \<longrightarrow> value_at (w @ t) t"
    using at_local(1) calculation(1) by blast
  ultimately have "value_at v []" by (metis append.right_neutral append_eq_conv_conj delim_simps(1) diff_add_inverse2 length_append)
  then show ?thesis by (auto simp: json_valid_iff)
qed

lemma members_valid: "members n s = Some ms \<Longrightarrow> list_all (json_valid \<circ> snd) ms"
  by (induction n arbitrary: s ms)
    (auto split: option.splits prod.splits list.splits if_splits dest: take_value_valid)

lemma object_members_valid: "object_members s = Some ms \<Longrightarrow> list_all (json_valid \<circ> snd) ms"
  by (auto simp: object_members_def split: list.splits if_splits dest: members_valid simp del: members.simps)

text \<open>What holds of a struct and survives the assignment of any valid value holds after decoding.\<close>

lemma set_fields_inv:
  assumes "\<And>k v y. json_valid v \<Longrightarrow> P y \<Longrightarrow> P (snd (f k v y))" "list_all (json_valid \<circ> snd) ms" "P x"
  shows "P (snd (set_fields f ms (e, x)))"
  using assms(2,3)
proof (induction ms arbitrary: e x)
  case (Cons m ms)
  then show ?case
    using assms(1) [of "snd m" x "fst m"] by (cases m) (auto split: prod.splits)
qed simp

lemma unmarshal_inv:
  assumes "\<And>k v y. json_valid v \<Longrightarrow> P y \<Longrightarrow> P (snd (f k v y))" "P x"
  shows "P (snd (unmarshal f s x))"
  using assms by (auto simp: unmarshal_def split: option.splits intro: set_fields_inv object_members_valid)

end
