(* ===== verification/Protocol.thy ===== *)
theory Protocol
  imports JsonLaws
begin

text \<open>
  The wire format of \<^verbatim>\<open>internal/protocol/protocol.go\<close>: the tagged envelope, the
  payload structs with their JSON tags, \<^verbatim>\<open>Marshal\<close> and \<^verbatim>\<open>DecodePayload\<close>. A field
  of the model carries the Go field's name after a prefix for its struct. A
  \<^verbatim>\<open>float64\<close> coordinate is the text of its JSON number.
\<close>

section \<open>Message types\<close>

definition TypeShapeCreate :: bytes where "TypeShapeCreate = ''shape.create''"
definition TypeShapeUpdate :: bytes where "TypeShapeUpdate = ''shape.update''"
definition TypeShapeDelete :: bytes where "TypeShapeDelete = ''shape.delete''"
definition TypeCursor :: bytes where "TypeCursor = ''cursor''"
definition TypePresenceJoin :: bytes where "TypePresenceJoin = ''presence.join''"
definition TypePresenceLeave :: bytes where "TypePresenceLeave = ''presence.leave''"
definition TypePresenceState :: bytes where "TypePresenceState = ''presence.state''"
definition TypeSnapshot :: bytes where "TypeSnapshot = ''snapshot''"
definition TypeError :: bytes where "TypeError = ''error''"

lemmas type_tags = TypeShapeCreate_def TypeShapeUpdate_def TypeShapeDelete_def TypeCursor_def
  TypePresenceJoin_def TypePresenceLeave_def TypePresenceState_def TypeSnapshot_def TypeError_def

section \<open>Structs\<close>

record Envelope =
  env_Type :: bytes
  env_Seq :: u64
  env_Payload :: slice

record ShapeOp =
  op_ID :: bytes
  op_Shape :: slice

record SnapshotShape =
  ss_Seq :: u64
  ss_ID :: bytes
  ss_Shape :: slice

record Snapshot =
  snap_Seq :: u64
  snap_Shapes :: "SnapshotShape list"

record Cursor =
  cur_ClientID :: bytes
  cur_X :: bytes
  cur_Y :: bytes

record Presence =
  p_ClientID :: bytes
  p_Name :: bytes
  p_Color :: bytes

record PresenceState =
  ps_Self :: Presence
  ps_Others :: "Presence list"

text \<open>Zero values, which a \<^verbatim>\<open>var\<close> declaration gives.\<close>

definition zero_Envelope :: Envelope where
  "zero_Envelope = \<lparr>env_Type = [], env_Seq = 0, env_Payload = None\<rparr>"
definition zero_ShapeOp :: ShapeOp where
  "zero_ShapeOp = \<lparr>op_ID = [], op_Shape = None\<rparr>"
definition zero_Cursor :: Cursor where
  "zero_Cursor = \<lparr>cur_ClientID = [], cur_X = ''0'', cur_Y = ''0''\<rparr>"
definition zero_Presence :: Presence where
  "zero_Presence = \<lparr>p_ClientID = [], p_Name = [], p_Color = []\<rparr>"

section \<open>Encoding\<close>

definition omit_empty :: "bool \<Rightarrow> bytes \<Rightarrow> bytes \<Rightarrow> (bytes \<times> bytes) list" where
  "omit_empty is_zero k v = (if is_zero then [] else [(k, v)])"

fun map_result :: "('a \<Rightarrow> 'b go_result) \<Rightarrow> 'a list \<Rightarrow> 'b list go_result" where
  "map_result f [] = Inr []"
| "map_result f (x # xs) = bind_result (f x) (\<lambda>y. bind_result (map_result f xs) (\<lambda>ys. Inr (y # ys)))"

definition marshal_Envelope :: "Envelope \<Rightarrow> bytes go_result" where
  "marshal_Envelope e =
     (if slice_bytes (env_Payload e) = [] then
        Inr (json_object
          ((''type'', marshal_string (env_Type e)) #
           omit_empty (env_Seq e = 0) ''seq'' (format_uint (env_Seq e))))
      else bind_result (marshal_raw (env_Payload e)) (\<lambda>p.
        Inr (json_object
          ((''type'', marshal_string (env_Type e)) #
           omit_empty (env_Seq e = 0) ''seq'' (format_uint (env_Seq e)) @ [(''payload'', p)]))))"

definition marshal_ShapeOp :: "ShapeOp \<Rightarrow> bytes go_result" where
  "marshal_ShapeOp x =
     (if slice_bytes (op_Shape x) = [] then
        Inr (json_object [(''id'', marshal_string (op_ID x))])
      else bind_result (marshal_raw (op_Shape x)) (\<lambda>p.
        Inr (json_object [(''id'', marshal_string (op_ID x)), (''shape'', p)])))"

definition marshal_SnapshotShape :: "SnapshotShape \<Rightarrow> bytes go_result" where
  "marshal_SnapshotShape x =
     bind_result (marshal_raw (ss_Shape x)) (\<lambda>p.
       Inr (json_object [(''seq'', format_uint (ss_Seq x)), (''id'', marshal_string (ss_ID x)), (''shape'', p)]))"

definition marshal_Snapshot :: "Snapshot \<Rightarrow> bytes go_result" where
  "marshal_Snapshot x =
     bind_result (map_result marshal_SnapshotShape (snap_Shapes x)) (\<lambda>vs.
       Inr (json_object [(''seq'', format_uint (snap_Seq x)), (''shapes'', json_array vs)]))"

definition marshal_Cursor :: "Cursor \<Rightarrow> bytes go_result" where
  "marshal_Cursor x =
     Inr (json_object [(''clientId'', marshal_string (cur_ClientID x)), (''x'', cur_X x), (''y'', cur_Y x)])"

definition presence_object :: "Presence \<Rightarrow> bytes" where
  "presence_object x =
     json_object ((''clientId'', marshal_string (p_ClientID x)) #
       omit_empty (p_Name x = []) ''name'' (marshal_string (p_Name x)) @
       omit_empty (p_Color x = []) ''color'' (marshal_string (p_Color x)))"

definition marshal_Presence :: "Presence \<Rightarrow> bytes go_result" where
  "marshal_Presence x = Inr (presence_object x)"

definition marshal_PresenceState :: "PresenceState \<Rightarrow> bytes go_result" where
  "marshal_PresenceState x =
     Inr (json_object [(''self'', presence_object (ps_Self x)),
       (''others'', json_array (map presence_object (ps_Others x)))])"

text \<open>\<open>Marshal t seq payload\<close>: the payload argument is what \<^verbatim>\<open>json.Marshal\<close> returns for it.\<close>

definition Marshal :: "bytes \<Rightarrow> u64 \<Rightarrow> bytes go_result \<Rightarrow> bytes go_result" where
  "Marshal t seq payload =
     bind_result payload (\<lambda>raw. marshal_Envelope \<lparr>env_Type = t, env_Seq = seq, env_Payload = Some raw\<rparr>)"

section \<open>Decoding\<close>

definition set_Envelope :: "Envelope setter" where
  "set_Envelope k v x =
     (if key_matches ''type'' k then
        (case get_string v (env_Type x) of (e, s) \<Rightarrow> (e, x\<lparr>env_Type := s\<rparr>))
      else if key_matches ''seq'' k then
        (case get_uint v (env_Seq x) of (e, n) \<Rightarrow> (e, x\<lparr>env_Seq := n\<rparr>))
      else if key_matches ''payload'' k then (None, x\<lparr>env_Payload := Some v\<rparr>)
      else (None, x))"

definition set_ShapeOp :: "ShapeOp setter" where
  "set_ShapeOp k v x =
     (if key_matches ''id'' k then
        (case get_string v (op_ID x) of (e, s) \<Rightarrow> (e, x\<lparr>op_ID := s\<rparr>))
      else if key_matches ''shape'' k then (None, x\<lparr>op_Shape := Some v\<rparr>)
      else (None, x))"

definition set_Cursor :: "Cursor setter" where
  "set_Cursor k v x =
     (if key_matches ''clientId'' k then
        (case get_string v (cur_ClientID x) of (e, s) \<Rightarrow> (e, x\<lparr>cur_ClientID := s\<rparr>))
      else if key_matches ''x'' k then
        (case get_number v (cur_X x) of (e, s) \<Rightarrow> (e, x\<lparr>cur_X := s\<rparr>))
      else if key_matches ''y'' k then
        (case get_number v (cur_Y x) of (e, s) \<Rightarrow> (e, x\<lparr>cur_Y := s\<rparr>))
      else (None, x))"

definition set_Presence :: "Presence setter" where
  "set_Presence k v x =
     (if key_matches ''clientId'' k then
        (case get_string v (p_ClientID x) of (e, s) \<Rightarrow> (e, x\<lparr>p_ClientID := s\<rparr>))
      else if key_matches ''name'' k then
        (case get_string v (p_Name x) of (e, s) \<Rightarrow> (e, x\<lparr>p_Name := s\<rparr>))
      else if key_matches ''color'' k then
        (case get_string v (p_Color x) of (e, s) \<Rightarrow> (e, x\<lparr>p_Color := s\<rparr>))
      else (None, x))"

text \<open>\<^verbatim>\<open>json.Unmarshal(data, &env)\<close> into a fresh envelope.\<close>

definition unmarshal_Envelope :: "bytes \<Rightarrow> go_error option \<times> Envelope" where
  "unmarshal_Envelope data = unmarshal set_Envelope data zero_Envelope"

definition unmarshal_Presence :: "bytes \<Rightarrow> go_error option \<times> Presence" where
  "unmarshal_Presence data = unmarshal set_Presence data zero_Presence"

definition DecodePayload :: "Envelope \<Rightarrow> 'a setter \<Rightarrow> 'a \<Rightarrow> go_error option \<times> 'a" where
  "DecodePayload e f v =
     (if slice_bytes (env_Payload e) = [] then (None, v)
      else unmarshal f (slice_bytes (env_Payload e)) v)"

section \<open>Laws of the wire format\<close>

lemmas key_eval = key_matches_def lower_def

lemma canonical_number: "scan_number x = Some [] \<Longrightarrow> canonical x"
proof -
  assume x: "scan_number x = Some []"
  then obtain w where w: "x = w" "w \<noteq> []" "plain w" "\<And>t. delim t \<Longrightarrow> scan_number (w @ t) = Some t"
    "hd w = CHR ''-'' \<or> is_digit (hd w)"
    by (elim scan_number_split) simp
  then obtain c cs where c: "w = c # cs" by (cases w) auto
  have "value_at (w @ t) t" if "delim t" for t
    unfolding c by (rule at_intros(6) [where c = c and cs = "cs @ t"])
      (use w(3,5) w(4) [OF that] c in \<open>auto simp: scan_atom_def is_digit_def\<close>)
  then show ?thesis
    using w(1-3) c compact_plain [OF w(3)] by (auto simp: canonical_def)
qed

text \<open>A canonical payload survives the envelope: type, sequence and payload come back.\<close>

lemma envelope_roundtrip:
  assumes "canonical raw"
  obtains data where "Marshal t seq (Inr raw) = Inr data"
    "unmarshal_Envelope data = (None, \<lparr>env_Type = t, env_Seq = seq, env_Payload = Some raw\<rparr>)"
proof -
  let ?ms = "(''type'', marshal_string t) # omit_empty (seq = 0) ''seq'' (format_uint seq) @ [(''payload'', raw)]"
  have "list_all (canonical \<circ> snd) ?ms"
    using assms by (simp add: omit_empty_def canonical_string canonical_uint)
  then have "unmarshal_Envelope (json_object ?ms) = set_fields set_Envelope ?ms (None, zero_Envelope)"
    by (simp add: unmarshal_Envelope_def unmarshal_object)
  also have "\<dots> = (None, \<lparr>env_Type = t, env_Seq = seq, env_Payload = Some raw\<rparr>)"
    by (auto simp: omit_empty_def set_Envelope_def key_eval zero_Envelope_def)
  finally show thesis
    using assms by (intro that [of "json_object ?ms"])
      (simp_all add: Marshal_def marshal_Envelope_def canonical_ne marshal_raw_canonical)
qed

lemma decode_payload_object:
  "list_all (canonical \<circ> snd) ms \<Longrightarrow>
    DecodePayload \<lparr>env_Type = t, env_Seq = seq, env_Payload = Some (json_object ms)\<rparr> f x =
      set_fields f ms (None, x)"
  by (simp add: DecodePayload_def unmarshal_object canonical_ne [OF canonical_object])

lemma marshal_ShapeOp_cases:
  assumes "op_Shape x = None \<or> (\<exists>s. op_Shape x = Some s \<and> json_valid s)"
  obtains ms where "marshal_ShapeOp x = Inr (json_object ms)" "list_all (canonical \<circ> snd) ms"
    "set_fields set_ShapeOp ms (None, zero_ShapeOp) =
      (None, x\<lparr>op_Shape := map_option (compact False) (op_Shape x)\<rparr>)"
proof (cases "op_Shape x")
  case None
  then show thesis
    by (intro that [of "[(''id'', marshal_string (op_ID x))]"])
      (simp_all add: marshal_ShapeOp_def canonical_string set_ShapeOp_def key_eval zero_ShapeOp_def)
next
  case (Some s)
  then have s: "json_valid s" using assms by simp
  then have "s \<noteq> []" by (auto simp: json_valid_def scan_def)
  with s Some show thesis
    by (intro that [of "[(''id'', marshal_string (op_ID x)), (''shape'', compact False s)]"])
      (simp_all add: marshal_ShapeOp_def marshal_raw_def canonical_string canonical_compact
        set_ShapeOp_def key_eval zero_ShapeOp_def)
qed

lemma canonical_presence: "canonical (presence_object x)"
  by (simp add: presence_object_def canonical_object canonical_string omit_empty_def)

lemma unmarshal_presence_object: "unmarshal_Presence (presence_object x) = (None, x)"
  unfolding unmarshal_Presence_def presence_object_def
  by (subst unmarshal_object)
    (auto simp: canonical_string omit_empty_def set_Presence_def key_eval zero_Presence_def)

lemma map_result_Inl_iff: "(\<exists>e. map_result f xs = Inl e) \<longleftrightarrow> (\<exists>x \<in> set xs. \<exists>e. f x = Inl e)"
  by (induction xs) (auto simp: bind_result_def split: sum.splits)

lemma marshal_SnapshotShape_Inl_iff:
  "(\<exists>e. marshal_SnapshotShape x = Inl e) \<longleftrightarrow> (\<exists>r. ss_Shape x = Some r \<and> \<not> json_valid r)"
  by (auto simp: marshal_SnapshotShape_def marshal_raw_def bind_result_def split: sum.splits option.splits if_splits)

lemma map_result_canonical:
  "map_result marshal_SnapshotShape xs = Inr vs \<Longrightarrow> list_all canonical vs"
  by (induction xs arbitrary: vs)
    (auto simp: bind_result_def marshal_SnapshotShape_def canonical_object canonical_string canonical_uint
      split: sum.splits dest: marshal_raw_Inr)

lemma marshal_Snapshot_canonical: "marshal_Snapshot x = Inr raw \<Longrightarrow> canonical raw"
  by (auto simp: marshal_Snapshot_def bind_result_def canonical_object canonical_uint canonical_array
      split: sum.splits dest: map_result_canonical)

section \<open>Properties\<close>

text \<open>(C37)
  Round trip of a shape operation: for any message type, sequence number and operation whose
  shape is absent or valid JSON, \<^verbatim>\<open>Marshal\<close> succeeds, and unmarshalling the bytes and decoding
  the payload gives back type, sequence number and id, and the shape in its compact form.
\<close>

theorem shape_op_wire_roundtrip:
  assumes "utf8_text t" "utf8_text (op_ID x)" "utf8_text (slice_bytes (op_Shape x))"
    "op_Shape x = None \<or> (\<exists>s. op_Shape x = Some s \<and> json_valid s)"
  shows "\<exists>data env. Marshal t seq (marshal_ShapeOp x) = Inr data \<and> unmarshal_Envelope data = (None, env) \<and>
    env_Type env = t \<and> env_Seq env = seq \<and>
    DecodePayload env set_ShapeOp zero_ShapeOp = (None, x\<lparr>op_Shape := map_option (compact False) (op_Shape x)\<rparr>)"
proof -
  obtain ms where ms: "marshal_ShapeOp x = Inr (json_object ms)" "list_all (canonical \<circ> snd) ms"
    "set_fields set_ShapeOp ms (None, zero_ShapeOp) = (None, x\<lparr>op_Shape := map_option (compact False) (op_Shape x)\<rparr>)"
    using marshal_ShapeOp_cases [OF assms(4)] by metis
  obtain data where "Marshal t seq (Inr (json_object ms)) = Inr data"
    "unmarshal_Envelope data = (None, \<lparr>env_Type = t, env_Seq = seq, env_Payload = Some (json_object ms)\<rparr>)"
    using envelope_roundtrip [OF canonical_object [OF ms(2)]] by metis
  with ms show ?thesis by (auto simp: decode_payload_object)
qed

theorem shape_op_wire_roundtrip_witness:
  "\<exists>data env. Marshal TypeShapeCreate 7 (marshal_ShapeOp \<lparr>op_ID = ''s1'', op_Shape = Some ''{ }''\<rparr>) = Inr data \<and>
    unmarshal_Envelope data = (None, env) \<and> env_Type env = TypeShapeCreate \<and> env_Seq env = 7 \<and>
    DecodePayload env set_ShapeOp zero_ShapeOp = (None, \<lparr>op_ID = ''s1'', op_Shape = Some ''{}''\<rparr>)"
proof -
  have "utf8_text TypeShapeCreate" "utf8_text ''s1''" "utf8_text ''{ }''" "json_valid ''{ }''"
    "compact False ''{ }'' = ''{}''"
    by code_simp+
  then show ?thesis
    using shape_op_wire_roundtrip [of TypeShapeCreate "\<lparr>op_ID = ''s1'', op_Shape = Some ''{ }''\<rparr>" 7] by simp
qed

text \<open>
  Round trip of a presence entry: what \<^verbatim>\<open>joinPresence\<close> stores in the roster decodes to the
  same client id, name and colour, empty names and colours included.
\<close>

lemma presence_roundtrip:
  assumes "utf8_text (p_ClientID x)" "utf8_text (p_Name x)" "utf8_text (p_Color x)"
  shows "\<exists>data. marshal_Presence x = Inr data \<and> unmarshal_Presence data = (None, x)"
  by (simp add: marshal_Presence_def unmarshal_presence_object)

text \<open>
  Encoding a snapshot fails exactly when one of its shapes holds a byte slice that is not nil
  and not valid JSON; one such shape makes the whole snapshot unsendable.
\<close>

lemma snapshot_marshal_error:
  "(\<exists>e. Marshal TypeSnapshot 0 (marshal_Snapshot snap) = Inl e) \<longleftrightarrow>
    (\<exists>x \<in> set (snap_Shapes snap). \<exists>r. ss_Shape x = Some r \<and> \<not> json_valid r)"
proof -
  have "(\<exists>e. Marshal TypeSnapshot 0 (marshal_Snapshot snap) = Inl e) \<longleftrightarrow> (\<exists>e. marshal_Snapshot snap = Inl e)"
  proof (cases "marshal_Snapshot snap")
    case (Inr raw)
    obtain data where "Marshal TypeSnapshot 0 (Inr raw) = Inr data"
      by (rule envelope_roundtrip [OF marshal_Snapshot_canonical [OF Inr], of TypeSnapshot 0])
    with Inr show ?thesis by simp
  qed (simp add: Marshal_def)
  also have "\<dots> \<longleftrightarrow> (\<exists>x \<in> set (snap_Shapes snap). \<exists>e. marshal_SnapshotShape x = Inl e)"
    unfolding map_result_Inl_iff [symmetric] by (auto simp: marshal_Snapshot_def bind_result_def split: sum.splits)
  finally show ?thesis by (simp add: marshal_SnapshotShape_Inl_iff)
qed

end
