(* ===== verification/Broker.thy ===== *)
theory Broker
  imports Protocol
begin

text \<open>
  The \<^verbatim>\<open>Broker\<close> interface of \<^verbatim>\<open>internal/broker/broker.go\<close>: its method table as a
  record over the implementation's state type, an abstract document that says what
  the methods promise, and the contract as a locale. Lemmas that hold for every
  broker are proved inside the locale; \<^verbatim>\<open>MemoryBroker\<close> interprets it.
\<close>

section \<open>The abstract document of a board\<close>

text \<open>The board's sequence counter and, for each live shape, its stamp and its blob.\<close>

record doc =
  d_seq :: u64
  d_shapes :: "bytes \<rightharpoonup> u64 \<times> bytes"

definition empty_doc :: doc where
  "empty_doc = \<lparr>d_seq = 0, d_shapes = Map.empty\<rparr>"

definition has_state :: "doc \<Rightarrow> bool" where
  "has_state d \<longleftrightarrow> d_seq d \<noteq> 0 \<or> d_shapes d \<noteq> Map.empty"

text \<open>Last write wins: the next sequence number, then overwrite or remove.\<close>

definition doc_apply :: "bytes \<Rightarrow> bytes \<Rightarrow> bool \<Rightarrow> doc \<Rightarrow> doc" where
  "doc_apply i blob del d =
     \<lparr>d_seq = d_seq d + 1,
      d_shapes = (if del then (d_shapes d)(i := None) else (d_shapes d)(i \<mapsto> (d_seq d + 1, blob)))\<rparr>"

text \<open>The document a snapshot describes; of two entries for one id the later counts.\<close>

definition shape_entry :: "SnapshotShape \<Rightarrow> bytes \<times> (u64 \<times> bytes)" where
  "shape_entry s = (ss_ID s, (ss_Seq s, slice_bytes (ss_Shape s)))"

definition doc_of_snapshot :: "Snapshot \<Rightarrow> doc" where
  "doc_of_snapshot snap =
     \<lparr>d_seq = snap_Seq snap, d_shapes = map_of (rev (map shape_entry (snap_Shapes snap)))\<rparr>"

text \<open>Every stamp is used once and none is ahead of the counter.\<close>

definition doc_ok :: "doc \<Rightarrow> bool" where
  "doc_ok d \<longleftrightarrow>
     (\<forall>i q b. d_shapes d i = Some (q, b) \<longrightarrow> q \<le> d_seq d) \<and>
     (\<forall>i j q b c. d_shapes d i = Some (q, b) \<longrightarrow> d_shapes d j = Some (q, c) \<longrightarrow> i = j)"

definition snap_ok :: "Snapshot \<Rightarrow> bool" where
  "snap_ok snap \<longleftrightarrow>
     distinct (map ss_ID (snap_Shapes snap)) \<and> distinct (map ss_Seq (snap_Shapes snap)) \<and>
     list_all (\<lambda>s. ss_Seq s \<le> snap_Seq snap) (snap_Shapes snap)"

text \<open>A snapshot of a document: its counter and its shapes, oldest stamp first.\<close>

definition snapshot_of :: "doc \<Rightarrow> Snapshot \<Rightarrow> bool" where
  "snapshot_of d snap \<longleftrightarrow> snap_ok snap \<and> sorted (map ss_Seq (snap_Shapes snap)) \<and> doc_of_snapshot snap = d"

section \<open>The interface\<close>

text \<open>
  The method table. \<^verbatim>\<open>Subscribe\<close> returns the channel it made; cancelling its context
  and receiving from the channel are operations of their own.
\<close>

record 'b Broker =
  br_ApplyShape :: "'b \<Rightarrow> bytes \<Rightarrow> bytes \<Rightarrow> slice \<Rightarrow> bool \<Rightarrow> u64 go_result \<times> 'b"
  br_Publish :: "'b \<Rightarrow> bytes \<Rightarrow> bytes \<Rightarrow> unit go_result \<times> 'b"
  br_Subscribe :: "'b \<Rightarrow> bytes \<Rightarrow> nat go_result \<times> 'b"
  br_cancel :: "'b \<Rightarrow> bytes \<Rightarrow> nat \<Rightarrow> 'b"
  br_recv :: "'b \<Rightarrow> nat \<Rightarrow> bytes option \<times> 'b"
  br_Snapshot :: "'b \<Rightarrow> bytes \<Rightarrow> Snapshot go_result \<times> 'b"
  br_Hydrate :: "'b \<Rightarrow> bytes \<Rightarrow> Snapshot \<Rightarrow> bool go_result \<times> 'b"
  br_SetPresence :: "'b \<Rightarrow> bytes \<Rightarrow> bytes \<Rightarrow> slice \<Rightarrow> unit go_result \<times> 'b"
  br_RemovePresence :: "'b \<Rightarrow> bytes \<Rightarrow> bytes \<Rightarrow> unit go_result \<times> 'b"
  br_Presence :: "'b \<Rightarrow> bytes \<Rightarrow> Presence list go_result \<times> 'b"
  br_Close :: "'b \<Rightarrow> unit go_result \<times> 'b"

section \<open>Laws of the document\<close>

lemma empty_doc_ok [simp]: "doc_ok empty_doc"
  by (simp add: doc_ok_def empty_doc_def)

lemma doc_apply_seq [simp]: "d_seq (doc_apply i b del d) = d_seq d + 1"
  by (simp add: doc_apply_def)

lemma doc_apply_shapes:
  "d_shapes (doc_apply i b del d) j =
     (if j = i then (if del then None else Some (d_seq d + 1, b)) else d_shapes d j)"
  by (simp add: doc_apply_def)

lemma doc_apply_ok [keeps_inv]:
  assumes "doc_ok d" "d_seq d \<noteq> - 1"
  shows "doc_ok (doc_apply i b del d)"
proof -
  have lt: "d_seq d < d_seq d + 1" using assms(2) by (rule less_Suc_u64)
  have le: "q \<le> d_seq d" if "d_shapes d j = Some (q, c)" for j q c
    using assms(1) that unfolding doc_ok_def by blast
  have "q \<le> d_seq d + 1 \<and> q \<noteq> d_seq d + 1" if "d_shapes d j = Some (q, c)" for j q c
    using le [OF that] lt by auto
  then show ?thesis
    using assms(1) unfolding doc_ok_def
    by (auto simp: doc_apply_shapes split: if_splits)
qed

lemma map_of_rev_distinct: "distinct (map fst xs) \<Longrightarrow> map_of (rev xs) = map_of xs"
  by (rule map_of_inject_set [THEN iffD2]) (simp_all add: rev_map [symmetric])

lemma shape_entry_fst: "map fst (map shape_entry xs) = map ss_ID xs"
  by (simp add: shape_entry_def)

lemma doc_of_snapshot_iff:
  assumes "distinct (map ss_ID (snap_Shapes snap))"
  shows "d_shapes (doc_of_snapshot snap) i = Some (q, b) \<longleftrightarrow>
    (\<exists>s \<in> set (snap_Shapes snap). ss_ID s = i \<and> ss_Seq s = q \<and> slice_bytes (ss_Shape s) = b)"
proof -
  have "distinct (map fst (map shape_entry (snap_Shapes snap)))"
    using assms by (simp only: shape_entry_fst)
  then show ?thesis
    by (auto simp: doc_of_snapshot_def map_of_rev_distinct map_of_eq_Some_iff shape_entry_def)
qed

lemma doc_of_snapshot_ok: "snap_ok snap \<Longrightarrow> doc_ok (doc_of_snapshot snap)"
  unfolding doc_ok_def snap_ok_def
  by (auto simp: doc_of_snapshot_iff list_all_iff) (auto simp: doc_of_snapshot_def distinct_map inj_on_def)

lemma snapshot_of_ok: "snapshot_of d snap \<Longrightarrow> doc_ok d"
  by (auto simp: snapshot_of_def doc_of_snapshot_ok)

lemma snapshot_of_seq: "snapshot_of d snap \<Longrightarrow> snap_Seq snap = d_seq d"
  by (auto simp: snapshot_of_def) (auto simp: doc_of_snapshot_def)

text \<open>Sorting the entries of a document by their stamps gives its snapshot.\<close>

lemma snapshot_of_sorted:
  assumes "gomap_ok (map shape_entry xs)" "gomap_get (map shape_entry xs) = d_shapes d" "doc_ok d"
  shows "snapshot_of d \<lparr>snap_Seq = d_seq d, snap_Shapes = sort_key ss_Seq xs\<rparr>"
proof -
  let ?snap = "\<lparr>snap_Seq = d_seq d, snap_Shapes = sort_key ss_Seq xs\<rparr>"
  have entry: "d_shapes d (ss_ID x) = Some (ss_Seq x, slice_bytes (ss_Shape x))" if "x \<in> set xs" for x
    using assms(1) that unfolding assms(2) [symmetric] by (simp add: gomap_get_iff shape_entry_def rev_image_eqI)
  have dist: "distinct (map ss_ID xs)" "distinct xs"
    using assms(1) by (simp_all only: gomap_ok_def shape_entry_fst distinct_map)
  have "inj_on ss_Seq (set xs)"
  proof (rule inj_onI)
    fix x y assume xy: "x \<in> set xs" "y \<in> set xs" "ss_Seq x = ss_Seq y"
    then have "ss_ID x = ss_ID y" using entry [of x] entry [of y] assms(3) unfolding doc_ok_def by metis
    then show "x = y" using dist(1) xy(1,2) by (simp add: distinct_map inj_on_def)
  qed
  with dist have perm: "distinct (map ss_ID (sort_key ss_Seq xs))" "distinct (map ss_Seq (sort_key ss_Seq xs))"
    by (simp_all add: distinct_map)
  have "list_all (\<lambda>s. ss_Seq s \<le> d_seq d) (sort_key ss_Seq xs)"
    using entry assms(3) unfolding doc_ok_def list_all_iff by fastforce
  moreover have "gomap_get (map shape_entry (sort_key ss_Seq xs)) = d_shapes d"
    unfolding assms(2) [symmetric]
  proof (rule gomap_get_mset)
    show "gomap_ok (map shape_entry (sort_key ss_Seq xs))" using perm(1) by (simp only: gomap_ok_def shape_entry_fst)
  qed (simp only: mset_map mset_sort)
  moreover have "distinct (map fst (map shape_entry (sort_key ss_Seq xs)))"
    using perm(1) by (simp only: shape_entry_fst)
  ultimately show ?thesis
    using perm by (simp add: snapshot_of_def snap_ok_def doc_of_snapshot_def map_of_rev_distinct del: map_map)
qed

text \<open>
  One document has one snapshot, blobs compared by their bytes: whatever order the
  broker visits its shapes in, the client sees the same list.
\<close>

lemma snapshot_of_unique:
  assumes "snapshot_of d s" "snapshot_of d s'"
  shows "map shape_entry (snap_Shapes s) = map shape_entry (snap_Shapes s')" "snap_Seq s = snap_Seq s'"
proof -
  let ?f = "map shape_entry"
  have dist: "distinct (map fst (?f (snap_Shapes x)))" "distinct (map (fst \<circ> snd) (?f (snap_Shapes x)))"
    "sorted (map (fst \<circ> snd) (?f (snap_Shapes x)))" "d_shapes d = map_of (?f (snap_Shapes x))"
    if "snapshot_of d x" for x
    using that by (auto simp: snapshot_of_def snap_ok_def doc_of_snapshot_def shape_entry_def comp_def
        map_of_rev_distinct)
  have "mset (?f (snap_Shapes s)) = mset (?f (snap_Shapes s'))"
    using dist [OF assms(1)] dist [OF assms(2)] by (intro gomap_eq_imp_mset_eq) (simp_all add: gomap_ok_def)
  then show "?f (snap_Shapes s) = ?f (snap_Shapes s')"
    using sort_key_unique dist [OF assms(1)] dist [OF assms(2)] by metis
  show "snap_Seq s = snap_Seq s'"
    using assms by (auto simp: snapshot_of_def doc_of_snapshot_def)
qed

section \<open>Logs of shape operations\<close>

text \<open>An operation: shape id, blob, and whether it deletes.\<close>

type_synonym shape_write = "bytes \<times> bytes \<times> bool"

definition run_log :: "shape_write list \<Rightarrow> doc \<Rightarrow> doc" where
  "run_log ops d = foldl (\<lambda>d (i, b, del). doc_apply i b del d) d ops"

text \<open>The last operation of the log on shape \<open>i\<close>, with its position counted from 1.\<close>

definition last_write :: "shape_write list \<Rightarrow> bytes \<Rightarrow> (nat \<times> shape_write) option" where
  "last_write ops i = find (\<lambda>(n, w). fst w = i) (rev (enumerate 1 ops))"

lemma run_log_snoc: "run_log (ops @ [w]) d = (case w of (i, b, del) \<Rightarrow> doc_apply i b del (run_log ops d))"
  by (simp add: run_log_def)

lemma run_log_Cons: "run_log ((i, b, del) # ops) d = run_log ops (doc_apply i b del d)"
  by (simp add: run_log_def)

lemma run_log_seq: "d_seq (run_log ops d) = d_seq d + of_nat (length ops)"
  by (induction ops rule: rev_induct) (simp add: run_log_def, simp add: run_log_snoc split: prod.splits)

lemma last_write_snoc:
  "last_write (ops @ [w]) i = (if fst w = i then Some (Suc (length ops), w) else last_write ops i)"
  by (simp add: last_write_def enumerate_append_eq)

text \<open>Replaying a log leaves, for each shape, what its last operation wrote, under that
  operation's position in the log.\<close>

lemma run_log_last_write:
  "d_shapes (run_log ops d) i =
     (case last_write ops i of
        None \<Rightarrow> d_shapes d i
      | Some (n, _, b, del) \<Rightarrow> if del then None else Some (d_seq d + of_nat n, b))"
proof (induction ops rule: rev_induct)
  case Nil
  then show ?case by (simp add: run_log_def last_write_def)
next
  case (snoc w ops)
  then show ?case
    by (cases w) (simp add: run_log_snoc doc_apply_shapes run_log_seq last_write_snoc add.assoc add.commute)
qed

lemma run_log_ok:
  "doc_ok d \<Longrightarrow> unat (d_seq d) + length ops < 2 ^ 64 \<Longrightarrow> doc_ok (run_log ops d)"
proof (induction ops rule: rev_induct)
  case (snoc w ops)
  then have "doc_ok (run_log ops d)" by simp
  moreover have "d_seq (run_log ops d) \<noteq> - 1"
  proof
    assume "d_seq (run_log ops d) = - 1"
    then have "unat (d_seq d + of_nat (length ops)) = unat (- 1 :: u64)" by (simp add: run_log_seq)
    moreover have "unat (d_seq d + of_nat (length ops)) = unat (d_seq d) + length ops"
      using snoc.prems(2) by (subst unat_add_lem [THEN iffD1]) (simp_all add: unat_of_nat)
    ultimately show False using snoc.prems(2) by simp
  qed
  ultimately show ?case by (cases w) (simp add: run_log_snoc doc_apply_ok)
qed (simp add: run_log_def)

text \<open>The calls of a log made on a broker, one after the other, up to the first error.\<close>

fun apply_log :: "'b Broker \<Rightarrow> bytes \<Rightarrow> (bytes \<times> slice \<times> bool) list \<Rightarrow> 'b \<Rightarrow> 'b option" where
  "apply_log B b [] s = Some s"
| "apply_log B b ((i, sh, del) # ops) s =
     (case br_ApplyShape B s b i sh del of (Inr n, u) \<Rightarrow> apply_log B b ops u | (Inl e, u) \<Rightarrow> None)"

abbreviation log_of :: "(bytes \<times> slice \<times> bool) list \<Rightarrow> shape_write list" where
  "log_of \<equiv> map (\<lambda>(i, sh, del). (i, slice_bytes sh, del))"

section \<open>The contract\<close>

text \<open>
  What the hub relies on, for the calls that return without an error. \<open>inv\<close> is the
  implementation's invariant, \<open>doc\<close> and \<open>roster\<close> read its state as documents and
  presence rosters, one per board. \<open>cap\<close> is the largest sequence number the
  implementation can assign.
\<close>

locale broker_contract =
  fixes B :: "'b Broker"
    and inv :: "'b \<Rightarrow> bool"
    and doc :: "'b \<Rightarrow> bytes \<Rightarrow> doc"
    and roster :: "'b \<Rightarrow> bytes \<Rightarrow> bytes \<rightharpoonup> bytes"
    and cap :: u64
  assumes inv_doc: "inv s \<Longrightarrow> doc_ok (doc s b)"
    and apply_law: "inv s \<Longrightarrow> d_seq (doc s b) < cap \<Longrightarrow> br_ApplyShape B s b i sh del = (Inr n, s') \<Longrightarrow>
      inv s' \<and> n = d_seq (doc s b) + 1 \<and> roster s' = roster s \<and>
      doc s' = (doc s)(b := doc_apply i (slice_bytes sh) del (doc s b))"
    and publish_law: "inv s \<Longrightarrow> br_Publish B s b m = (r, s') \<Longrightarrow> inv s' \<and> doc s' = doc s \<and> roster s' = roster s"
    and snapshot_law: "inv s \<Longrightarrow> br_Snapshot B s b = (Inr snap, s') \<Longrightarrow>
      inv s' \<and> doc s' = doc s \<and> roster s' = roster s \<and> snapshot_of (doc s b) snap"
    and hydrate_law: "inv s \<Longrightarrow> snap_ok snap \<Longrightarrow> br_Hydrate B s b snap = (Inr loaded, s') \<Longrightarrow>
      inv s' \<and> roster s' = roster s \<and>
      (if loaded then \<not> has_state (doc s b) \<and> doc s' = (doc s)(b := doc_of_snapshot snap) else doc s' = doc s)"
    and set_presence_law: "inv s \<Longrightarrow> br_SetPresence B s b c p = (Inr u, s') \<Longrightarrow>
      inv s' \<and> doc s' = doc s \<and> roster s' = (roster s)(b := (roster s b)(c \<mapsto> slice_bytes p))"
    and remove_presence_law: "inv s \<Longrightarrow> br_RemovePresence B s b c = (Inr u, s') \<Longrightarrow>
      inv s' \<and> doc s' = doc s \<and> roster s' = (roster s)(b := (roster s b)(c := None))"
begin

lemma apply_log_doc:
  assumes "apply_log B b ops s = Some t" "inv s" "unat (d_seq (doc s b)) + length ops \<le> unat cap"
  shows "inv t \<and> doc t = (doc s)(b := run_log (log_of ops) (doc s b))"
  using assms
proof (induction ops arbitrary: s)
  case Nil
  then show ?case by (simp add: run_log_def)
next
  case (Cons w ops)
  obtain i sh del where w: "w = (i, sh, del)" by (cases w)
  obtain n u where u: "br_ApplyShape B s b i sh del = (Inr n, u)" "apply_log B b ops u = Some t"
    using Cons.prems(1) w by (auto split: prod.splits sum.splits)
  have lt: "d_seq (doc s b) < cap"
    using Cons.prems(3) by (simp add: word_less_nat_alt)
  note ne = less_u64_ne_max [OF lt]
  have a: "inv u" "doc u = (doc s)(b := doc_apply i (slice_bytes sh) del (doc s b))"
    using apply_law [OF Cons.prems(2) lt u(1)] by auto
  have "unat (d_seq (doc u b)) + length ops \<le> unat cap"
    using Cons.prems(3) ne by (simp add: a(2) unat_Suc_u64)
  from Cons.IH [OF u(2) a(1) this] show ?case
    by (simp add: w a(2) run_log_Cons fun_eq_iff)
qed

text \<open>A snapshot taken after the log shows, for each shape, its last write and nothing else.\<close>

lemma snapshot_last_write_wins:
  assumes "apply_log B b ops s = Some t" "inv s" "doc s b = empty_doc" "length ops \<le> unat cap"
    and "br_Snapshot B t b = (Inr snap, t')"
  shows "snap_Seq snap = of_nat (length ops)" "sorted (map ss_Seq (snap_Shapes snap))"
    "(\<exists>x \<in> set (snap_Shapes snap). ss_ID x = i \<and> ss_Seq x = q \<and> slice_bytes (ss_Shape x) = v) \<longleftrightarrow>
      (\<exists>n. last_write (log_of ops) i = Some (n, i, v, False) \<and> q = of_nat n)"
proof -
  let ?log = "log_of ops"
  have t: "inv t" "doc t b = run_log ?log empty_doc"
    using apply_log_doc [OF assms(1,2)] assms(3,4) by (simp_all add: empty_doc_def)
  have snap: "snapshot_of (run_log ?log empty_doc) snap"
    using snapshot_law [OF t(1) assms(5)] t(2) by simp
  then show "snap_Seq snap = of_nat (length ops)"
    using run_log_seq [of ?log empty_doc]
    by (simp add: snapshot_of_seq) (simp add: empty_doc_def)
  from snap show "sorted (map ss_Seq (snap_Shapes snap))" by (simp add: snapshot_of_def)
  have fst_eq: "fst w = i" if "last_write ?log i = Some (n, w)" for n w
    using that by (auto simp: last_write_def find_Some_iff)
  have "(\<exists>x \<in> set (snap_Shapes snap). ss_ID x = i \<and> ss_Seq x = q \<and> slice_bytes (ss_Shape x) = v) \<longleftrightarrow>
      d_shapes (run_log ?log empty_doc) i = Some (q, v)"
    using snap doc_of_snapshot_iff [of snap i q v] by (auto simp: snapshot_of_def snap_ok_def)
  also have "\<dots> \<longleftrightarrow> (\<exists>n. last_write ?log i = Some (n, i, v, False) \<and> q = of_nat n)"
    using fst_eq by (fastforce simp: run_log_last_write empty_doc_def split: option.splits prod.splits if_splits)
  finally show "(\<exists>x \<in> set (snap_Shapes snap). ss_ID x = i \<and> ss_Seq x = q \<and> slice_bytes (ss_Shape x) = v) \<longleftrightarrow>
      (\<exists>n. last_write ?log i = Some (n, i, v, False) \<and> q = of_nat n)" .
qed

end

end
