(* ===== verification/MemoryBroker.thy ===== *)
theory MemoryBroker
  imports Broker
begin

text \<open>
  The in-process broker of \<^verbatim>\<open>internal/broker/memory.go\<close>. Each method holds the mutex
  from its first line to its last, so it is one step on the broker's state; only
  \<^verbatim>\<open>Publish\<close> sends after it released the mutex, which is its own second part here.
  A subscriber (\<^verbatim>\<open>*memSub\<close>) is a number, its channel a queue of at most 256 messages.
\<close>

section \<open>State\<close>

record memShape =
  ms_seq :: u64
  ms_shape :: slice

record memBoard =
  mb_seq :: u64
  mb_shapes :: "(bytes, memShape) gomap"
  mb_presence :: "(bytes, slice) gomap"
  mb_subs :: "nat list"

record Memory =
  mem_boards :: "(bytes, memBoard) gomap"
  mem_chans :: "(nat, bytes list) gomap"
  mem_next :: nat  \<comment> \<open>the next subscriber to be allocated\<close>

definition NewMemory :: Memory where
  "NewMemory = \<lparr>mem_boards = [], mem_chans = [], mem_next = 0\<rparr>"

definition new_memBoard :: memBoard where
  "new_memBoard = \<lparr>mb_seq = 0, mb_shapes = [], mb_presence = [], mb_subs = []\<rparr>"

section \<open>Operations\<close>

text \<open>\<^verbatim>\<open>board(id)\<close> finds the board's state or creates it.\<close>

definition mem_board :: "Memory \<Rightarrow> bytes \<Rightarrow> memBoard \<times> Memory" where
  "mem_board m bid =
     (case gomap_get (mem_boards m) bid of
        Some b \<Rightarrow> (b, m)
      | None \<Rightarrow> (new_memBoard, m\<lparr>mem_boards := gomap_put bid new_memBoard (mem_boards m)\<rparr>))"

definition put_board :: "bytes \<Rightarrow> memBoard \<Rightarrow> Memory \<Rightarrow> Memory" where
  \<comment> \<open>writing through the pointer \<open>board\<close> returned\<close>
  "put_board bid b m = m\<lparr>mem_boards := gomap_put bid b (mem_boards m)\<rparr>"

definition mem_ApplyShape :: "Memory \<Rightarrow> bytes \<Rightarrow> bytes \<Rightarrow> slice \<Rightarrow> bool \<Rightarrow> u64 go_result \<times> Memory" where
  "mem_ApplyShape m boardID shapeID shape del =
     (let (b, m1) = mem_board m boardID;
          seq = mb_seq b + 1;
          shapes = (if del then gomap_del shapeID (mb_shapes b)
                    else gomap_put shapeID \<lparr>ms_seq = seq, ms_shape = slice_clone shape\<rparr> (mb_shapes b))
      in (Inr seq, put_board boardID (b\<lparr>mb_seq := seq, mb_shapes := shapes\<rparr>) m1))"

definition sub_buffer :: nat where "sub_buffer = 256"

text \<open>One non-blocking send to a subscriber: a full buffer drops the message.\<close>

definition mem_send :: "bytes \<Rightarrow> nat \<Rightarrow> (nat, bytes list) gomap \<Rightarrow> (nat, bytes list) gomap" where
  "mem_send message sub chans =
     (case gomap_get chans sub of
        None \<Rightarrow> chans
      | Some q \<Rightarrow> if length q < sub_buffer then gomap_put sub (q @ [message]) chans else chans)"

definition mem_Publish :: "Memory \<Rightarrow> bytes \<Rightarrow> bytes \<Rightarrow> unit go_result \<times> Memory" where
  "mem_Publish m boardID message =
     (let (b, m1) = mem_board m boardID;
          subs = mb_subs b
      in (Inr (), m1\<lparr>mem_chans := fold (mem_send message) subs (mem_chans m1)\<rparr>))"

definition mem_Subscribe :: "Memory \<Rightarrow> bytes \<Rightarrow> nat go_result \<times> Memory" where
  "mem_Subscribe m boardID =
     (let sub = mem_next m;
          m0 = m\<lparr>mem_chans := gomap_put sub [] (mem_chans m), mem_next := Suc sub\<rparr>;
          (b, m1) = mem_board m0 boardID
      in (Inr sub, put_board boardID (b\<lparr>mb_subs := mb_subs b @ [sub]\<rparr>) m1))"

text \<open>The goroutine \<^verbatim>\<open>Subscribe\<close> starts, once the context is cancelled.\<close>

definition mem_cancel :: "Memory \<Rightarrow> bytes \<Rightarrow> nat \<Rightarrow> Memory" where
  "mem_cancel m boardID sub =
     (case gomap_get (mem_boards m) boardID of
        None \<Rightarrow> m
      | Some b \<Rightarrow> put_board boardID (b\<lparr>mb_subs := removeAll sub (mb_subs b)\<rparr>) m)"

text \<open>Receiving from the channel \<^verbatim>\<open>Subscribe\<close> returned; \<open>None\<close> where it would block.\<close>

definition mem_recv :: "Memory \<Rightarrow> nat \<Rightarrow> bytes option \<times> Memory" where
  "mem_recv m sub =
     (case gomap_get (mem_chans m) sub of
        Some (x # q) \<Rightarrow> (Some x, m\<lparr>mem_chans := gomap_put sub q (mem_chans m)\<rparr>)
      | _ \<Rightarrow> (None, m))"

definition mem_snapshot_shape :: "bytes \<times> memShape \<Rightarrow> SnapshotShape" where
  "mem_snapshot_shape e = \<lparr>ss_Seq = ms_seq (snd e), ss_ID = fst e, ss_Shape = slice_clone (ms_shape (snd e))\<rparr>"

definition mem_Snapshot :: "Memory \<Rightarrow> bytes \<Rightarrow> Snapshot go_result \<times> Memory" where
  "mem_Snapshot m boardID =
     (let (b, m1) = mem_board m boardID;
          shapes = sort_key ss_Seq (map mem_snapshot_shape (mb_shapes b))
      in (Inr \<lparr>snap_Seq = mb_seq b, snap_Shapes = shapes\<rparr>, m1))"

fun mem_load :: "SnapshotShape list \<Rightarrow> (bytes, memShape) gomap \<Rightarrow> (bytes, memShape) gomap" where
  "mem_load [] shapes = shapes"
| "mem_load (s # ss) shapes =
     mem_load ss (gomap_put (ss_ID s) \<lparr>ms_seq = ss_Seq s, ms_shape = slice_clone (ss_Shape s)\<rparr> shapes)"

definition mem_Hydrate :: "Memory \<Rightarrow> bytes \<Rightarrow> Snapshot \<Rightarrow> bool go_result \<times> Memory" where
  "mem_Hydrate m boardID snap =
     (let (b, m1) = mem_board m boardID
      in if mb_seq b \<noteq> 0 \<or> length (mb_shapes b) > 0 then (Inr False, m1)
         else (Inr True, put_board boardID
                 (b\<lparr>mb_seq := snap_Seq snap, mb_shapes := mem_load (snap_Shapes snap) (mb_shapes b)\<rparr>) m1))"

definition mem_SetPresence :: "Memory \<Rightarrow> bytes \<Rightarrow> bytes \<Rightarrow> slice \<Rightarrow> unit go_result \<times> Memory" where
  "mem_SetPresence m boardID clientID presence =
     (let (b, m1) = mem_board m boardID
      in (Inr (), put_board boardID
            (b\<lparr>mb_presence := gomap_put clientID (slice_clone presence) (mb_presence b)\<rparr>) m1))"

definition mem_RemovePresence :: "Memory \<Rightarrow> bytes \<Rightarrow> bytes \<Rightarrow> unit go_result \<times> Memory" where
  "mem_RemovePresence m boardID clientID =
     (let (b, m1) = mem_board m boardID
      in (Inr (), put_board boardID (b\<lparr>mb_presence := gomap_del clientID (mb_presence b)\<rparr>) m1))"

text \<open>Entries that do not decode are skipped.\<close>

definition decode_roster :: "slice list \<Rightarrow> Presence list" where
  "decode_roster raws =
     map snd (filter (\<lambda>(e, p). e = None) (map (\<lambda>raw. unmarshal_Presence (slice_bytes raw)) raws))"

definition mem_Presence :: "Memory \<Rightarrow> bytes \<Rightarrow> Presence list go_result \<times> Memory" where
  "mem_Presence m boardID =
     (let (b, m1) = mem_board m boardID
      in (Inr (sort_key p_ClientID (decode_roster (map snd (mb_presence b)))), m1))"

definition mem_Close :: "Memory \<Rightarrow> unit go_result \<times> Memory" where
  "mem_Close m = (Inr (), m)"

definition memory_broker :: "Memory Broker" where
  "memory_broker =
     \<lparr>br_ApplyShape = mem_ApplyShape, br_Publish = mem_Publish, br_Subscribe = mem_Subscribe,
      br_cancel = mem_cancel, br_recv = mem_recv, br_Snapshot = mem_Snapshot, br_Hydrate = mem_Hydrate,
      br_SetPresence = mem_SetPresence, br_RemovePresence = mem_RemovePresence,
      br_Presence = mem_Presence, br_Close = mem_Close\<rparr>"

section \<open>Invariant and abstraction\<close>

definition memBoard_doc :: "memBoard \<Rightarrow> doc" where
  "memBoard_doc b =
     \<lparr>d_seq = mb_seq b,
      d_shapes = (\<lambda>i. map_option (\<lambda>s. (ms_seq s, slice_bytes (ms_shape s))) (gomap_get (mb_shapes b) i))\<rparr>"

definition memBoard_ok :: "memBoard \<Rightarrow> bool" where
  "memBoard_ok b \<longleftrightarrow> gomap_ok (mb_shapes b) \<and> gomap_ok (mb_presence b) \<and> doc_ok (memBoard_doc b)"

definition Memory_ok :: "Memory \<Rightarrow> bool" where
  "Memory_ok m \<longleftrightarrow> gomap_ok (mem_boards m) \<and> (\<forall>(bid, b) \<in> set (mem_boards m). memBoard_ok b)"

definition the_board :: "Memory \<Rightarrow> bytes \<Rightarrow> memBoard" where
  "the_board m bid = fst (mem_board m bid)"

definition mem_doc :: "Memory \<Rightarrow> bytes \<Rightarrow> doc" where
  "mem_doc m bid = memBoard_doc (the_board m bid)"

definition mem_roster :: "Memory \<Rightarrow> bytes \<Rightarrow> bytes \<rightharpoonup> bytes" where
  "mem_roster m bid c = map_option slice_bytes (gomap_get (mb_presence (the_board m bid)) c)"

lemma memBoard_doc_new [simp]: "memBoard_doc new_memBoard = empty_doc"
  by (simp add: memBoard_doc_def new_memBoard_def empty_doc_def)

lemma new_memBoard_ok [simp]: "memBoard_ok new_memBoard"
  by (simp add: memBoard_ok_def) (simp add: new_memBoard_def)

lemma NewMemory_ok [simp]: "Memory_ok NewMemory"
  by (simp add: Memory_ok_def NewMemory_def)

lemma the_board_get:
  "the_board m bid = (case gomap_get (mem_boards m) bid of Some b \<Rightarrow> b | None \<Rightarrow> new_memBoard)"
  by (simp add: the_board_def mem_board_def split: option.splits)

lemma the_board_ok: "Memory_ok m \<Longrightarrow> memBoard_ok (the_board m bid)"
  by (auto simp: the_board_get Memory_ok_def gomap_get_iff split: option.splits)

text \<open>Fetching a board may create it, which no reader can tell.\<close>

lemma mem_board_cases:
  assumes "Memory_ok m"
  obtains m1 where "mem_board m bid = (the_board m bid, m1)" "Memory_ok m1"
    "the_board m1 = the_board m" "mem_chans m1 = mem_chans m" "mem_next m1 = mem_next m"
proof (cases "gomap_get (mem_boards m) bid")
  case None
  have "the_board (m\<lparr>mem_boards := gomap_put bid new_memBoard (mem_boards m)\<rparr>) = the_board m"
    using None by (auto simp: the_board_get fun_eq_iff)
  moreover have "Memory_ok (m\<lparr>mem_boards := gomap_put bid new_memBoard (mem_boards m)\<rparr>)"
    using assms by (auto simp: Memory_ok_def gomap_entry_put split: if_splits)
  ultimately show thesis
    using None
    by (intro that [of "m\<lparr>mem_boards := gomap_put bid new_memBoard (mem_boards m)\<rparr>"])
      (auto simp: mem_board_def the_board_get)
next
  case (Some b)
  then show thesis using assms by (intro that [of m]) (auto simp: mem_board_def the_board_get)
qed

lemma the_board_put [simp]: "the_board (put_board bid b m) = (the_board m)(bid := b)"
  by (auto simp: the_board_get put_board_def fun_eq_iff)

lemma put_board_ok [keeps_inv]: "Memory_ok m \<Longrightarrow> memBoard_ok b \<Longrightarrow> Memory_ok (put_board bid b m)"
  by (auto simp: Memory_ok_def put_board_def gomap_entry_put split: if_splits)

lemma mem_doc_put: "mem_doc (put_board bid b m) = (mem_doc m)(bid := memBoard_doc b)"
  by (auto simp: mem_doc_def fun_eq_iff)

lemma mem_roster_put:
  "mem_roster (put_board bid b m) = (mem_roster m)(bid := (\<lambda>c. map_option slice_bytes (gomap_get (mb_presence b) c)))"
  by (auto simp: mem_roster_def fun_eq_iff)

section \<open>The broker keeps the contract\<close>

lemma mem_ApplyShape_law:
  assumes "Memory_ok m" "mb_seq (the_board m b) \<noteq> - 1" "mem_ApplyShape m b i sh del = (r, m')"
  shows "r = Inr (d_seq (mem_doc m b) + 1)" "Memory_ok m'" "mem_roster m' = mem_roster m"
    "mem_doc m' = (mem_doc m)(b := doc_apply i (slice_bytes sh) del (mem_doc m b))"
proof -
  obtain m1 where m1: "mem_board m b = (the_board m b, m1)" "Memory_ok m1" "the_board m1 = the_board m"
    using mem_board_cases [OF assms(1)] by metis
  define b' where "b' = (the_board m b)\<lparr>mb_seq := mb_seq (the_board m b) + 1,
    mb_shapes := (if del then gomap_del i (mb_shapes (the_board m b))
      else gomap_put i \<lparr>ms_seq = mb_seq (the_board m b) + 1, ms_shape = slice_clone sh\<rparr> (mb_shapes (the_board m b)))\<rparr>"
  have r: "r = Inr (mb_seq (the_board m b) + 1)" "m' = put_board b b' m1"
    using assms(3) by (simp_all add: mem_ApplyShape_def m1(1) b'_def Let_def)
  have d: "memBoard_doc b' = doc_apply i (slice_bytes sh) del (memBoard_doc (the_board m b))"
    by (auto simp: memBoard_doc_def doc_apply_def b'_def fun_eq_iff)
  moreover have "memBoard_ok (the_board m b)" using assms(1) by (rule the_board_ok)
  ultimately have "memBoard_ok b'"
    using assms(2) doc_apply_ok [of "memBoard_doc (the_board m b)" i "slice_bytes sh" del]
    by (simp add: memBoard_ok_def) (simp add: b'_def memBoard_doc_def)
  with r(2) m1 show "Memory_ok m'" by (simp add: put_board_ok)
  show "r = Inr (d_seq (mem_doc m b) + 1)"
    using r(1) by (simp add: mem_doc_def memBoard_doc_def)
  show "mem_roster m' = mem_roster m"
    using r(2) m1 by (simp add: mem_roster_put) (simp add: mem_roster_def b'_def fun_eq_iff)
  show "mem_doc m' = (mem_doc m)(b := doc_apply i (slice_bytes sh) del (mem_doc m b))"
    using r(2) m1 d by (simp add: mem_doc_put) (simp add: mem_doc_def fun_eq_iff)
qed

lemma same_boards:
  "the_board m' = the_board m \<Longrightarrow> mem_doc m' = mem_doc m \<and> mem_roster m' = mem_roster m"
  by (simp add: mem_doc_def mem_roster_def fun_eq_iff)

lemma the_board_chans [simp]:
  "the_board (m\<lparr>mem_chans := c\<rparr>) = the_board m" "Memory_ok (m\<lparr>mem_chans := c\<rparr>) = Memory_ok m"
  by (simp_all add: the_board_get Memory_ok_def fun_eq_iff)

lemma mem_Publish_law:
  assumes "Memory_ok m" "mem_Publish m b x = (r, m')"
  shows "r = Inr ()" "Memory_ok m'" "the_board m' = the_board m"
    "mem_chans m' = fold (mem_send x) (mb_subs (the_board m b)) (mem_chans m)"
proof -
  obtain m1 where "mem_board m b = (the_board m b, m1)" "Memory_ok m1" "the_board m1 = the_board m"
    "mem_chans m1 = mem_chans m"
    using mem_board_cases [OF assms(1)] by metis
  then show "r = Inr ()" "Memory_ok m'" "the_board m' = the_board m"
    "mem_chans m' = fold (mem_send x) (mb_subs (the_board m b)) (mem_chans m)"
    using assms(2) by (auto simp: mem_Publish_def)
qed

lemma map_snapshot_shape:
  "map ss_ID (map mem_snapshot_shape xs) = map fst xs"
  "map ss_Seq (map mem_snapshot_shape xs) = map (ms_seq \<circ> snd) xs"
  "map shape_entry (map mem_snapshot_shape xs) = map (\<lambda>(i, s). (i, ms_seq s, slice_bytes (ms_shape s))) xs"
  by (auto simp: mem_snapshot_shape_def shape_entry_def)

lemma snapshot_of_board:
  assumes "memBoard_ok b"
  shows "snapshot_of (memBoard_doc b)
    \<lparr>snap_Seq = mb_seq b, snap_Shapes = sort_key ss_Seq (map mem_snapshot_shape (mb_shapes b))\<rparr>"
proof -
  have g: "gomap_ok (mb_shapes b)" and d: "doc_ok (memBoard_doc b)"
    using assms by (simp_all add: memBoard_ok_def)
  have "gomap_ok (map shape_entry (map mem_snapshot_shape (mb_shapes b)))"
    using g by (simp only: gomap_ok_def shape_entry_fst map_snapshot_shape(1))
  moreover have "gomap_get (map shape_entry (map mem_snapshot_shape (mb_shapes b))) = d_shapes (memBoard_doc b)"
    by (simp only: map_snapshot_shape map_of_map) (simp add: memBoard_doc_def comp_def)
  ultimately show ?thesis
    using snapshot_of_sorted [OF _ _ d] by (simp add: memBoard_doc_def)
qed

lemma mem_Snapshot_law:
  assumes "Memory_ok m" "mem_Snapshot m b = (r, m')"
  shows "Memory_ok m'" "the_board m' = the_board m" "\<exists>snap. r = Inr snap \<and> snapshot_of (mem_doc m b) snap"
proof -
  obtain m1 where "mem_board m b = (the_board m b, m1)" "Memory_ok m1" "the_board m1 = the_board m"
    using mem_board_cases [OF assms(1)] by metis
  then show "Memory_ok m'" "the_board m' = the_board m" "\<exists>snap. r = Inr snap \<and> snapshot_of (mem_doc m b) snap"
    using assms(2) snapshot_of_board [OF the_board_ok [OF assms(1)]]
    by (auto simp: mem_Snapshot_def mem_doc_def)
qed

lemma mem_load_ok: "gomap_ok shapes \<Longrightarrow> gomap_ok (mem_load ss shapes)"
  by (induction ss arbitrary: shapes) auto

lemma mem_load_get:
  "map_option (\<lambda>s. (ms_seq s, slice_bytes (ms_shape s))) (gomap_get (mem_load ss shapes) i) =
     (case map_of (rev (map shape_entry ss)) i of
        None \<Rightarrow> map_option (\<lambda>s. (ms_seq s, slice_bytes (ms_shape s))) (gomap_get shapes i)
      | Some x \<Rightarrow> Some x)"
  by (induction ss arbitrary: shapes)
    (auto simp: shape_entry_def map_add_def split: option.splits)

lemma mem_Hydrate_law:
  assumes "Memory_ok m" "snap_ok snap" "mem_Hydrate m b snap = (r, m')"
  shows "r = Inr (\<not> has_state (mem_doc m b))" "Memory_ok m'" "mem_roster m' = mem_roster m"
    "mem_doc m' = (if has_state (mem_doc m b) then mem_doc m else (mem_doc m)(b := doc_of_snapshot snap))"
proof -
  let ?b = "the_board m b"
  let ?b' = "?b\<lparr>mb_seq := snap_Seq snap, mb_shapes := mem_load (snap_Shapes snap) (mb_shapes ?b)\<rparr>"
  obtain m1 where m1: "mem_board m b = (?b, m1)" "Memory_ok m1" "the_board m1 = the_board m"
    using mem_board_cases [OF assms(1)] by metis
  have hs: "has_state (mem_doc m b) \<longleftrightarrow> mb_seq ?b \<noteq> 0 \<or> length (mb_shapes ?b) > 0"
    by (cases "mb_shapes ?b") (auto simp: has_state_def mem_doc_def memBoard_doc_def fun_eq_iff)
  have new: "memBoard_doc ?b' = doc_of_snapshot snap" "memBoard_ok ?b'" if "\<not> has_state (mem_doc m b)"
  proof -
    have e: "mb_shapes ?b = []" using that hs by simp
    then show d: "memBoard_doc ?b' = doc_of_snapshot snap"
      by (simp add: memBoard_doc_def doc_of_snapshot_def mem_load_get fun_eq_iff split: option.splits)
    show "memBoard_ok ?b'"
      using d doc_of_snapshot_ok [OF assms(2)] the_board_ok [OF assms(1), of b]
      by (simp add: memBoard_ok_def e mem_load_ok)
  qed
  have r: "(r, m') = (if has_state (mem_doc m b) then (Inr False, m1) else (Inr True, put_board b ?b' m1))"
    using assms(3) hs by (auto simp: mem_Hydrate_def m1(1))
  show "r = Inr (\<not> has_state (mem_doc m b))" using r by (auto split: if_splits)
  show "Memory_ok m'" using r m1(2) new(2) by (auto simp: put_board_ok split: if_splits)
  show "mem_roster m' = mem_roster m"
    using r same_boards [OF m1(3)] by (auto simp: mem_roster_put mem_roster_def fun_eq_iff split: if_splits)
  show "mem_doc m' = (if has_state (mem_doc m b) then mem_doc m else (mem_doc m)(b := doc_of_snapshot snap))"
    using r same_boards [OF m1(3)] new(1) by (auto simp: mem_doc_put split: if_splits)
qed

lemma mem_SetPresence_law:
  assumes "Memory_ok m" "mem_SetPresence m b c p = (r, m')"
  shows "r = Inr ()" "Memory_ok m'" "mem_doc m' = mem_doc m"
    "mem_roster m' = (mem_roster m)(b := (mem_roster m b)(c \<mapsto> slice_bytes p))"
proof -
  let ?b = "the_board m b"
  let ?b' = "?b\<lparr>mb_presence := gomap_put c (slice_clone p) (mb_presence ?b)\<rparr>"
  obtain m1 where m1: "mem_board m b = (?b, m1)" "Memory_ok m1" "the_board m1 = the_board m"
    using mem_board_cases [OF assms(1)] by metis
  have r: "r = Inr ()" "m' = put_board b ?b' m1"
    using assms(2) by (simp_all add: mem_SetPresence_def m1(1))
  have d: "memBoard_doc ?b' = memBoard_doc ?b" by (simp add: memBoard_doc_def)
  then have "memBoard_ok ?b'" using the_board_ok [OF assms(1), of b] by (simp add: memBoard_ok_def)
  with r m1 show "r = Inr ()" "Memory_ok m'" by (simp_all add: put_board_ok)
  show "mem_doc m' = mem_doc m"
    using same_boards [OF m1(3)] by (simp add: r(2) mem_doc_put d) (simp add: mem_doc_def fun_eq_iff)
  show "mem_roster m' = (mem_roster m)(b := (mem_roster m b)(c \<mapsto> slice_bytes p))"
    using same_boards [OF m1(3)] by (simp add: r(2) mem_roster_put) (simp add: mem_roster_def fun_eq_iff)
qed

lemma mem_RemovePresence_law:
  assumes "Memory_ok m" "mem_RemovePresence m b c = (r, m')"
  shows "r = Inr ()" "Memory_ok m'" "mem_doc m' = mem_doc m"
    "mem_roster m' = (mem_roster m)(b := (mem_roster m b)(c := None))"
proof -
  let ?b = "the_board m b"
  let ?b' = "?b\<lparr>mb_presence := gomap_del c (mb_presence ?b)\<rparr>"
  obtain m1 where m1: "mem_board m b = (?b, m1)" "Memory_ok m1" "the_board m1 = the_board m"
    using mem_board_cases [OF assms(1)] by metis
  have r: "r = Inr ()" "m' = put_board b ?b' m1"
    using assms(2) by (simp_all add: mem_RemovePresence_def m1(1))
  have d: "memBoard_doc ?b' = memBoard_doc ?b" by (simp add: memBoard_doc_def)
  then have "memBoard_ok ?b'" using the_board_ok [OF assms(1), of b] by (simp add: memBoard_ok_def)
  with r m1 show "r = Inr ()" "Memory_ok m'" by (simp_all add: put_board_ok)
  show "mem_doc m' = mem_doc m"
    using same_boards [OF m1(3)] by (simp add: r(2) mem_doc_put d) (simp add: mem_doc_def fun_eq_iff)
  show "mem_roster m' = (mem_roster m)(b := (mem_roster m b)(c := None))"
    using same_boards [OF m1(3)] by (simp add: r(2) mem_roster_put) (simp add: mem_roster_def fun_eq_iff)
qed

interpretation mem: broker_contract memory_broker Memory_ok mem_doc mem_roster "- 1"
proof unfold_locales
  fix s b
  assume "Memory_ok s"
  then show "doc_ok (mem_doc s b)"
    using the_board_ok by (simp add: mem_doc_def memBoard_ok_def)
next
  fix s b i sh del n s'
  assume a: "Memory_ok s" "d_seq (mem_doc s b) < - 1" "br_ApplyShape memory_broker s b i sh del = (Inr n, s')"
  have "mb_seq (the_board s b) \<noteq> - 1" using a(2) by (auto simp: mem_doc_def memBoard_doc_def)
  from mem_ApplyShape_law [OF a(1) this, of i sh del "Inr n" s'] a(3)
  show "Memory_ok s' \<and> n = d_seq (mem_doc s b) + 1 \<and> mem_roster s' = mem_roster s \<and>
      mem_doc s' = (mem_doc s)(b := doc_apply i (slice_bytes sh) del (mem_doc s b))"
    by (simp add: memory_broker_def)
next
  fix s b m r s'
  assume "Memory_ok s" "br_Publish memory_broker s b m = (r, s')"
  then show "Memory_ok s' \<and> mem_doc s' = mem_doc s \<and> mem_roster s' = mem_roster s"
    using mem_Publish_law [of s b m r s'] same_boards [of s' s] by (simp add: memory_broker_def)
next
  fix s b snap s'
  assume "Memory_ok s" "br_Snapshot memory_broker s b = (Inr snap, s')"
  then show "Memory_ok s' \<and> mem_doc s' = mem_doc s \<and> mem_roster s' = mem_roster s \<and> snapshot_of (mem_doc s b) snap"
    using mem_Snapshot_law [of s b "Inr snap" s'] same_boards [of s' s] by (simp add: memory_broker_def)
next
  fix s snap b loaded s'
  assume "Memory_ok s" "snap_ok snap" "br_Hydrate memory_broker s b snap = (Inr loaded, s')"
  then show "Memory_ok s' \<and> mem_roster s' = mem_roster s \<and>
      (if loaded then \<not> has_state (mem_doc s b) \<and> mem_doc s' = (mem_doc s)(b := doc_of_snapshot snap)
       else mem_doc s' = mem_doc s)"
    using mem_Hydrate_law [of s snap b "Inr loaded" s'] by (simp add: memory_broker_def)
qed (auto simp: memory_broker_def dest: mem_SetPresence_law mem_RemovePresence_law)

section \<open>Fan-out to subscribers\<close>

text \<open>What a message does to one queue.\<close>

definition offer :: "bytes \<Rightarrow> bytes list \<Rightarrow> bytes list" where
  "offer x q = (if length q < sub_buffer then q @ [x] else q)"

lemma mem_send_get:
  "gomap_get (mem_send x sub chans) c = (if c = sub then map_option (offer x) (gomap_get chans c) else gomap_get chans c)"
  by (auto simp: mem_send_def offer_def split: option.splits)

lemma mem_send_fold:
  "distinct subs \<Longrightarrow>
    gomap_get (fold (mem_send x) subs chans) c =
      (if c \<in> set subs then map_option (offer x) (gomap_get chans c) else gomap_get chans c)"
  by (induction subs arbitrary: chans) (auto simp: mem_send_get)

text \<open>
  Subscribers are registered on one board each, once, and their channels exist and
  hold no more than the buffer allows.
\<close>

abbreviation subs_of :: "Memory \<Rightarrow> bytes \<Rightarrow> nat list" where
  "subs_of m b \<equiv> mb_subs (the_board m b)"

definition subs_ok :: "(bytes \<Rightarrow> nat list) \<Rightarrow> (nat \<Rightarrow> bytes list option) \<Rightarrow> nat \<Rightarrow> bool" where
  "subs_ok subs chan n \<longleftrightarrow>
     (\<forall>b. distinct (subs b) \<and> (\<forall>c \<in> set (subs b). chan c \<noteq> None)) \<and>
     (\<forall>b b' c. c \<in> set (subs b) \<longrightarrow> c \<in> set (subs b') \<longrightarrow> b = b') \<and>
     (\<forall>c q. chan c = Some q \<longrightarrow> c < n \<and> length q \<le> sub_buffer)"

definition Subs_ok :: "Memory \<Rightarrow> bool" where
  "Subs_ok m \<longleftrightarrow> subs_ok (subs_of m) (gomap_get (mem_chans m)) (mem_next m)"

definition same_bus :: "Memory \<Rightarrow> Memory \<Rightarrow> bool" where
  "same_bus m m' \<longleftrightarrow> subs_of m' = subs_of m \<and> mem_chans m' = mem_chans m \<and> mem_next m' = mem_next m"

lemma Subs_ok_same_bus: "same_bus m m' \<Longrightarrow> Subs_ok m \<Longrightarrow> Subs_ok m'"
  by (simp add: Subs_ok_def same_bus_def)

lemma put_board_frame [simp]:
  "mem_chans (put_board b x m) = mem_chans m" "mem_next (put_board b x m) = mem_next m"
  by (simp_all add: put_board_def)

text \<open>Every method but the three of the message bus leaves subscribers and channels alone.\<close>

lemma mem_same_bus:
  assumes "Memory_ok m"
  shows "same_bus m (snd (mem_ApplyShape m b i sh del))" "same_bus m (snd (mem_Snapshot m b))"
    "same_bus m (snd (mem_Hydrate m b snap))" "same_bus m (snd (mem_SetPresence m b c p))"
    "same_bus m (snd (mem_RemovePresence m b c))" "same_bus m (snd (mem_Presence m b))"
proof -
  obtain m1 where m1: "mem_board m b = (the_board m b, m1)" "Memory_ok m1" "the_board m1 = the_board m"
    "mem_chans m1 = mem_chans m" "mem_next m1 = mem_next m"
    using mem_board_cases [OF assms(1)] by metis
  then show "same_bus m (snd (mem_ApplyShape m b i sh del))" "same_bus m (snd (mem_Snapshot m b))"
    "same_bus m (snd (mem_Hydrate m b snap))" "same_bus m (snd (mem_SetPresence m b c p))"
    "same_bus m (snd (mem_RemovePresence m b c))" "same_bus m (snd (mem_Presence m b))"
    by (simp_all add: same_bus_def mem_ApplyShape_def mem_Snapshot_def mem_Hydrate_def mem_SetPresence_def
        mem_RemovePresence_def mem_Presence_def Let_def fun_eq_iff)
qed

lemmas bus_kept = mem_same_bus [THEN Subs_ok_same_bus]

lemma mem_Publish_Subs [keeps_inv]:
  assumes "Memory_ok m" "Subs_ok m" "mem_Publish m b x = (r, m')"
  shows "Subs_ok m'"
    "gomap_get (mem_chans m') c =
      (if c \<in> set (subs_of m b) then map_option (offer x) (gomap_get (mem_chans m) c) else gomap_get (mem_chans m) c)"
proof -
  obtain m1 where m1: "mem_board m b = (the_board m b, m1)" "the_board m1 = the_board m"
    "mem_chans m1 = mem_chans m" "mem_next m1 = mem_next m"
    using mem_board_cases [OF assms(1)] by metis
  have d: "distinct (subs_of m b)" using assms(2) by (simp add: Subs_ok_def subs_ok_def)
  have m': "m' = m1\<lparr>mem_chans := fold (mem_send x) (subs_of m b) (mem_chans m)\<rparr>"
    using assms(3) m1 by (simp add: mem_Publish_def)
  show get: "gomap_get (mem_chans m') c =
      (if c \<in> set (subs_of m b) then map_option (offer x) (gomap_get (mem_chans m) c) else gomap_get (mem_chans m) c)" for c
    by (simp add: m' mem_send_fold [OF d])
  show "Subs_ok m'"
    using assms(2) m1 unfolding Subs_ok_def subs_ok_def get
    by (auto simp: m' offer_def split: if_splits)
qed

lemma mem_Subscribe_Subs [keeps_inv]:
  assumes "Memory_ok m" "Subs_ok m" "mem_Subscribe m b = (r, m')"
  shows "r = Inr (mem_next m)" "Memory_ok m'" "Subs_ok m'" "mem_doc m' = mem_doc m" "mem_roster m' = mem_roster m"
    "subs_of m' b = subs_of m b @ [mem_next m]"
proof -
  let ?m0 = "m\<lparr>mem_chans := gomap_put (mem_next m) [] (mem_chans m), mem_next := Suc (mem_next m)\<rparr>"
  have ok0: "Memory_ok ?m0" using assms(1) by (simp add: Memory_ok_def)
  have b0: "the_board ?m0 = the_board m" by (simp add: the_board_get fun_eq_iff)
  obtain m1 where m1: "mem_board ?m0 b = (the_board m b, m1)" "Memory_ok m1" "the_board m1 = the_board m"
    "mem_chans m1 = mem_chans ?m0" "mem_next m1 = mem_next ?m0"
    using mem_board_cases [OF ok0, of b] b0 by metis
  let ?b' = "(the_board m b)\<lparr>mb_subs := mb_subs (the_board m b) @ [mem_next m]\<rparr>"
  have m': "r = Inr (mem_next m)" "m' = put_board b ?b' m1"
    using assms(3) m1(1) by (simp_all add: mem_Subscribe_def Let_def)
  have d: "memBoard_doc ?b' = memBoard_doc (the_board m b)" by (simp add: memBoard_doc_def)
  then have "memBoard_ok ?b'" using the_board_ok [OF assms(1), of b] by (simp add: memBoard_ok_def)
  with m' m1 show "r = Inr (mem_next m)" "Memory_ok m'" by (simp_all add: put_board_ok)
  have new: "mem_next m \<notin> set (subs_of m b')" for b'
    using assms(2) unfolding Subs_ok_def subs_ok_def by fastforce
  have subs: "subs_of m' = (subs_of m)(b := subs_of m b @ [mem_next m])"
    by (simp add: m' m1 fun_eq_iff)
  from fun_cong [OF this, of b] show "subs_of m' b = subs_of m b @ [mem_next m]" by simp
  have n: "mem_next m' = Suc (mem_next m)" by (simp add: m' m1)
  have ch: "gomap_get (mem_chans m') = (gomap_get (mem_chans m))(mem_next m \<mapsto> [])" by (simp add: m' m1)
  show "Subs_ok m'"
    using assms(2) new unfolding Subs_ok_def subs ch n subs_ok_def
    by (auto simp: sub_buffer_def split: if_splits intro: less_SucI)
  show "mem_doc m' = mem_doc m" "mem_roster m' = mem_roster m"
    using m1(3) d by (simp_all add: m' mem_doc_put mem_roster_put)
      (simp_all add: mem_doc_def mem_roster_def fun_eq_iff)
qed

lemma mem_cancel_Subs [keeps_inv]:
  assumes "Memory_ok m" "Subs_ok m"
  shows "Memory_ok (mem_cancel m b c)" "Subs_ok (mem_cancel m b c)"
proof -
  let ?b' = "(the_board m b)\<lparr>mb_subs := removeAll c (mb_subs (the_board m b))\<rparr>"
  have d: "memBoard_doc ?b' = memBoard_doc (the_board m b)" by (simp add: memBoard_doc_def)
  then have ok: "memBoard_ok ?b'" using the_board_ok [OF assms(1), of b] by (simp add: memBoard_ok_def)
  have eq: "mem_cancel m b c = m \<or> mem_cancel m b c = put_board b ?b' m"
    by (auto simp: mem_cancel_def the_board_get split: option.splits)
  then show "Memory_ok (mem_cancel m b c)" using assms(1) ok by (auto simp: put_board_ok)
  have "Subs_ok (put_board b ?b' m)"
    using assms(2) unfolding Subs_ok_def subs_ok_def by (auto simp: distinct_removeAll split: if_splits)
  then show "Subs_ok (mem_cancel m b c)" using eq assms(2) by auto
qed

lemma mem_recv_Subs [keeps_inv]:
  assumes "Memory_ok m" "Subs_ok m"
  shows "Memory_ok (snd (mem_recv m c))" "Subs_ok (snd (mem_recv m c))"
proof -
  show "Memory_ok (snd (mem_recv m c))"
    using assms(1) by (auto simp: mem_recv_def split: option.splits list.splits)
  show "Subs_ok (snd (mem_recv m c))"
    using assms(2) unfolding Subs_ok_def subs_ok_def mem_recv_def
    by (fastforce split: option.splits list.splits if_splits)
qed

section \<open>Reachable states\<close>

text \<open>
  The states any sequence of calls leads to. A call of \<^verbatim>\<open>ApplyShape\<close> is taken while the
  board's counter is below the largest \<^verbatim>\<open>uint64\<close>, a call of \<^verbatim>\<open>Hydrate\<close> with a snapshot
  some broker has produced.
\<close>

inductive mem_reach :: "Memory \<Rightarrow> bool" where
  new: "mem_reach NewMemory"
| apply_shape: "mem_reach m \<Longrightarrow> mb_seq (the_board m b) \<noteq> - 1 \<Longrightarrow> mem_reach (snd (mem_ApplyShape m b i sh del))"
| publish: "mem_reach m \<Longrightarrow> mem_reach (snd (mem_Publish m b x))"
| subscribe: "mem_reach m \<Longrightarrow> mem_reach (snd (mem_Subscribe m b))"
| cancel: "mem_reach m \<Longrightarrow> mem_reach (mem_cancel m b c)"
| recv: "mem_reach m \<Longrightarrow> mem_reach (snd (mem_recv m c))"
| snapshot: "mem_reach m \<Longrightarrow> mem_reach (snd (mem_Snapshot m b))"
| hydrate: "mem_reach m \<Longrightarrow> snap_ok snap \<Longrightarrow> mem_reach (snd (mem_Hydrate m b snap))"
| set_presence: "mem_reach m \<Longrightarrow> mem_reach (snd (mem_SetPresence m b i p))"
| remove_presence: "mem_reach m \<Longrightarrow> mem_reach (snd (mem_RemovePresence m b i))"
| presence: "mem_reach m \<Longrightarrow> mem_reach (snd (mem_Presence m b))"

lemma mem_Presence_ok: "Memory_ok m \<Longrightarrow> Memory_ok (snd (mem_Presence m b))"
  by (rule mem_board_cases [of m b]) (auto simp: mem_Presence_def)

lemma NewMemory_Subs_ok: "Subs_ok NewMemory"
  by (simp add: Subs_ok_def subs_ok_def the_board_get NewMemory_def new_memBoard_def)

lemma mem_reach_ok: "mem_reach m \<Longrightarrow> Memory_ok m \<and> Subs_ok m"
proof (induction rule: mem_reach.induct)
  case new
  show ?case by (simp add: NewMemory_Subs_ok)
next
  case (apply_shape m b i sh del)
  then show ?case
    using mem_ApplyShape_law(2) [OF _ apply_shape(2) surjective_pairing] by (simp add: bus_kept)
next
  case (publish m b x)
  then show ?case using mem_Publish_law(2) mem_Publish_Subs(1) surjective_pairing by metis
next
  case (subscribe m b)
  then show ?case using mem_Subscribe_Subs(2,3) surjective_pairing by metis
next
  case (cancel m b c)
  then show ?case by (simp add: mem_cancel_Subs)
next
  case (recv m c)
  then show ?case by (simp add: mem_recv_Subs)
next
  case (snapshot m b)
  then show ?case
    using mem_Snapshot_law(1) [OF _ surjective_pairing] by (simp add: bus_kept)
next
  case (hydrate m snap b)
  then show ?case
    using mem_Hydrate_law(2) [OF _ hydrate(2) surjective_pairing] by (simp add: bus_kept)
next
  case (set_presence m b i p)
  then show ?case
    using mem_SetPresence_law(2) [OF _ surjective_pairing] by (simp add: bus_kept)
next
  case (remove_presence m b i)
  then show ?case
    using mem_RemovePresence_law(2) [OF _ surjective_pairing] by (simp add: bus_kept)
next
  case (presence m b)
  then show ?case
    using mem_Presence_ok by (simp add: bus_kept)
qed

lemma mem_apply_log_total: "\<exists>m'. apply_log memory_broker b ops m = Some m'"
proof (induction ops arbitrary: m)
  case (Cons w ops)
  obtain i sh del where w: "w = (i, sh, del)" by (cases w)
  obtain n u where "mem_ApplyShape m b i sh del = (Inr n, u)"
    by (cases "mem_board m b") (simp add: mem_ApplyShape_def Let_def)
  with Cons.IH [of u] w show ?case by (simp add: memory_broker_def)
qed simp

section \<open>Properties\<close>

text \<open>(C7)
  Last write wins: after a sequence of \<^verbatim>\<open>ApplyShape\<close> calls on an empty board, a snapshot carries
  the number of calls as its sequence number, lists its shapes by increasing sequence number,
  and holds a shape exactly if the last call on its id was no deletion, with that call's blob
  and that call's position as its sequence number.
\<close>

theorem memory_last_write_wins:
  assumes "apply_log memory_broker b ops m = Some m1" "Memory_ok m" "mem_doc m b = empty_doc" "length ops < 2 ^ 64"
    "mem_Snapshot m1 b = (Inr snap, m2)"
  shows "snap_Seq snap = of_nat (length ops) \<and> sorted (map ss_Seq (snap_Shapes snap)) \<and>
    (\<forall>i q v. (\<exists>x \<in> set (snap_Shapes snap). ss_ID x = i \<and> ss_Seq x = q \<and> slice_bytes (ss_Shape x) = v) \<longleftrightarrow>
      (\<exists>n. last_write (log_of ops) i = Some (n, i, v, False) \<and> q = of_nat n))"
proof -
  have "br_Snapshot memory_broker m1 b = (Inr snap, m2)" "length ops \<le> unat (- 1 :: u64)"
    using assms(4,5) by (simp_all add: memory_broker_def)
  from mem.snapshot_last_write_wins [OF assms(1-3) this(2,1)] show ?thesis by blast
qed

theorem memory_last_write_wins_witness:
  "\<exists>m1 m2 snap. apply_log memory_broker ''x''
      [(''a'', Some ''1'', False), (''b'', Some ''2'', False), (''a'', Some ''3'', False), (''b'', None, True)] NewMemory = Some m1 \<and>
    mem_Snapshot m1 ''x'' = (Inr snap, m2) \<and> snap_Seq snap = 4 \<and>
    (\<exists>x \<in> set (snap_Shapes snap). ss_ID x = ''a'' \<and> ss_Seq x = 3 \<and> slice_bytes (ss_Shape x) = ''3'')"
proof -
  let ?ops = "[(''a'', Some ''1'', False), (''b'', Some ''2'', False), (''a'', Some ''3'', False), (''b'', None, True)]"
  obtain m1 where m1: "apply_log memory_broker ''x'' ?ops NewMemory = Some m1"
    using mem_apply_log_total by blast
  obtain snap m2 where s: "mem_Snapshot m1 ''x'' = (Inr snap, m2)"
    by (cases "mem_board m1 ''x''") (simp add: mem_Snapshot_def)
  have d: "mem_doc NewMemory ''x'' = empty_doc" by (simp add: mem_doc_def the_board_get NewMemory_def)
  have l: "last_write (log_of ?ops) ''a'' = Some (3, ''a'', ''3'', False)" by (simp add: last_write_def)
  have "length ?ops < 2 ^ 64" by simp
  from memory_last_write_wins [OF m1 NewMemory_ok d this s]
  have "snap_Seq snap = 4"
    "\<exists>x \<in> set (snap_Shapes snap). ss_ID x = ''a'' \<and> ss_Seq x = of_nat 3 \<and> slice_bytes (ss_Shape x) = ''3''"
    using l by (simp, blast)
  then show ?thesis using m1 s by auto
qed

text \<open>
  The broker's invariant holds in every state its methods can lead to: on every board the
  stamps of the shapes are distinct and none is ahead of the counter, and every subscriber
  belongs to one board, once, with a channel of at most 256 messages.
\<close>

lemma memory_reachable_ok:
  assumes "mem_reach m"
  shows "Memory_ok m \<and> Subs_ok m \<and> doc_ok (mem_doc m b)"
proof -
  have "Memory_ok m \<and> Subs_ok m" using assms by (rule mem_reach_ok)
  moreover from this have "doc_ok (mem_doc m b)" using mem.inv_doc by blast
  ultimately show ?thesis by blast
qed

text \<open>
  A snapshot does not depend on the order in which Go visits its maps: two broker states that
  hold the same document of a board give the same snapshot, nil and empty blobs included.
\<close>

lemma memory_snapshot_deterministic:
  assumes "Memory_ok m" "Memory_ok m'" "mem_doc m b = mem_doc m' b"
  shows "fst (mem_Snapshot m b) = fst (mem_Snapshot m' b)"
proof -
  obtain s t where s: "mem_Snapshot m b = (Inr s, t)" "snapshot_of (mem_doc m b) s"
    using mem_Snapshot_law(3) [OF assms(1) surjective_pairing] by (metis prod.collapse)
  obtain s' t' where s': "mem_Snapshot m' b = (Inr s', t')" "snapshot_of (mem_doc m b) s'"
    using mem_Snapshot_law(3) [OF assms(2) surjective_pairing] assms(3) by (metis prod.collapse)
  have entries: "map shape_entry (snap_Shapes s) = map shape_entry (snap_Shapes s')" "snap_Seq s = snap_Seq s'"
    using snapshot_of_unique [OF s(2) s'(2)] by simp_all
  have unentry: "snap_Shapes r = map (\<lambda>(i, q, v). \<lparr>ss_Seq = q, ss_ID = i, ss_Shape = slice_clone (Some v)\<rparr>)
      (map shape_entry (snap_Shapes r))" if sn: "mem_Snapshot n b = (Inr r, u)" for n r u
    unfolding map_map
  proof (rule map_idI [symmetric])
    fix x assume "x \<in> set (snap_Shapes r)"
    then obtain e where "x = mem_snapshot_shape e"
      using sn by (cases "mem_board n b") (auto simp: mem_Snapshot_def)
    then show "((\<lambda>(i, q, v). \<lparr>ss_Seq = q, ss_ID = i, ss_Shape = slice_clone (Some v)\<rparr>) \<circ> shape_entry) x = x"
      by (simp add: mem_snapshot_shape_def shape_entry_def) (simp add: slice_clone_def)
  qed
  have "snap_Shapes s = snap_Shapes s'" using unentry [OF s(1)] unentry [OF s'(1)] entries(1) by simp
  with entries(2) s(1) s'(1) show ?thesis by simp
qed

text \<open>
  Hydration loads a snapshot exactly if the board has no state, never touches a board that has
  some, and a second hydration after a snapshot with state was loaded changes nothing, whatever
  snapshot it brings.
\<close>

lemma memory_hydrate_once:
  assumes "Memory_ok m" "snap_ok x" "snap_ok y" "has_state (doc_of_snapshot x)"
    "mem_Hydrate m b x = (r, m1)" "mem_Hydrate m1 b y = (r', m2)"
  shows "r = Inr (\<not> has_state (mem_doc m b)) \<and>
    mem_doc m1 = (if has_state (mem_doc m b) then mem_doc m else (mem_doc m)(b := doc_of_snapshot x)) \<and>
    r' = Inr False \<and> mem_doc m2 = mem_doc m1"
proof -
  note h1 = mem_Hydrate_law [OF assms(1,2,5)]
  then have "has_state (mem_doc m1 b)" using assms(4) by simp
  with h1 mem_Hydrate_law [OF h1(2) assms(3,6)] show ?thesis by simp
qed

text \<open>
  Publishing never blocks and never fails: the message is appended to the queue of every
  subscriber of that board that has room for it, once; a full queue drops it; no other queue, no
  document and no roster changes.
\<close>

lemma memory_publish_fanout:
  assumes "Memory_ok m" "Subs_ok m" "mem_Publish m b x = (r, m')"
  shows "r = Inr () \<and> Subs_ok m' \<and> mem_doc m' = mem_doc m \<and> mem_roster m' = mem_roster m \<and>
    (\<forall>c. gomap_get (mem_chans m') c =
      (if c \<in> set (subs_of m b)
       then map_option (\<lambda>q. if length q < 256 then q @ [x] else q) (gomap_get (mem_chans m) c)
       else gomap_get (mem_chans m) c))"
proof -
  have "offer x = (\<lambda>q. if length q < 256 then q @ [x] else q)"
    by (simp add: offer_def sub_buffer_def fun_eq_iff)
  then show ?thesis
    using mem_Publish_law [OF assms(1,3)] mem_Publish_Subs [OF assms] same_boards [of m' m] by auto
qed

end
