(* ===== verification/Store.thy ===== *)
theory Store
  imports Protocol
begin

text \<open>
  The durable store: the \<^verbatim>\<open>Store\<close> interface of \<^verbatim>\<open>internal/store/store.go\<close> as a method
  table and a contract, and the in-process implementation of
  \<^verbatim>\<open>internal/store/memory.go\<close>.
\<close>

section \<open>The interface\<close>

text \<open>\<^verbatim>\<open>LoadSnapshot\<close> returns a snapshot and whether there is one: an option.\<close>

record 's Store =
  st_LoadSnapshot :: "'s \<Rightarrow> bytes \<Rightarrow> Snapshot option go_result \<times> 's"
  st_SaveSnapshot :: "'s \<Rightarrow> bytes \<Rightarrow> Snapshot \<Rightarrow> unit go_result \<times> 's"
  st_Close :: "'s \<Rightarrow> unit go_result \<times> 's"

text \<open>A write is stale when a newer snapshot is stored already.\<close>

definition stale :: "Snapshot option \<Rightarrow> Snapshot \<Rightarrow> bool" where
  "stale cur x \<longleftrightarrow> (case cur of None \<Rightarrow> False | Some y \<Rightarrow> snap_Seq x < snap_Seq y)"

text \<open>Saving a list of snapshots of one board in turn, up to the first error.\<close>

fun save_all :: "'s Store \<Rightarrow> bytes \<Rightarrow> Snapshot list \<Rightarrow> 's \<Rightarrow> 's option" where
  "save_all S b [] s = Some s"
| "save_all S b (x # xs) s =
     (case st_SaveSnapshot S s b x of (Inr _, t) \<Rightarrow> save_all S b xs t | (Inl e, t) \<Rightarrow> None)"

text \<open>
  The contract, for calls that return without an error. \<open>fits b x\<close> says which snapshots the
  store can represent, \<open>norm x\<close> what it gives back for them: the same snapshot, or one whose
  shapes are written differently.
\<close>

locale store_contract =
  fixes S :: "'s Store"
    and sinv :: "'s \<Rightarrow> bool"
    and stored :: "'s \<Rightarrow> bytes \<rightharpoonup> Snapshot"
    and fits :: "bytes \<Rightarrow> Snapshot \<Rightarrow> bool"
    and norm :: "Snapshot \<Rightarrow> Snapshot"
  assumes load_law: "sinv s \<Longrightarrow> st_LoadSnapshot S s b = (Inr r, s') \<Longrightarrow> sinv s' \<and> stored s' = stored s \<and> r = stored s b"
    and save_law: "sinv s \<Longrightarrow> fits b x \<Longrightarrow> st_SaveSnapshot S s b x = (Inr u, s') \<Longrightarrow>
      sinv s' \<and> stored s' = (if stale (stored s b) x then stored s else (stored s)(b \<mapsto> norm x))"
    and norm_seq: "fits b x \<Longrightarrow> snap_Seq (norm x) = snap_Seq x"
    and norm_stamps: "fits b x \<Longrightarrow> map ss_ID (snap_Shapes (norm x)) = map ss_ID (snap_Shapes x) \<and>
      map ss_Seq (snap_Shapes (norm x)) = map ss_Seq (snap_Shapes x)"
begin

lemma save_seq:
  assumes "sinv s" "fits b x" "st_SaveSnapshot S s b x = (Inr u, s')"
  obtains y where "stored s' b = Some y" "snap_Seq x \<le> snap_Seq y"
    "y = norm x \<or> stored s b = Some y"
  using save_law [OF assms] norm_seq [OF assms(2)] by (cases "stored s b") (auto simp: stale_def split: if_splits)

text \<open>
  Whatever order snapshots arrive in, the board ends with one of the greatest
  sequence number, and it is one of those that were offered or was there before.
\<close>

lemma save_all_newest:
  assumes "save_all S b xs s = Some t" "sinv s" "list_all (fits b) xs"
  shows "sinv t"
    "\<And>x. x \<in> set xs \<or> stored s b = Some x \<Longrightarrow> \<exists>y. stored t b = Some y \<and> snap_Seq x \<le> snap_Seq y"
    "\<And>y. stored t b = Some y \<Longrightarrow> y \<in> norm ` set xs \<or> stored s b = Some y"
    "\<And>c. c \<noteq> b \<Longrightarrow> stored t c = stored s c"
proof -
  have "sinv t \<and> (\<forall>x. x \<in> set xs \<or> stored s b = Some x \<longrightarrow> (\<exists>y. stored t b = Some y \<and> snap_Seq x \<le> snap_Seq y)) \<and>
      (\<forall>y. stored t b = Some y \<longrightarrow> y \<in> norm ` set xs \<or> stored s b = Some y) \<and> (\<forall>c. c \<noteq> b \<longrightarrow> stored t c = stored s c)"
    using assms
  proof (induction xs arbitrary: s)
    case (Cons x xs)
    then obtain u v where u: "st_SaveSnapshot S s b x = (Inr v, u)" "save_all S b xs u = Some t"
      by (auto split: prod.splits sum.splits)
    have f: "fits b x" "list_all (fits b) xs" using Cons.prems(3) by simp_all
    have ok: "sinv u" and su: "stored u = (if stale (stored s b) x then stored s else (stored s)(b \<mapsto> norm x))"
      using save_law [OF Cons.prems(2) f(1) u(1)] by auto
    note IH = Cons.IH [OF u(2) ok f(2)]
    have x: "\<exists>y. stored u b = Some y \<and> snap_Seq x \<le> snap_Seq y \<and> (y = norm x \<or> stored s b = Some y)"
      using save_seq [OF Cons.prems(2) f(1) u(1)] by metis
    have old: "\<exists>y. stored u b = Some y \<and> snap_Seq z \<le> snap_Seq y" if "stored s b = Some z" for z
      using that su norm_seq [OF f(1)] by (auto simp: stale_def)
    show ?case
      using IH x old su by (auto split: if_splits)
  qed auto
  then show "sinv t"
    "\<And>x. x \<in> set xs \<or> stored s b = Some x \<Longrightarrow> \<exists>y. stored t b = Some y \<and> snap_Seq x \<le> snap_Seq y"
    "\<And>y. stored t b = Some y \<Longrightarrow> y \<in> norm ` set xs \<or> stored s b = Some y"
    "\<And>c. c \<noteq> b \<Longrightarrow> stored t c = stored s c"
    by blast+
qed

end

section \<open>The in-process store\<close>

record MemStore =
  sm_snaps :: "(bytes, Snapshot) gomap"

definition NewMemStore :: MemStore where
  "NewMemStore = \<lparr>sm_snaps = []\<rparr>"

definition sm_LoadSnapshot :: "MemStore \<Rightarrow> bytes \<Rightarrow> Snapshot option go_result \<times> MemStore" where
  "sm_LoadSnapshot m boardID = (Inr (gomap_get (sm_snaps m) boardID), m)"

definition sm_SaveSnapshot :: "MemStore \<Rightarrow> bytes \<Rightarrow> Snapshot \<Rightarrow> unit go_result \<times> MemStore" where
  "sm_SaveSnapshot m boardID snap =
     (case gomap_get (sm_snaps m) boardID of
        Some cur \<Rightarrow> if snap_Seq snap < snap_Seq cur then (Inr (), m)
                    else (Inr (), m\<lparr>sm_snaps := gomap_put boardID snap (sm_snaps m)\<rparr>)
      | None \<Rightarrow> (Inr (), m\<lparr>sm_snaps := gomap_put boardID snap (sm_snaps m)\<rparr>))"

definition sm_Close :: "MemStore \<Rightarrow> unit go_result \<times> MemStore" where
  "sm_Close m = (Inr (), m)"

definition memory_store :: "MemStore Store" where
  "memory_store = \<lparr>st_LoadSnapshot = sm_LoadSnapshot, st_SaveSnapshot = sm_SaveSnapshot, st_Close = sm_Close\<rparr>"

interpretation smem: store_contract memory_store "\<lambda>m. gomap_ok (sm_snaps m)" "\<lambda>m. gomap_get (sm_snaps m)"
  "\<lambda>b x. True" "\<lambda>x. x"
  by unfold_locales
    (auto simp: memory_store_def sm_LoadSnapshot_def sm_SaveSnapshot_def stale_def split: option.splits if_splits)

section \<open>Properties\<close>

text \<open>
  Snapshots saved in any order leave the newest: the board ends with a snapshot that is one of
  those saved or was there before, and none of these has a greater sequence number. Saves of one
  board never touch another.
\<close>

lemma store_newest_wins:
  assumes "gomap_ok (sm_snaps s)" "save_all memory_store b xs s = Some t" "xs \<noteq> []"
  shows "\<exists>y. gomap_get (sm_snaps t) b = Some y \<and> (y \<in> set xs \<or> gomap_get (sm_snaps s) b = Some y) \<and>
    (\<forall>x \<in> set xs. snap_Seq x \<le> snap_Seq y) \<and>
    (\<forall>x. gomap_get (sm_snaps s) b = Some x \<longrightarrow> snap_Seq x \<le> snap_Seq y) \<and>
    (\<forall>c. c \<noteq> b \<longrightarrow> gomap_get (sm_snaps t) c = gomap_get (sm_snaps s) c)"
proof -
  have "list_all (\<lambda>x. True) xs" by (simp add: list.pred_True)
  note n = smem.save_all_newest [OF assms(2,1) this]
  obtain y where y: "gomap_get (sm_snaps t) b = Some y" using n(2) [of "hd xs"] assms(3) by auto
  have "snap_Seq x \<le> snap_Seq y" if "x \<in> set xs \<or> gomap_get (sm_snaps s) b = Some x" for x
    using n(2) [OF that] y by auto
  then show ?thesis using y n(3) [OF y] n(4) by blast
qed

end
