(* ===== verification/Persistence.thy ===== *)
theory Persistence
  imports MemoryBroker Store
begin

text \<open>
  The persistence coordinator of \<^verbatim>\<open>internal/hub/persistence.go\<close>: it loads a board's
  last durable snapshot into the broker and saves the broker's snapshot to the
  store. Its state is the pair of the broker's and the store's. Errors are logged
  and otherwise ignored, as in the source.
\<close>

section \<open>Operations\<close>

definition hydrate :: "'b Broker \<Rightarrow> 's Store \<Rightarrow> 'b \<times> 's \<Rightarrow> bytes \<Rightarrow> 'b \<times> 's" where
  "hydrate B S w boardID =
     (case st_LoadSnapshot S (snd w) boardID of
        (Inl err, s1) \<Rightarrow> (fst w, s1)
      | (Inr None, s1) \<Rightarrow> (fst w, s1)
      | (Inr (Some snap), s1) \<Rightarrow> (snd (br_Hydrate B (fst w) boardID snap), s1))"

definition save :: "'b Broker \<Rightarrow> 's Store \<Rightarrow> 'b \<times> 's \<Rightarrow> bytes \<Rightarrow> 'b \<times> 's" where
  "save B S w boardID =
     (case br_Snapshot B (fst w) boardID of
        (Inl err, b1) \<Rightarrow> (b1, snd w)
      | (Inr snap, b1) \<Rightarrow> (b1, snd (st_SaveSnapshot S (snd w) boardID snap)))"

section \<open>Laws, for every broker and store that keep their contracts and do not fail\<close>

locale persistence_contract =
  broker_contract B inv doc roster cap + store_contract S sinv stored fits norm
  for B :: "'b Broker" and inv and doc and roster and cap
    and S :: "'s Store" and sinv and stored and fits and norm +
  assumes snapshot_ok: "inv bs \<Longrightarrow> \<exists>snap bs'. br_Snapshot B bs b = (Inr snap, bs')"
    and hydrate_ok: "inv bs \<Longrightarrow> \<exists>l bs'. br_Hydrate B bs b snap = (Inr l, bs')"
    and load_ok: "sinv ss \<Longrightarrow> \<exists>r ss'. st_LoadSnapshot S ss b = (Inr r, ss')"
    and save_ok: "sinv ss \<Longrightarrow> fits b snap \<Longrightarrow> \<exists>ss'. st_SaveSnapshot S ss b snap = (Inr (), ss')"
begin

lemma norm_snap_ok:
  assumes "fits b x" "snap_ok x"
  shows "snap_ok (norm x)"
proof -
  have le: "list_all (\<lambda>s. ss_Seq s \<le> n) xs \<longleftrightarrow> list_all (\<lambda>q. q \<le> n) (map ss_Seq xs)" for n xs
    by (simp add: list_all_iff)
  show ?thesis
    using assms(2) norm_seq [OF assms(1)] norm_stamps [OF assms(1)] by (simp add: snap_ok_def le del: list.pred_map)
qed

lemma save_stores:
  assumes "inv bs" "sinv ss" "\<And>snap. snapshot_of (doc bs b) snap \<Longrightarrow> fits b snap"
  obtains bs' ss' snap where "save B S (bs, ss) b = (bs', ss')" "inv bs'" "sinv ss'" "doc bs' = doc bs"
    "snapshot_of (doc bs b) snap"
    "stored ss' = (if stale (stored ss b) snap then stored ss else (stored ss)(b \<mapsto> norm snap))"
proof -
  obtain snap bs' where s: "br_Snapshot B bs b = (Inr snap, bs')" using snapshot_ok [OF assms(1)] by blast
  have f: "fits b snap" using snapshot_law [OF assms(1) s] assms(3) by blast
  obtain ss' where t: "st_SaveSnapshot S ss b snap = (Inr (), ss')" using save_ok [OF assms(2) f] by blast
  show thesis
    using snapshot_law [OF assms(1) s] save_law [OF assms(2) f t] s t
    by (intro that [of bs' ss' snap]) (auto simp: save_def)
qed

lemma hydrate_loads:
  assumes "inv bs" "sinv ss" "\<And>snap. stored ss b = Some snap \<Longrightarrow> snap_ok snap"
  obtains bs' ss' where "hydrate B S (bs, ss) b = (bs', ss')" "inv bs'" "sinv ss'" "stored ss' = stored ss"
    "doc bs' = doc bs \<or> (\<exists>snap. stored ss b = Some snap \<and> \<not> has_state (doc bs b) \<and>
       doc bs' = (doc bs)(b := doc_of_snapshot snap))"
proof -
  obtain r ss' where l: "st_LoadSnapshot S ss b = (Inr r, ss')" using load_ok [OF assms(2)] by blast
  note ll = load_law [OF assms(2) l]
  show thesis
  proof (cases r)
    case None
    then show thesis using ll l assms(1) by (intro that [of bs ss']) (auto simp: hydrate_def)
  next
    case (Some snap)
    obtain k bs' where h: "br_Hydrate B bs b snap = (Inr k, bs')" using hydrate_ok [OF assms(1)] by blast
    have st: "stored ss b = Some snap" using ll Some by simp
    with assms(3) have "snap_ok snap" by simp
    from hydrate_law [OF assms(1) this h] show thesis
      using ll l h Some st by (intro that [of bs' ss']) (auto simp: hydrate_def split: if_splits)
  qed
qed

text \<open>A board that has state is never changed by hydration.\<close>

lemma hydrate_no_clobber:
  assumes "inv bs" "sinv ss" "\<And>snap. stored ss b = Some snap \<Longrightarrow> snap_ok snap" "has_state (doc bs b)"
  shows "doc (fst (hydrate B S (bs, ss) b)) = doc bs"
  using hydrate_loads [OF assms(1-3)] assms(4) by (metis fst_conv)

end

text \<open>A restart: the broker comes back empty and accepts any snapshot.\<close>

locale restart_contract = persistence_contract +
  fixes fresh :: 'b
  assumes fresh_inv: "inv fresh"
    and fresh_loads: "snap_ok snap \<Longrightarrow> \<exists>bs'. br_Hydrate B fresh b snap = (Inr True, bs')"
begin

text \<open>
  What a board held when it was saved is what a restarted broker holds after
  hydration, up to the store's way of writing shapes, unless the store had a newer
  snapshot already.
\<close>

lemma restart_roundtrip:
  assumes "inv bs" "sinv ss" "\<And>y. stored ss b = Some y \<Longrightarrow> snap_Seq y \<le> d_seq (doc bs b)"
    "\<And>snap. snapshot_of (doc bs b) snap \<Longrightarrow> fits b snap"
  obtains snap where "snapshot_of (doc bs b) snap"
    "doc (fst (hydrate B S (fresh, snd (save B S (bs, ss) b)) b)) b = doc_of_snapshot (norm snap)"
proof -
  obtain bs' ss' snap where s: "save B S (bs, ss) b = (bs', ss')" "sinv ss'" "snapshot_of (doc bs b) snap"
    "stored ss' = (if stale (stored ss b) snap then stored ss else (stored ss)(b \<mapsto> norm snap))"
    using save_stores [OF assms(1,2,4)] by metis
  have seq: "snap_Seq snap = d_seq (doc bs b)" "snap_ok snap"
    using s(3) snapshot_of_seq [OF s(3)] by (auto simp: snapshot_of_def)
  note n = norm_snap_ok [OF assms(4) [OF s(3)] seq(2)]
  have "\<not> stale (stored ss b) snap"
    using seq assms(3) by (auto simp: stale_def split: option.splits)
  then have st: "stored ss' b = Some (norm snap)" using s(4) by simp
  obtain r ss2 where l: "st_LoadSnapshot S ss' b = (Inr r, ss2)" using load_ok [OF s(2)] by blast
  then have r: "r = Some (norm snap)" using load_law [OF s(2) l] st by simp
  obtain bs2 where h: "br_Hydrate B fresh b (norm snap) = (Inr True, bs2)" using fresh_loads [OF n] by blast
  have "doc bs2 b = doc_of_snapshot (norm snap)" using hydrate_law [OF fresh_inv n h] by simp
  then show thesis by (intro that [OF s(3)]) (simp add: s(1) hydrate_def l r h)
qed

end

interpretation mm: restart_contract memory_broker Memory_ok mem_doc mem_roster "- 1"
  memory_store "\<lambda>m. gomap_ok (sm_snaps m)" "\<lambda>m. gomap_get (sm_snaps m)" "\<lambda>b x. True" "\<lambda>x. x" NewMemory
  by unfold_locales
    (auto simp: memory_broker_def mem_Snapshot_def mem_Hydrate_def memory_store_def sm_LoadSnapshot_def
      sm_SaveSnapshot_def Let_def mem_board_def NewMemory_ok [unfolded NewMemory_def] NewMemory_def
      new_memBoard_def split: prod.splits option.splits)

lemma mem_restart:
  assumes "Memory_ok m" "gomap_ok (sm_snaps s)"
    "\<And>y. gomap_get (sm_snaps s) b = Some y \<Longrightarrow> snap_Seq y \<le> d_seq (mem_doc m b)"
  shows "mem_doc (fst (hydrate memory_broker memory_store
      (NewMemory, snd (save memory_broker memory_store (m, s) b)) b)) b = mem_doc m b"
  using mm.restart_roundtrip [OF assms TrueI] by (metis snapshot_of_def)

section \<open>Properties\<close>

text \<open>
  Durability: a board saved by one process and hydrated by a fresh one holds the same document,
  shapes, blobs and sequence numbers, provided the store had no newer snapshot of it.
\<close>

lemma save_hydrate_restores:
  assumes "Memory_ok m" "gomap_ok (sm_snaps s)"
    "\<forall>y. gomap_get (sm_snaps s) b = Some y \<longrightarrow> snap_Seq y \<le> d_seq (mem_doc m b)"
  shows "mem_doc (fst (hydrate memory_broker memory_store
      (NewMemory, snd (save memory_broker memory_store (m, s) b)) b)) b = mem_doc m b"
  using assms by (intro mem_restart) auto

text \<open>
  Hydration never overwrites live state: a board that has a sequence number or a shape keeps its
  document, whatever valid snapshot the store holds.
\<close>

lemma hydrate_keeps_live_state:
  assumes "Memory_ok m" "gomap_ok (sm_snaps s)" "has_state (mem_doc m b)"
    "\<forall>snap. gomap_get (sm_snaps s) b = Some snap \<longrightarrow> snap_ok snap"
  shows "mem_doc (fst (hydrate memory_broker memory_store (m, s) b)) = mem_doc m"
  using assms by (intro mm.hydrate_no_clobber) auto

end
