(* ===== verification/Metrics.thy ===== *)
theory Metrics
  imports Prelude
begin

text \<open>
  Metrics: the calls of the hub's \<^verbatim>\<open>Metrics\<close> interface (\<^verbatim>\<open>internal/hub/metrics.go\<close>) as
  events the hub emits, the no-op default, and the counters and gauges of
  \<^verbatim>\<open>internal/metrics/prometheus.go\<close> as a function of the events.
\<close>

datatype MetricEvent =
    ConnOpened
  | ConnClosed
  | BoardOpened
  | BoardClosed
  | MessageReceived
  | MessagesDelivered nat
  | ClientKicked

fun nopMetrics :: "unit \<Rightarrow> MetricEvent \<Rightarrow> unit" where
  "nopMetrics u ConnOpened = ()"
| "nopMetrics u ConnClosed = ()"
| "nopMetrics u BoardOpened = ()"
| "nopMetrics u BoardClosed = ()"
| "nopMetrics u MessageReceived = ()"
| "nopMetrics u (MessagesDelivered n) = ()"
| "nopMetrics u ClientKicked = ()"

record Prometheus =
  activeConns :: int
  activeBoards :: int
  received :: nat
  delivered :: nat
  kicked :: nat

definition NewPrometheus :: Prometheus where
  "NewPrometheus = \<lparr>activeConns = 0, activeBoards = 0, received = 0, delivered = 0, kicked = 0\<rparr>"

fun prometheus :: "Prometheus \<Rightarrow> MetricEvent \<Rightarrow> Prometheus" where
  "prometheus p ConnOpened = p\<lparr>activeConns := activeConns p + 1\<rparr>"
| "prometheus p ConnClosed = p\<lparr>activeConns := activeConns p - 1\<rparr>"
| "prometheus p BoardOpened = p\<lparr>activeBoards := activeBoards p + 1\<rparr>"
| "prometheus p BoardClosed = p\<lparr>activeBoards := activeBoards p - 1\<rparr>"
| "prometheus p MessageReceived = p\<lparr>received := received p + 1\<rparr>"
| "prometheus p (MessagesDelivered n) = p\<lparr>delivered := delivered p + n\<rparr>"
| "prometheus p ClientKicked = p\<lparr>kicked := kicked p + 1\<rparr>"

definition scrape :: "MetricEvent list \<Rightarrow> Prometheus" where
  "scrape es = foldl prometheus NewPrometheus es"

definition delivered_of :: "MetricEvent \<Rightarrow> nat" where
  "delivered_of e = (case e of MessagesDelivered n \<Rightarrow> n | _ \<Rightarrow> 0)"

lemma scrape_snoc [simp]: "scrape (es @ [e]) = prometheus (scrape es) e"
  by (simp add: scrape_def)

text \<open>What a scrape shows: gauges are opens minus closes, counters are totals.\<close>

lemma scrape_counts:
  "activeConns (scrape es) = int (count_list es ConnOpened) - int (count_list es ConnClosed)"
  "activeBoards (scrape es) = int (count_list es BoardOpened) - int (count_list es BoardClosed)"
  "received (scrape es) = count_list es MessageReceived"
  "delivered (scrape es) = sum_list (map delivered_of es)"
  "kicked (scrape es) = count_list es ClientKicked"
proof (induction es rule: rev_induct)
  case Nil
  {
    case 1 show ?case by (simp add: scrape_def NewPrometheus_def)
  next
    case 2 show ?case by (simp add: scrape_def NewPrometheus_def)
  next
    case 3 show ?case by (simp add: scrape_def NewPrometheus_def)
  next
    case 4 show ?case by (simp add: scrape_def NewPrometheus_def)
  next
    case 5 show ?case by (simp add: scrape_def NewPrometheus_def)
  }
next
  case (snoc e es)
  {
    case 1 show ?case using snoc by (cases e) simp_all
  next
    case 2 show ?case using snoc by (cases e) simp_all
  next
    case 3 show ?case using snoc by (cases e) simp_all
  next
    case 4 show ?case using snoc by (cases e) (simp_all add: delivered_of_def)
  next
    case 5 show ?case using snoc by (cases e) simp_all
  }
qed

section \<open>Properties\<close>

text \<open>
  After any sequence of hub events the gauges show opens minus closes, and the counters the
  number of messages received and clients kicked and the sum of the deliveries.
\<close>

lemma metrics_scrape:
  "activeConns (scrape es) = int (count_list es ConnOpened) - int (count_list es ConnClosed) \<and>
    activeBoards (scrape es) = int (count_list es BoardOpened) - int (count_list es BoardClosed) \<and>
    received (scrape es) = count_list es MessageReceived \<and>
    delivered (scrape es) = sum_list (map delivered_of es) \<and> kicked (scrape es) = count_list es ClientKicked"
  using scrape_counts by blast

end
