(* ===== verification/Hub.thy ===== *)
theory Hub
  imports Persistence Metrics
begin

text \<open>
  The registry of \<^verbatim>\<open>internal/hub/hub.go\<close> and the life of every connection
  (\<^verbatim>\<open>Serve\<close> in \<^verbatim>\<open>internal/hub/client.go\<close>) as a transition system. What runs under
  the registry's mutex is one step; so is each channel operation that may block.
  A board is a number, in the order boards are created; of its actor the registry
  sees whether it was told to quit, whether it has returned and which clients its
  loop holds. A connection is its index in the list of all \<^verbatim>\<open>Serve\<close> calls.
\<close>

section \<open>State\<close>

text \<open>Where a \<^verbatim>\<open>Serve\<close> call stands; the number is its board.\<close>

datatype serve_pc =
    Rejected                 \<comment> \<open>the hub was closing\<close>
  | Registering nat          \<comment> \<open>before \<open>c.board.register <- c\<close>\<close>
  | Serving nat              \<comment> \<open>onboarding and pumps\<close>
  | Releasing nat            \<comment> \<open>before the critical section of \<open>release\<close>\<close>
  | ClosingQuit nat          \<comment> \<open>the last client, before \<open>b.closeQuit()\<close>\<close>
  | Unregistering nat        \<comment> \<open>before \<open>b.unregister <- c\<close> or \<open><-b.done\<close>\<close>
  | Finishing                \<comment> \<open>before \<open>h.sessions.Done()\<close>\<close>
  | Returned

text \<open>Where the \<^verbatim>\<open>Shutdown\<close> call stands.\<close>

datatype shutdown_pc =
    NotCalled
  | TellingQuit "nat list"   \<comment> \<open>boards whose \<open>closeQuit\<close> is still to be called\<close>
  | WaitingBoards "nat list" \<comment> \<open>boards whose \<open>done\<close> is still to be seen\<close>
  | WaitingSessions
  | Drained                  \<comment> \<open>returned nil\<close>
  | Expired                  \<comment> \<open>returned \<open>ctx.Err()\<close>\<close>

record boardEntry =
  e_board :: nat
  e_count :: int

record Hub =
  h_boards :: "(bytes, boardEntry) gomap"
  h_closing :: bool
  h_sessions :: int
  h_stop :: "bool option"      \<comment> \<open>nil without a store; whether it is closed otherwise\<close>
  h_ids :: "bytes list"        \<comment> \<open>the id of every board created, in order\<close>
  h_quit :: "nat list"
  h_done :: "nat list"
  h_members :: "nat \<Rightarrow> nat list"
  h_conns :: "serve_pc list"
  h_shutdown :: shutdown_pc
  h_draining :: "nat list"     \<comment> \<open>the local variable \<open>boards\<close> of \<open>Shutdown\<close>\<close>
  h_events :: "MetricEvent list"

definition New :: "bool \<Rightarrow> Hub" where
  "New with_store =
     \<lparr>h_boards = [], h_closing = False, h_sessions = 0, h_stop = (if with_store then Some False else None),
      h_ids = [], h_quit = [], h_done = [], h_members = (\<lambda>b. []), h_conns = [], h_shutdown = NotCalled, h_draining = [],
      h_events = []\<rparr>"

section \<open>Operations\<close>

definition h_emit :: "MetricEvent \<Rightarrow> Hub \<Rightarrow> Hub" where
  "h_emit e h = h\<lparr>h_events := h_events h @ [e]\<rparr>"

definition goto_pc :: "nat \<Rightarrow> serve_pc \<Rightarrow> Hub \<Rightarrow> Hub" where
  "goto_pc c p h = h\<lparr>h_conns := (h_conns h)[c := p]\<rparr>"

definition closeQuit :: "nat \<Rightarrow> Hub \<Rightarrow> Hub" where
  "closeQuit b h = h\<lparr>h_quit := List.insert b (h_quit h)\<rparr>"

definition stopCoordinator :: "Hub \<Rightarrow> Hub" where
  "stopCoordinator h = (case h_stop h of None \<Rightarrow> h | Some closed \<Rightarrow> h\<lparr>h_stop := Some True\<rparr>)"

definition beginSession :: "bytes \<Rightarrow> Hub \<Rightarrow> nat option \<times> Hub" where
  "beginSession bid h =
     (if h_closing h then (None, h)
      else let h1 = h\<lparr>h_sessions := h_sessions h + 1\<rparr> in
        case gomap_get (h_boards h1) bid of
          Some e \<Rightarrow> (Some (e_board e), h1\<lparr>h_boards := gomap_put bid (e\<lparr>e_count := e_count e + 1\<rparr>) (h_boards h1)\<rparr>)
        | None \<Rightarrow>
            let b = length (h_ids h1) in
            (Some b, h_emit BoardOpened
              (h1\<lparr>h_ids := h_ids h1 @ [bid],
                 h_boards := gomap_put bid \<lparr>e_board = b, e_count = 1\<rparr> (h_boards h1)\<rparr>)))"

text \<open>\<^verbatim>\<open>Serve\<close> up to the registration.\<close>

definition serve_begin :: "bytes \<Rightarrow> Hub \<Rightarrow> Hub" where
  "serve_begin bid h =
     (case beginSession bid h of
        (None, h1) \<Rightarrow> h1\<lparr>h_conns := h_conns h1 @ [Rejected]\<rparr>
      | (Some b, h1) \<Rightarrow> h_emit ConnOpened (h1\<lparr>h_conns := h_conns h1 @ [Registering b]\<rparr>))"

text \<open>The critical section of \<^verbatim>\<open>release\<close>, and where it leaves the caller.\<close>

definition release :: "nat \<Rightarrow> Hub \<Rightarrow> serve_pc \<times> Hub" where
  "release b h =
     (case gomap_get (h_boards h) (h_ids h ! b) of
        None \<Rightarrow> (Finishing, h)
      | Some e \<Rightarrow>
          if e_board e \<noteq> b then (Finishing, h)
          else let n = e_count e - 1 in
            if n = 0 then (ClosingQuit b, h\<lparr>h_boards := gomap_del (h_ids h ! b) (h_boards h)\<rparr>)
            else (Unregistering b,
                  h\<lparr>h_boards := gomap_put (h_ids h ! b) (e\<lparr>e_count := n\<rparr>) (h_boards h)\<rparr>))"

text \<open>The critical section of \<^verbatim>\<open>Shutdown\<close>; a second call returns at once.\<close>

definition Shutdown :: "Hub \<Rightarrow> Hub" where
  "Shutdown h =
     (if h_closing h then h
      else h\<lparr>h_closing := True, h_boards := [],
             h_draining := map (e_board \<circ> snd) (h_boards h),
             h_shutdown := TellingQuit (map (e_board \<circ> snd) (h_boards h))\<rparr>)"

definition boardClientCount :: "bytes \<Rightarrow> Hub \<Rightarrow> nat \<times> bool" where
  "boardClientCount bid h =
     (case gomap_get (h_boards h) bid of
        None \<Rightarrow> (0, False)
      | Some e \<Rightarrow> if e_board e \<in> set (h_done h) then (0, False) else (length (h_members h (e_board e)), True))"

definition snapshotAllBoards :: "'b Broker \<Rightarrow> 's Store \<Rightarrow> Hub \<Rightarrow> 'b \<times> 's \<Rightarrow> 'b \<times> 's" where
  "snapshotAllBoards B S h w = foldl (save B S) w (map fst (h_boards h))"

section \<open>Steps\<close>

definition add_member :: "nat \<Rightarrow> nat \<Rightarrow> Hub \<Rightarrow> Hub" where
  "add_member b c h = h\<lparr>h_members := (h_members h)(b := List.insert c (h_members h b))\<rparr>"

definition del_member :: "nat \<Rightarrow> nat \<Rightarrow> Hub \<Rightarrow> Hub" where
  "del_member b c h = h\<lparr>h_members := (h_members h)(b := removeAll c (h_members h b))\<rparr>"

abbreviation at_pc :: "Hub \<Rightarrow> nat \<Rightarrow> serve_pc \<Rightarrow> bool" where
  "at_pc h c p \<equiv> c < length (h_conns h) \<and> h_conns h ! c = p"

text \<open>
  A board's goroutine receives from \<^verbatim>\<open>register\<close> and \<^verbatim>\<open>unregister\<close> until it has
  returned, even when \<^verbatim>\<open>quit\<close> is closed already: a select takes any ready case.
\<close>

inductive hub_step :: "Hub \<Rightarrow> Hub \<Rightarrow> bool" where
  serve: "hub_step h (serve_begin bid h)"
| register: "at_pc h c (Registering b) \<Longrightarrow> b \<notin> set (h_done h) \<Longrightarrow>
    hub_step h (goto_pc c (Serving b) (add_member b c h))"
| kick: "c \<in> set (h_members h b) \<Longrightarrow> b \<notin> set (h_done h) \<Longrightarrow> hub_step h (del_member b c h)"
| serve_end: "at_pc h c (Serving b) \<Longrightarrow> hub_step h (goto_pc c (Releasing b) (h_emit ConnClosed h))"
| release: "at_pc h c (Releasing b) \<Longrightarrow> release b h = (p, h') \<Longrightarrow> hub_step h (goto_pc c p h')"
| close_quit: "at_pc h c (ClosingQuit b) \<Longrightarrow> hub_step h (goto_pc c Finishing (closeQuit b h))"
| unregister: "at_pc h c (Unregistering b) \<Longrightarrow> b \<notin> set (h_done h) \<Longrightarrow>
    hub_step h (goto_pc c Finishing (del_member b c h))"
| unregister_done: "at_pc h c (Unregistering b) \<Longrightarrow> b \<in> set (h_done h) \<Longrightarrow> hub_step h (goto_pc c Finishing h)"
| finish: "at_pc h c Finishing \<Longrightarrow> hub_step h (goto_pc c Returned (h\<lparr>h_sessions := h_sessions h - 1\<rparr>))"
| board_returns: "b \<in> set (h_quit h) \<Longrightarrow> b \<notin> set (h_done h) \<Longrightarrow>
    hub_step h (h_emit BoardClosed (h\<lparr>h_members := (h_members h)(b := []), h_done := b # h_done h\<rparr>))"
| shutdown: "hub_step h (Shutdown h)"
| tell_quit: "h_shutdown h = TellingQuit (b # bs) \<Longrightarrow>
    hub_step h ((closeQuit b h)\<lparr>h_shutdown := TellingQuit bs\<rparr>)"
| told_quit: "h_shutdown h = TellingQuit [] \<Longrightarrow> hub_step h (h\<lparr>h_shutdown := WaitingBoards (h_draining h)\<rparr>)"
| board_done: "h_shutdown h = WaitingBoards (b # bs) \<Longrightarrow> b \<in> set (h_done h) \<Longrightarrow>
    hub_step h (h\<lparr>h_shutdown := WaitingBoards bs\<rparr>)"
| boards_done: "h_shutdown h = WaitingBoards [] \<Longrightarrow> hub_step h (h\<lparr>h_shutdown := WaitingSessions\<rparr>)"
| sessions_done: "h_shutdown h = WaitingSessions \<Longrightarrow> h_sessions h = 0 \<Longrightarrow>
    hub_step h (stopCoordinator (h\<lparr>h_shutdown := Drained\<rparr>))"
| ctx_done: "h_shutdown h \<in> {WaitingSessions} \<union> range WaitingBoards \<Longrightarrow>
    hub_step h (stopCoordinator (h\<lparr>h_shutdown := Expired\<rparr>))"
| close: "hub_step h (stopCoordinator h)"

inductive hub_reach :: "bool \<Rightarrow> Hub \<Rightarrow> bool" for with_store where
  start: "hub_reach with_store (New with_store)"
| step: "hub_reach with_store h \<Longrightarrow> hub_step h h' \<Longrightarrow> hub_reach with_store h'"

end
