(* ===== verification/HubLaws.thy ===== *)
theory HubLaws
  imports Hub
begin

text \<open>
  Laws of the registry: what holds in every reachable state, that a join in flight
  keeps its board alive while the hub is open, what a completed \<^verbatim>\<open>Shutdown\<close>
  guarantees, and what it does not.
\<close>

section \<open>Counting connections\<close>

text \<open>A connection holds its board open from its admission to its release.\<close>

fun holds :: "nat \<Rightarrow> serve_pc \<Rightarrow> bool" where
  "holds b (Registering a) = (a = b)"
| "holds b (Serving a) = (a = b)"
| "holds b (Releasing a) = (a = b)"
| "holds b _ = False"

fun in_session :: "serve_pc \<Rightarrow> bool" where
  "in_session Rejected = False"
| "in_session Returned = False"
| "in_session _ = True"

fun pc_board :: "serve_pc \<Rightarrow> nat option" where
  "pc_board (Registering b) = Some b"
| "pc_board (Serving b) = Some b"
| "pc_board (Releasing b) = Some b"
| "pc_board (ClosingQuit b) = Some b"
| "pc_board (Unregistering b) = Some b"
| "pc_board _ = None"

definition holders :: "nat \<Rightarrow> serve_pc list \<Rightarrow> nat" where
  "holders b conns = length (filter (holds b) conns)"

lemma holders_update:
  "c < length xs \<Longrightarrow> holders b (xs[c := p]) + (if holds b (xs ! c) then 1 else 0) = holders b xs + (if holds b p then 1 else 0)"
  unfolding holders_def by (rule length_filter_update)

lemma holders_same:
  "c < length xs \<Longrightarrow> holds b (xs ! c) = holds b p \<Longrightarrow> holders b (xs[c := p]) = holders b xs"
  using holders_update [of c xs b p] by (simp split: if_splits)

lemma holders_snoc [simp]: "holders b (xs @ [p]) = holders b xs + (if holds b p then 1 else 0)"
  by (simp add: holders_def)

lemma holders_pos: "0 < holders b xs \<longleftrightarrow> (\<exists>p \<in> set xs. holds b p)"
  by (auto simp: holders_def filter_empty_conv)

section \<open>The invariant\<close>

definition registered :: "(bytes, boardEntry) gomap \<Rightarrow> nat \<Rightarrow> bool" where
  "registered boards b \<longleftrightarrow> (\<exists>bid e. gomap_get boards bid = Some e \<and> e_board e = b)"

text \<open>
  Every entry is filed under its board's id and counts the connections that hold the
  board, at least one; while the hub is open every board somebody holds is registered;
  a board that is told to quit, or about to be by its last client, is not.
\<close>

definition registry_inv ::
  "(bytes, boardEntry) gomap \<Rightarrow> serve_pc list \<Rightarrow> bytes list \<Rightarrow> nat set \<Rightarrow> nat set \<Rightarrow> bool \<Rightarrow> bool" where
  "registry_inv boards conns ids quit fin closing \<longleftrightarrow>
     gomap_ok boards \<and>
     (\<forall>bid e. gomap_get boards bid = Some e \<longrightarrow>
        e_board e < length ids \<and> ids ! e_board e = bid \<and>
        e_count e = int (holders (e_board e) conns) \<and> 0 < holders (e_board e) conns) \<and>
     (closing \<longrightarrow> boards = []) \<and>
     (\<forall>p \<in> set conns. \<forall>b. pc_board p = Some b \<longrightarrow> b < length ids) \<and>
     (\<not> closing \<longrightarrow> (\<forall>p \<in> set conns. \<forall>b. holds b p \<longrightarrow> registered boards b)) \<and>
     (\<forall>b. ClosingQuit b \<in> set conns \<longrightarrow> \<not> registered boards b) \<and>
     (\<forall>b \<in> quit. b < length ids \<and> \<not> registered boards b) \<and>
     fin \<subseteq> quit"

abbreviation registry_ok :: "Hub \<Rightarrow> bool" where
  "registry_ok h \<equiv> registry_inv (h_boards h) (h_conns h) (h_ids h) (set (h_quit h)) (set (h_done h)) (h_closing h)"

lemma registry_invD:
  assumes "registry_inv boards conns ids quit fin closing"
  shows "gomap_ok boards"
    "\<And>bid e. gomap_get boards bid = Some e \<Longrightarrow> e_board e < length ids \<and> ids ! e_board e = bid \<and>
        e_count e = int (holders (e_board e) conns) \<and> 0 < holders (e_board e) conns"
    "closing \<Longrightarrow> boards = []"
    "\<And>p b. p \<in> set conns \<Longrightarrow> pc_board p = Some b \<Longrightarrow> b < length ids"
    "\<And>p b. p \<in> set conns \<Longrightarrow> holds b p \<Longrightarrow> \<not> closing \<Longrightarrow> registered boards b"
    "\<And>b. ClosingQuit b \<in> set conns \<Longrightarrow> \<not> registered boards b"
    "\<And>b. b \<in> quit \<Longrightarrow> b < length ids \<and> \<not> registered boards b"
    "fin \<subseteq> quit"
  using assms unfolding registry_inv_def by blast+

lemma registry_invI:
  assumes "gomap_ok boards"
    "\<And>bid e. gomap_get boards bid = Some e \<Longrightarrow> e_board e < length ids \<and> ids ! e_board e = bid \<and>
        e_count e = int (holders (e_board e) conns) \<and> 0 < holders (e_board e) conns"
    "closing \<Longrightarrow> boards = []"
    "\<And>p b. p \<in> set conns \<Longrightarrow> pc_board p = Some b \<Longrightarrow> b < length ids"
    "\<And>p b. p \<in> set conns \<Longrightarrow> holds b p \<Longrightarrow> \<not> closing \<Longrightarrow> registered boards b"
    "\<And>b. ClosingQuit b \<in> set conns \<Longrightarrow> \<not> registered boards b"
    "\<And>b. b \<in> quit \<Longrightarrow> b < length ids \<and> \<not> registered boards b"
    "fin \<subseteq> quit"
  shows "registry_inv boards conns ids quit fin closing"
  unfolding registry_inv_def using assms by blast

lemma step_selectors [simp]:
  "h_boards (h_emit e h) = h_boards h" "h_conns (h_emit e h) = h_conns h" "h_ids (h_emit e h) = h_ids h"
  "h_quit (h_emit e h) = h_quit h" "h_done (h_emit e h) = h_done h" "h_closing (h_emit e h) = h_closing h"
  "h_sessions (h_emit e h) = h_sessions h" "h_members (h_emit e h) = h_members h"
  "h_shutdown (h_emit e h) = h_shutdown h" "h_draining (h_emit e h) = h_draining h"
  "h_events (h_emit e h) = h_events h @ [e]"
  by (simp_all add: h_emit_def)

lemma goto_selectors [simp]:
  "h_boards (goto_pc c p h) = h_boards h" "h_conns (goto_pc c p h) = (h_conns h)[c := p]"
  "h_ids (goto_pc c p h) = h_ids h" "h_quit (goto_pc c p h) = h_quit h" "h_done (goto_pc c p h) = h_done h"
  "h_closing (goto_pc c p h) = h_closing h" "h_sessions (goto_pc c p h) = h_sessions h"
  "h_members (goto_pc c p h) = h_members h" "h_shutdown (goto_pc c p h) = h_shutdown h"
  "h_draining (goto_pc c p h) = h_draining h" "h_events (goto_pc c p h) = h_events h"
  by (simp_all add: goto_pc_def)

lemma quit_selectors [simp]:
  "h_boards (closeQuit b h) = h_boards h" "h_conns (closeQuit b h) = h_conns h" "h_ids (closeQuit b h) = h_ids h"
  "set (h_quit (closeQuit b h)) = insert b (set (h_quit h))" "h_done (closeQuit b h) = h_done h"
  "h_closing (closeQuit b h) = h_closing h" "h_sessions (closeQuit b h) = h_sessions h"
  "h_members (closeQuit b h) = h_members h" "h_shutdown (closeQuit b h) = h_shutdown h"
  "h_draining (closeQuit b h) = h_draining h" "h_events (closeQuit b h) = h_events h"
  by (simp_all add: closeQuit_def)

lemma member_selectors [simp]:
  "h_boards (add_member b c h) = h_boards h" "h_conns (add_member b c h) = h_conns h" "h_ids (add_member b c h) = h_ids h"
  "h_quit (add_member b c h) = h_quit h" "h_done (add_member b c h) = h_done h"
  "h_closing (add_member b c h) = h_closing h" "h_sessions (add_member b c h) = h_sessions h"
  "h_shutdown (add_member b c h) = h_shutdown h" "h_draining (add_member b c h) = h_draining h"
  "h_events (add_member b c h) = h_events h"
  "h_boards (del_member b c h) = h_boards h" "h_conns (del_member b c h) = h_conns h" "h_ids (del_member b c h) = h_ids h"
  "h_quit (del_member b c h) = h_quit h" "h_done (del_member b c h) = h_done h"
  "h_closing (del_member b c h) = h_closing h" "h_sessions (del_member b c h) = h_sessions h"
  "h_shutdown (del_member b c h) = h_shutdown h" "h_draining (del_member b c h) = h_draining h"
  "h_events (del_member b c h) = h_events h"
  by (simp_all add: add_member_def del_member_def)

lemma stop_selectors [simp]:
  "h_boards (stopCoordinator h) = h_boards h" "h_conns (stopCoordinator h) = h_conns h"
  "h_ids (stopCoordinator h) = h_ids h" "h_quit (stopCoordinator h) = h_quit h" "h_done (stopCoordinator h) = h_done h"
  "h_closing (stopCoordinator h) = h_closing h" "h_sessions (stopCoordinator h) = h_sessions h"
  "h_members (stopCoordinator h) = h_members h" "h_shutdown (stopCoordinator h) = h_shutdown h"
  "h_draining (stopCoordinator h) = h_draining h" "h_events (stopCoordinator h) = h_events h"
  by (simp_all add: stopCoordinator_def split: option.splits)

lemma set_update_cases: "q \<in> set (xs[c := p]) \<Longrightarrow> q = p \<or> q \<in> set xs"
  using set_update_subset_insert by fastforce

text \<open>A connection moves on without changing what it holds.\<close>

lemma registry_inv_goto:
  assumes "registry_inv boards conns ids quit fin closing" "c < length conns" "\<And>b. holds b p = holds b (conns ! c)"
    "\<And>b. pc_board p = Some b \<Longrightarrow> pc_board (conns ! c) = Some b" "\<And>b. p \<noteq> ClosingQuit b"
  shows "registry_inv boards (conns[c := p]) ids quit fin closing"
proof -
  note D = registry_invD [OF assms(1)]
  have nth: "conns ! c \<in> set conns" using assms(2) by simp
  have h: "holders b (conns[c := p]) = holders b conns" for b
    using holders_same [OF assms(2)] assms(3) by simp
  show ?thesis
  proof (rule registry_invI)
    fix q b assume "q \<in> set (conns[c := p])" "pc_board q = Some b"
    then show "b < length ids" using set_update_cases [of q conns c p] D(4) nth assms(4) by blast
  next
    fix q b assume "q \<in> set (conns[c := p])" "holds b q" "\<not> closing"
    then show "registered boards b" using set_update_cases [of q conns c p] D(5) nth assms(3) by blast
  next
    fix b assume "ClosingQuit b \<in> set (conns[c := p])"
    then show "\<not> registered boards b" using set_update_cases [of _ conns c p] D(6) assms(5) by metis
  qed (use D h in auto)
qed

lemma registry_inv_serve:
  assumes "registry_ok h"
  shows "registry_ok (serve_begin bid h)"
proof (cases "h_closing h")
  case True
  note D = registry_invD [OF assms]
  have "registry_inv (h_boards h) (h_conns h @ [Rejected]) (h_ids h) (set (h_quit h)) (set (h_done h)) (h_closing h)"
    by (rule registry_invI) (use D in auto)
  with True show ?thesis by (simp add: serve_begin_def beginSession_def)
next
  case False
  note D = registry_invD [OF assms]
  show ?thesis
  proof (cases "gomap_get (h_boards h) bid")
    case None
    let ?b = "length (h_ids h)"
    let ?boards = "gomap_put bid \<lparr>e_board = ?b, e_count = 1\<rparr> (h_boards h)"
    have new: "\<not> holds ?b p" if "p \<in> set (h_conns h)" for p
      using D(4) [OF that] by (cases p) auto
    then have h0: "holders ?b (h_conns h) = 0" using holders_pos [of ?b "h_conns h"] by auto
    have reg: "registered ?boards b \<longleftrightarrow> b = ?b \<or> registered (h_boards h) b" for b
      using None by (auto simp: registered_def) (metis option.distinct(1))
    have "registry_inv ?boards (h_conns h @ [Registering ?b]) (h_ids h @ [bid]) (set (h_quit h)) (set (h_done h)) False"
    proof (rule registry_invI)
      fix bid' e assume "gomap_get ?boards bid' = Some e"
      then show "e_board e < length (h_ids h @ [bid]) \<and> (h_ids h @ [bid]) ! e_board e = bid' \<and>
          e_count e = int (holders (e_board e) (h_conns h @ [Registering ?b])) \<and>
          0 < holders (e_board e) (h_conns h @ [Registering ?b])"
        using D(2) [of bid' e] h0 by (auto simp: nth_append split: if_splits)
    next
      fix p b assume "p \<in> set (h_conns h @ [Registering ?b])" "pc_board p = Some b"
      then show "b < length (h_ids h @ [bid])" using D(4) [of p b] by auto
    next
      fix b assume "ClosingQuit b \<in> set (h_conns h @ [Registering ?b])"
      then show "\<not> registered ?boards b" using D(4) [of "ClosingQuit b" b] D(6) [of b] reg by auto
    next
      fix b assume "b \<in> set (h_quit h)"
      then show "b < length (h_ids h @ [bid]) \<and> \<not> registered ?boards b" using D(7) [of b] reg by auto
    qed (use D False reg in auto)
    with None False show ?thesis by (simp add: serve_begin_def beginSession_def Let_def)
  next
    case (Some e)
    let ?b = "e_board e"
    let ?boards = "gomap_put bid (e\<lparr>e_count := e_count e + 1\<rparr>) (h_boards h)"
    have reg: "registered ?boards b \<longleftrightarrow> registered (h_boards h) b" for b
      using Some by (auto simp: registered_def) (metis option.inject)
    have rb: "registered (h_boards h) ?b" using Some by (auto simp: registered_def)
    have uniq: "bid' = bid" if "gomap_get (h_boards h) bid' = Some e'" "e_board e' = ?b" for bid' e'
      using D(2) [OF that(1)] D(2) [OF Some] that(2) by simp
    have "registry_inv ?boards (h_conns h @ [Registering ?b]) (h_ids h) (set (h_quit h)) (set (h_done h)) False"
    proof (rule registry_invI)
      fix bid' e' assume "gomap_get ?boards bid' = Some e'"
      then show "e_board e' < length (h_ids h) \<and> h_ids h ! e_board e' = bid' \<and>
          e_count e' = int (holders (e_board e') (h_conns h @ [Registering ?b])) \<and>
          0 < holders (e_board e') (h_conns h @ [Registering ?b])"
        using D(2) [of bid' e'] D(2) [OF Some] uniq [of bid' e'] by (auto split: if_splits)
    next
      fix p b assume "p \<in> set (h_conns h @ [Registering ?b])" "pc_board p = Some b"
      then show "b < length (h_ids h)" using D(4) [of p b] D(2) [OF Some] by auto
    qed (use D False reg rb in auto)
    with Some False show ?thesis by (simp add: serve_begin_def beginSession_def Let_def)
  qed
qed

text \<open>Releasing: what the connection's move means for holders and boards.\<close>

lemma releasing:
  assumes "registry_inv boards conns ids quit fin closing" "c < length conns" "conns ! c = Releasing b"
    "\<And>a. \<not> holds a r" "pc_board r = Some b \<or> pc_board r = None"
  shows "\<And>a. a \<noteq> b \<Longrightarrow> holders a (conns[c := r]) = holders a conns"
    "holders b conns = Suc (holders b (conns[c := r]))"
    "b < length ids"
    "\<And>q a. q \<in> set (conns[c := r]) \<Longrightarrow> pc_board q = Some a \<Longrightarrow> a < length ids"
    "\<And>q a. q \<in> set (conns[c := r]) \<Longrightarrow> holds a q \<Longrightarrow> \<not> closing \<Longrightarrow> registered boards a"
    "\<And>bid e. gomap_get boards bid = Some e \<Longrightarrow> e_board e = b \<Longrightarrow> bid = ids ! b"
proof -
  note D = registry_invD [OF assms(1)]
  have rel: "Releasing b \<in> set conns" using assms(2,3) nth_mem by fastforce
  show "holders a (conns[c := r]) = holders a conns" if "a \<noteq> b" for a
    using holders_same [OF assms(2), of a r] assms(3,4) that by simp
  show "holders b conns = Suc (holders b (conns[c := r]))"
    using holders_update [OF assms(2), of b r] assms(3,4) by simp
  show blt: "b < length ids" using D(4) [OF rel] by simp
  show "a < length ids" if "q \<in> set (conns[c := r])" "pc_board q = Some a" for q a
    using set_update_cases [OF that(1)] that(2) D(4) [of q a] blt assms(5) by auto
  show "registered boards a" if "q \<in> set (conns[c := r])" "holds a q" "\<not> closing" for q a
    using set_update_cases [OF that(1)] that(2,3) D(5) [of q a] assms(4) by auto
  show "bid = ids ! b" if "gomap_get boards bid = Some e" "e_board e = b" for bid e
    using D(2) [OF that(1)] that(2) by simp
qed

lemma registry_inv_release_last:
  assumes inv: "registry_inv boards conns ids quit fin False" and c: "c < length conns" "conns ! c = Releasing b"
    and e: "gomap_get boards (ids ! b) = Some e" "e_board e = b" "e_count e = 1"
  shows "registry_inv (gomap_del (ids ! b) boards) (conns[c := ClosingQuit b]) ids quit fin False"
proof -
  note D = registry_invD [OF inv] and R = releasing [OF inv c, of "ClosingQuit b", simplified]
  let ?boards = "gomap_del (ids ! b) boards"
  have old: "bid' \<noteq> ids ! b \<and> gomap_get boards bid' = Some e'" if "gomap_get ?boards bid' = Some e'" for bid' e'
    using that by (simp split: if_splits)
  have reg: "a \<noteq> b" "registered boards a" if "registered ?boards a" for a
    using that old R(6) unfolding registered_def by blast+
  have keep: "registered ?boards a" if "registered boards a" "a \<noteq> b" for a
  proof -
    obtain bid' e' where g: "gomap_get boards bid' = Some e'" "e_board e' = a"
      using \<open>registered boards a\<close> by (auto simp: registered_def)
    then have "bid' \<noteq> ids ! b" using e(1,2) \<open>a \<noteq> b\<close> by auto
    with g have "gomap_get ?boards bid' = Some e'" by simp
    with g(2) show ?thesis unfolding registered_def by blast
  qed
  have "holders b (conns[c := ClosingQuit b]) = 0" using R(2) D(2) [OF e(1)] e(2,3) by simp
  then have none: "\<not> holds b q" if "q \<in> set (conns[c := ClosingQuit b])" for q
    using that holders_pos [of b "conns[c := ClosingQuit b]"] by auto
  show ?thesis
  proof (rule registry_invI)
    fix bid' e' assume "gomap_get ?boards bid' = Some e'"
    then show "e_board e' < length ids \<and> ids ! e_board e' = bid' \<and>
        e_count e' = int (holders (e_board e') (conns[c := ClosingQuit b])) \<and>
        0 < holders (e_board e') (conns[c := ClosingQuit b])"
      using old D(2) [of bid' e'] R(1) [of "e_board e'"] R(6) by metis
  next
    fix q a assume "q \<in> set (conns[c := ClosingQuit b])" "holds a q"
    then show "registered ?boards a" using none R(5) keep by blast
  next
    fix a assume "ClosingQuit a \<in> set (conns[c := ClosingQuit b])"
    then show "\<not> registered ?boards a" using set_update_cases D(6) [of a] reg by fastforce
  next
    fix a assume "a \<in> quit"
    then show "a < length ids \<and> \<not> registered ?boards a" using D(7) [of a] reg(2) [of a] by blast
  qed (use D R(4) in auto)
qed

lemma registry_inv_release_more:
  assumes inv: "registry_inv boards conns ids quit fin False" and c: "c < length conns" "conns ! c = Releasing b"
    and e: "gomap_get boards (ids ! b) = Some e" "e_board e = b" "e_count e \<noteq> 1"
  shows "registry_inv (gomap_put (ids ! b) (e\<lparr>e_count := e_count e - 1\<rparr>) boards) (conns[c := Unregistering b])
    ids quit fin False"
proof -
  note D = registry_invD [OF inv] and R = releasing [OF inv c, of "Unregistering b", simplified]
  let ?boards = "gomap_put (ids ! b) (e\<lparr>e_count := e_count e - 1\<rparr>) boards"
  have reg: "registered ?boards a \<longleftrightarrow> registered boards a" for a
    using e by (auto simp: registered_def) (metis option.inject)
  show ?thesis
  proof (rule registry_invI)
    fix bid' e' assume g: "gomap_get ?boards bid' = Some e'"
    show "e_board e' < length ids \<and> ids ! e_board e' = bid' \<and>
        e_count e' = int (holders (e_board e') (conns[c := Unregistering b])) \<and>
        0 < holders (e_board e') (conns[c := Unregistering b])"
    proof (cases "bid' = ids ! b")
      case True
      then have "e' = e\<lparr>e_count := e_count e - 1\<rparr>" using g by simp
      then show ?thesis using True D(2) [OF e(1)] R(2,3) e(2,3) by auto
    next
      case False
      then have "gomap_get boards bid' = Some e'" using g by simp
      moreover from this False have "e_board e' \<noteq> b" using R(6) by blast
      ultimately show ?thesis using D(2) [of bid' e'] R(1) [of "e_board e'"] by simp
    qed
  next
    fix a assume "ClosingQuit a \<in> set (conns[c := Unregistering b])"
    then show "\<not> registered ?boards a" using set_update_cases D(6) [of a] reg by fastforce
  qed (use D R(4,5) reg in auto)
qed

lemma registry_inv_release:
  assumes "registry_ok h" "at_pc h c (Releasing b)" "release b h = (p, h')"
  shows "registry_ok (goto_pc c p h')"
proof (cases "h_closing h")
  case True
  note D = registry_invD [OF assms(1)]
  have e: "h_boards h = []" using True D(3) by simp
  then have p: "p = Finishing" "h' = h" using assms(3) by (simp_all add: release_def)
  have c: "c < length (h_conns h)" "h_conns h ! c = Releasing b" using assms(2) by simp_all
  note R = releasing [OF assms(1) c, of Finishing, simplified]
  have "registry_inv [] ((h_conns h)[c := Finishing]) (h_ids h) (set (h_quit h)) (set (h_done h)) True"
    by (rule registry_invI) (use D R(4) in \<open>auto simp: registered_def\<close>)
  with True p e show ?thesis by simp
next
  case False
  note D = registry_invD [OF assms(1)]
  have c: "c < length (h_conns h)" "h_conns h ! c = Releasing b" "Releasing b \<in> set (h_conns h)"
    using assms(2) by (auto dest: nth_mem)
  obtain e where e: "gomap_get (h_boards h) (h_ids h ! b) = Some e" "e_board e = b"
    using D(5) [OF c(3), of b] D(2) False by (auto simp: registered_def)
  have inv: "registry_inv (h_boards h) (h_conns h) (h_ids h) (set (h_quit h)) (set (h_done h)) False"
    using assms(1) False by simp
  show ?thesis
  proof (cases "e_count e = 1")
    case True
    with registry_inv_release_last [OF inv c(1,2) e] assms(3) e False show ?thesis
      by (auto simp: release_def Let_def)
  next
    case nz: False
    with registry_inv_release_more [OF inv c(1,2) e] assms(3) e False show ?thesis
      by (auto simp: release_def Let_def)
  qed
qed

lemma registry_inv_quit:
  assumes "registry_inv boards conns ids quit fin closing" "b < length ids" "\<not> registered boards b"
  shows "registry_inv boards conns ids (insert b quit) fin closing"
  by (rule registry_invI) (use assms(2,3) registry_invD [OF assms(1)] in auto)

lemma registry_inv_done:
  assumes "registry_inv boards conns ids quit fin closing" "b \<in> quit"
  shows "registry_inv boards conns ids quit (insert b fin) closing"
  by (rule registry_invI) (use assms(2) registry_invD [OF assms(1)] in auto)

text \<open>The other invariants: sessions are counted, shutdown knows what it closes.\<close>

definition sessions_ok :: "Hub \<Rightarrow> bool" where
  "sessions_ok h \<longleftrightarrow> h_sessions h = int (length (filter in_session (h_conns h)))"

definition drain_ok :: "Hub \<Rightarrow> bool" where
  "drain_ok h \<longleftrightarrow>
     h_closing h = (h_shutdown h \<noteq> NotCalled) \<and>
     (\<forall>b \<in> set (h_draining h). b < length (h_ids h)) \<and>
     (case h_shutdown h of
        NotCalled \<Rightarrow> h_draining h = []
      | TellingQuit bs \<Rightarrow> set bs \<subseteq> set (h_draining h) \<and> set (h_draining h) \<subseteq> set bs \<union> set (h_quit h)
      | WaitingBoards bs \<Rightarrow> set (h_draining h) \<subseteq> set bs \<union> set (h_done h) \<and> set (h_draining h) \<subseteq> set (h_quit h)
      | WaitingSessions \<Rightarrow> set (h_draining h) \<subseteq> set (h_done h)
      | Drained \<Rightarrow> set (h_draining h) \<subseteq> set (h_done h) \<and> h_sessions h = 0
      | Expired \<Rightarrow> set (h_draining h) \<subseteq> set (h_quit h))"

definition hub_ok :: "Hub \<Rightarrow> bool" where
  "hub_ok h \<longleftrightarrow> registry_ok h \<and> sessions_ok h \<and> drain_ok h"

lemma sessions_update:
  assumes "sessions_ok h" "at_pc h c q" "h_conns h' = (h_conns h)[c := p]"
    "h_sessions h' = h_sessions h - (if in_session q then 1 else 0) + (if in_session p then 1 else 0)"
  shows "sessions_ok h'"
  using assms length_filter_update [of c "h_conns h" in_session p]
  by (auto simp: sessions_ok_def split: if_splits)

lemma sessions_same: "sessions_ok h \<Longrightarrow> h_conns h' = h_conns h \<Longrightarrow> h_sessions h' = h_sessions h \<Longrightarrow> sessions_ok h'"
  by (simp add: sessions_ok_def)

lemma release_cases:
  assumes "release b h = (p, h')"
  shows "p = Finishing \<or> p = ClosingQuit b \<or> p = Unregistering b"
    "h_conns h' = h_conns h" "h_sessions h' = h_sessions h" "h_ids h' = h_ids h" "h_quit h' = h_quit h"
    "h_done h' = h_done h" "h_closing h' = h_closing h" "h_members h' = h_members h" "h_shutdown h' = h_shutdown h"
    "h_draining h' = h_draining h" "h_events h' = h_events h"
  using assms by (auto simp: release_def Let_def split: option.splits if_splits)

lemma serve_begin_cases:
  obtains (rejected) "h_closing h" "serve_begin bid h = h\<lparr>h_conns := h_conns h @ [Rejected]\<rparr>"
  | (admitted) b where "\<not> h_closing h" "h_conns (serve_begin bid h) = h_conns h @ [Registering b]"
      "h_sessions (serve_begin bid h) = h_sessions h + 1" "h_quit (serve_begin bid h) = h_quit h"
      "h_done (serve_begin bid h) = h_done h" "h_closing (serve_begin bid h) = h_closing h"
      "h_members (serve_begin bid h) = h_members h" "h_shutdown (serve_begin bid h) = h_shutdown h"
      "h_draining (serve_begin bid h) = h_draining h"
      "h_ids (serve_begin bid h) = h_ids h \<and> h_events (serve_begin bid h) = h_events h @ [ConnOpened] \<or>
       h_ids (serve_begin bid h) = h_ids h @ [bid] \<and> h_events (serve_begin bid h) = h_events h @ [BoardOpened, ConnOpened]"
proof (cases "h_closing h")
  case True
  then show thesis by (intro rejected) (simp_all add: serve_begin_def beginSession_def)
next
  case False
  then show thesis
    by (cases "gomap_get (h_boards h) bid")
      (rule admitted [of "length (h_ids h)"], simp_all add: serve_begin_def beginSession_def Let_def,
       rule admitted, simp_all add: serve_begin_def beginSession_def Let_def)
qed

section \<open>Every step keeps the invariant\<close>

lemma registry_ok_step:
  assumes "hub_step h h'" "registry_ok h" "drain_ok h"
  shows "registry_ok h'"
  using assms
proof cases
  case (serve bid)
  then show ?thesis using assms(2) registry_inv_serve by simp
next
  case (register c b)
  then show ?thesis using registry_inv_goto [OF assms(2), of c "Serving b"] by simp
next
  case (serve_end c b)
  then show ?thesis using registry_inv_goto [OF assms(2), of c "Releasing b"] by simp
next
  case (release c b p h1)
  then show ?thesis using registry_inv_release [OF assms(2)] by simp
next
  case (close_quit c b)
  have "ClosingQuit b \<in> set (h_conns h)" using close_quit nth_mem by metis
  then have "b < length (h_ids h)" "\<not> registered (h_boards h) b"
    using registry_invD(4,6) [OF assms(2)] by (metis pc_board.simps(4), blast)
  from registry_inv_quit [OF registry_inv_goto [OF assms(2), of c Finishing] this] close_quit
  show ?thesis by simp
next
  case (unregister c b)
  then show ?thesis using registry_inv_goto [OF assms(2), of c Finishing] by simp
next
  case (unregister_done c b)
  then show ?thesis using registry_inv_goto [OF assms(2), of c Finishing] by simp
next
  case (finish c)
  then show ?thesis using registry_inv_goto [OF assms(2), of c Returned] by simp
next
  case (board_returns b)
  then show ?thesis using registry_inv_done [OF assms(2), of b] by simp
next
  case shutdown
  note D = registry_invD [OF assms(2)]
  have "registry_inv [] (h_conns h) (h_ids h) (set (h_quit h)) (set (h_done h)) True"
    by (rule registry_invI) (use D in \<open>auto simp: registered_def\<close>)
  with shutdown assms(2) show ?thesis by (cases "h_closing h") (simp_all add: Shutdown_def)
next
  case (tell_quit b bs)
  then have "b < length (h_ids h)" "h_closing h" using assms(3) by (auto simp: drain_ok_def)
  moreover from this have "\<not> registered (h_boards h) b"
    using registry_invD(3) [OF assms(2)] by (simp add: registered_def)
  ultimately show ?thesis using registry_inv_quit [OF assms(2), of b] tell_quit by simp
qed (use assms(2) in simp_all)

lemma sessions_ok_step:
  assumes "hub_step h h'" "sessions_ok h"
  shows "sessions_ok h'"
  using assms
proof cases
  case (serve bid)
  then show ?thesis
    using assms(2) by (cases rule: serve_begin_cases [of h bid]) (auto simp: sessions_ok_def)
next
  case (register c b)
  then show ?thesis by (intro sessions_update [OF assms(2), of c "Registering b" _ "Serving b"]) auto
next
  case (serve_end c b)
  then show ?thesis by (intro sessions_update [OF assms(2), of c "Serving b" _ "Releasing b"]) auto
next
  case (release c b p h1)
  then show ?thesis
    using release_cases [OF release(3)] by (intro sessions_update [OF assms(2), of c "Releasing b" _ p]) auto
next
  case (close_quit c b)
  then show ?thesis by (intro sessions_update [OF assms(2), of c "ClosingQuit b" _ Finishing]) auto
next
  case (unregister c b)
  then show ?thesis by (intro sessions_update [OF assms(2), of c "Unregistering b" _ Finishing]) auto
next
  case (unregister_done c b)
  then show ?thesis by (intro sessions_update [OF assms(2), of c "Unregistering b" _ Finishing]) auto
next
  case (finish c)
  then show ?thesis by (intro sessions_update [OF assms(2), of c Finishing _ Returned]) auto
next
  case shutdown
  then show ?thesis using assms(2) by (auto simp: Shutdown_def sessions_ok_def)
qed (use assms(2) in \<open>auto simp: sessions_ok_def del_member_def\<close>)

text \<open>No step but the last of a session changes the count once the hub is closing.\<close>

lemma no_sessions:
  "sessions_ok h \<Longrightarrow> h_sessions h = 0 \<Longrightarrow> p \<in> set (h_conns h) \<Longrightarrow> p = Rejected \<or> p = Returned"
  by (cases p) (auto simp: sessions_ok_def filter_empty_conv)

lemma drain_ok_step:
  assumes "hub_step h h'" "registry_ok h" "sessions_ok h" "drain_ok h"
  shows "drain_ok h'"
  using assms(1)
proof cases
  case (serve bid)
  then show ?thesis
    using assms(4) by (cases rule: serve_begin_cases [of h bid]) (auto simp: drain_ok_def split: shutdown_pc.splits)
next
  case (release c b p h1)
  then show ?thesis
    using release_cases [OF release(3)] assms(4) by (auto simp: drain_ok_def split: shutdown_pc.splits)
next
  case (finish c)
  then have "h_shutdown h \<noteq> Drained"
    using no_sessions [OF assms(3)] assms(4) nth_mem by (fastforce simp: drain_ok_def)
  with finish assms(4) show ?thesis by (auto simp: drain_ok_def split: shutdown_pc.splits)
next
  case shutdown
  have "e_board (snd x) < length (h_ids h)" if "x \<in> set (h_boards h)" for x
    using registry_invD(1,2) [OF assms(2)] that by (cases x) (auto simp: gomap_get_iff [symmetric])
  with shutdown assms(4) show ?thesis by (auto simp: Shutdown_def drain_ok_def split: shutdown_pc.splits)
next
  case (ctx_done)
  then show ?thesis
    using assms(4) registry_invD(8) [OF assms(2)] by (auto simp: drain_ok_def split: shutdown_pc.splits)
qed (use assms(4) in \<open>auto simp: drain_ok_def split: shutdown_pc.splits\<close>)

lemma hub_ok_New: "hub_ok (New s)"
  by (simp add: hub_ok_def registry_inv_def sessions_ok_def drain_ok_def New_def registered_def)

lemma hub_ok_step [keeps_inv]: "hub_step h h' \<Longrightarrow> hub_ok h \<Longrightarrow> hub_ok h'"
  unfolding hub_ok_def using registry_ok_step sessions_ok_step drain_ok_step by blast

lemma hub_reach_ok: "hub_reach s h \<Longrightarrow> hub_ok h"
  by (induction rule: hub_reach.induct) (auto simp: hub_ok_New intro: hub_ok_step)

section \<open>Boards and their members\<close>

text \<open>Boards \<^verbatim>\<open>Shutdown\<close> has taken from the registry and not yet told to quit.\<close>

definition untold :: "Hub \<Rightarrow> nat set" where
  "untold h = (case h_shutdown h of TellingQuit bs \<Rightarrow> set bs | _ \<Rightarrow> {})"

definition members_ok :: "Hub \<Rightarrow> bool" where
  "members_ok h \<longleftrightarrow>
     (\<forall>b. \<forall>c \<in> set (h_members h b). c < length (h_conns h) \<and> b \<notin> set (h_done h) \<and>
        (pc_board (h_conns h ! c) = Some b \<or> b \<in> set (h_quit h) \<union> untold h))"

definition held_ok :: "Hub \<Rightarrow> bool" where
  "held_ok h \<longleftrightarrow> (h_closing h \<longrightarrow> (\<forall>p \<in> set (h_conns h). \<forall>b. holds b p \<longrightarrow> b \<in> set (h_draining h)))"

definition boards_ok :: "Hub \<Rightarrow> bool" where
  "boards_ok h \<longleftrightarrow>
     (\<forall>b < length (h_ids h). registered (h_boards h) b \<or> b \<in> set (h_quit h) \<union> untold h \<or>
        ClosingQuit b \<in> set (h_conns h))"

lemma drained_told:
  assumes "hub_ok h"
  shows "set (h_draining h) \<subseteq> set (h_quit h) \<union> untold h"
proof -
  have "registry_ok h" using assms by (simp add: hub_ok_def)
  then have "set (h_done h) \<subseteq> set (h_quit h)" by (rule registry_invD(8))
  with assms show ?thesis
    by (cases "h_shutdown h") (auto simp: hub_ok_def drain_ok_def untold_def)
qed

lemma untold_open: "hub_ok h \<Longrightarrow> \<not> h_closing h \<Longrightarrow> untold h = {}"
  by (auto simp: hub_ok_def drain_ok_def untold_def split: shutdown_pc.splits)

lemma held_ok_step:
  assumes "hub_step h h'" "hub_ok h" "held_ok h"
  shows "held_ok h'"
  using assms(1)
proof cases
  case (serve bid)
  then show ?thesis
    using assms(3) by (cases rule: serve_begin_cases [of h bid]) (auto simp: held_ok_def)
next
  case (release c b p h1)
  then show ?thesis
    using release_cases [OF release(3)] assms(3) by (auto simp: held_ok_def dest!: set_update_cases)
next
  case shutdown
  have "b \<in> e_board ` snd ` set (h_boards h)" if "p \<in> set (h_conns h)" "holds b p" "\<not> h_closing h" for p b
    using registry_invD(1,5) [of "h_boards h" "h_conns h" "h_ids h" "set (h_quit h)" "set (h_done h)" "h_closing h"]
      assms(2) that by (force simp: hub_ok_def registered_def gomap_get_iff)
  with shutdown assms(3) show ?thesis by (auto simp: held_ok_def Shutdown_def image_image)
next
  case (register c b)
  then show ?thesis using assms(3) nth_mem [of c "h_conns h"] by (auto simp: held_ok_def dest!: set_update_cases)
next
  case (serve_end c b)
  then show ?thesis using assms(3) nth_mem [of c "h_conns h"] by (auto simp: held_ok_def dest!: set_update_cases)
qed (use assms(3) in \<open>auto simp: held_ok_def dest!: set_update_cases\<close>)

lemma in_set_update: "q \<in> set xs \<Longrightarrow> xs ! c \<noteq> q \<Longrightarrow> q \<in> set (xs[c := p])"
  by (metis in_set_conv_nth length_list_update nth_list_update_neq)

lemma serve_registered:
  "registered (h_boards h) b \<Longrightarrow> registered (h_boards (serve_begin bid h)) b"
  "b < length (h_ids (serve_begin bid h)) \<Longrightarrow> \<not> b < length (h_ids h) \<Longrightarrow>
    registered (h_boards (serve_begin bid h)) b"
proof -
  assume "registered (h_boards h) b"
  then obtain bid' e where e: "gomap_get (h_boards h) bid' = Some e" "e_board e = b" by (auto simp: registered_def)
  then have "\<exists>e'. gomap_get (h_boards (serve_begin bid h)) bid' = Some e' \<and> e_board e' = b"
    by (auto simp: serve_begin_def beginSession_def Let_def split: option.splits)
  then show "registered (h_boards (serve_begin bid h)) b" by (auto simp: registered_def)
next
  assume "b < length (h_ids (serve_begin bid h))" "\<not> b < length (h_ids h)"
  then have "gomap_get (h_boards (serve_begin bid h)) bid = Some \<lparr>e_board = b, e_count = 1\<rparr>"
    by (auto simp: serve_begin_def beginSession_def Let_def less_Suc_eq split: option.splits if_splits)
  then show "registered (h_boards (serve_begin bid h)) b" unfolding registered_def by fastforce
qed

lemma release_registered:
  assumes "release b h = (p, h')" "registered (h_boards h) a"
  shows "registered (h_boards h') a \<or> a = b \<and> p = ClosingQuit b"
proof -
  obtain bid' e where e: "gomap_get (h_boards h) bid' = Some e" "e_board e = a"
    using assms(2) by (auto simp: registered_def)
  have "(\<exists>e'. gomap_get (h_boards h') bid' = Some e' \<and> e_board e' = a) \<or> a = b \<and> p = ClosingQuit b"
    using assms(1) e by (auto simp: release_def Let_def split: option.splits if_splits)
  then show ?thesis by (auto simp: registered_def)
qed

lemma boards_ok_step:
  assumes "hub_step h h'" "boards_ok h" "hub_ok h"
  shows "boards_ok h'"
  using assms(1)
proof cases
  case (serve bid)
  have u: "untold (serve_begin bid h) = untold h" "h_quit (serve_begin bid h) = h_quit h"
    and sub: "set (h_conns h) \<subseteq> set (h_conns (serve_begin bid h))"
    by (cases rule: serve_begin_cases [of h bid]; auto simp: untold_def)+
  show ?thesis
    using sub assms(2) serve_registered [where h = h and bid = bid] unfolding serve(1) boards_ok_def u by blast
next
  case (register c b)
  then show ?thesis using assms(2) by (auto simp: boards_ok_def untold_def intro!: in_set_update)
next
  case (serve_end c b)
  then show ?thesis using assms(2) by (auto simp: boards_ok_def untold_def intro!: in_set_update)
next
  case (release c b p h1)
  have p: "p \<in> set ((h_conns h)[c := p])" using release(2) by (simp add: set_update_memI)
  have keep: "ClosingQuit a \<in> set ((h_conns h)[c := p])" if "ClosingQuit a \<in> set (h_conns h)" for a
    using release(2) that by (intro in_set_update) auto
  have u: "untold (goto_pc c p h1) = untold h" "h_quit (goto_pc c p h1) = h_quit h"
    "h_conns (goto_pc c p h1) = (h_conns h)[c := p]" "h_ids (goto_pc c p h1) = h_ids h"
    "h_boards (goto_pc c p h1) = h_boards h1"
    using release_cases [OF release(3)] by (simp_all add: untold_def)
  show ?thesis
    using assms(2) keep p release_registered [OF release(3)] unfolding release(1) boards_ok_def u by metis
next
  case (close_quit c b)
  have "ClosingQuit a \<in> set ((h_conns h)[c := Finishing])" if "ClosingQuit a \<in> set (h_conns h)" "a \<noteq> b" for a
    using close_quit(2) that by (intro in_set_update) auto
  with close_quit assms(2) show ?thesis by (auto simp: boards_ok_def untold_def)
next
  case (unregister c b)
  then show ?thesis using assms(2) by (auto simp: boards_ok_def untold_def intro!: in_set_update)
next
  case (unregister_done c b)
  then show ?thesis using assms(2) by (auto simp: boards_ok_def untold_def intro!: in_set_update)
next
  case (finish c)
  then show ?thesis using assms(2) by (auto simp: boards_ok_def untold_def intro!: in_set_update)
next
  case shutdown
  have "b \<in> e_board ` snd ` set (h_boards h)" if "registered (h_boards h) b" for b
    using that by (auto simp: registered_def image_iff dest!: map_of_SomeD) (metis snd_conv)
  with shutdown assms(2) untold_open [OF assms(3)] show ?thesis by (cases "h_closing h") (auto simp: boards_ok_def Shutdown_def untold_def image_image)
qed (use assms(2) in \<open>auto simp: boards_ok_def untold_def h_emit_def\<close>)

text \<open>A goto that changes no field the members depend on.\<close>

lemma members_ok_goto:
  assumes "members_ok h" "at_pc h c q" "h_members h' = h_members h" "h_conns h' = (h_conns h)[c := p]"
    "h_done h' = h_done h" "set (h_quit h) \<union> untold h \<subseteq> set (h_quit h') \<union> untold h'"
    "\<And>b. pc_board q = Some b \<Longrightarrow> pc_board p = Some b \<or> b \<in> set (h_quit h') \<union> untold h' \<or> c \<notin> set (h_members h b)"
  shows "members_ok h'"
proof -
  have "d < length (h_conns h') \<and> b \<notin> set (h_done h') \<and>
      (pc_board (h_conns h' ! d) = Some b \<or> b \<in> set (h_quit h') \<union> untold h')"
    if "d \<in> set (h_members h' b)" for b d
  proof -
    have d: "d < length (h_conns h)" "b \<notin> set (h_done h)"
      "pc_board (h_conns h ! d) = Some b \<or> b \<in> set (h_quit h) \<union> untold h"
      using assms(1,3) that unfolding members_ok_def by auto
    then show ?thesis
      using assms(2,4-7) that assms(3) by (cases "d = c") auto
  qed
  then show ?thesis unfolding members_ok_def by blast
qed

lemma members_ok_step:
  assumes "hub_step h h'" "hub_ok h" "held_ok h" "members_ok h"
  shows "members_ok h'"
  using assms(1)
proof cases
  case (serve bid)
  have u: "untold (serve_begin bid h) = untold h" "h_members (serve_begin bid h) = h_members h"
    "h_done (serve_begin bid h) = h_done h" "h_quit (serve_begin bid h) = h_quit h"
    by (cases rule: serve_begin_cases [of h bid]; simp add: untold_def)+
  obtain p where "h_conns (serve_begin bid h) = h_conns h @ [p]"
    by (cases rule: serve_begin_cases [of h bid]) auto
  with u serve assms(4) show ?thesis by (auto simp: members_ok_def nth_append intro: less_SucI)
next
  case (register c b)
  have *: "members_ok (goto_pc c (Serving b) h)"
    using register by (intro members_ok_goto [OF assms(4), of c "Registering b" _ "Serving b"]) (auto simp: untold_def)
  have "members_ok (add_member b c (goto_pc c (Serving b) h))"
    using * register by (auto simp: members_ok_def add_member_def untold_def)
  moreover have "add_member b c (goto_pc c (Serving b) h) = goto_pc c (Serving b) (add_member b c h)"
    by (simp add: add_member_def goto_pc_def)
  ultimately show ?thesis using register by simp
next
  case (kick c b)
  then show ?thesis using assms(4) by (auto simp: members_ok_def del_member_def untold_def)
next
  case (serve_end c b)
  then show ?thesis
    by (intro members_ok_goto [OF assms(4), of c "Serving b" _ "Releasing b"]) (auto simp: untold_def)
next
  case (release c b p h1)
  have "b \<in> set (h_quit h) \<union> untold h" if "p = Finishing"
  proof -
    have "Releasing b \<in> set (h_conns h)" using release(2) nth_mem by metis
    moreover have "h_closing h"
    proof (rule ccontr)
      assume o: "\<not> h_closing h"
      have r: "registry_ok h" using assms(2) by (simp add: hub_ok_def)
      obtain e where "gomap_get (h_boards h) (h_ids h ! b) = Some e" "e_board e = b"
        using registry_invD(5) [OF r calculation _ o, of b] registry_invD(2) [OF r] by (auto simp: registered_def)
      then show False using that release(3) by (auto simp: release_def Let_def split: if_splits)
    qed
    ultimately have "b \<in> set (h_draining h)" using assms(3) unfolding held_ok_def by (meson holds.simps(3))
    then show ?thesis using drained_told [OF assms(2)] by blast
  qed
  then show ?thesis
    using release release_cases [OF release(3)]
    by (intro members_ok_goto [OF assms(4), of c "Releasing b" _ p]) (auto simp: untold_def)
next
  case (close_quit c b)
  then show ?thesis
    by (intro members_ok_goto [OF assms(4), of c "ClosingQuit b" _ Finishing]) (auto simp: untold_def)
next
  case (unregister c b)
  have "members_ok (del_member b c h)" using assms(4) by (auto simp: members_ok_def del_member_def untold_def)
  from members_ok_goto [OF this, of c "Unregistering b" h' Finishing] unregister show ?thesis
    by (simp add: untold_def) (simp add: del_member_def)
next
  case (unregister_done c b)
  have "c \<notin> set (h_members h b)" using assms(4) unregister_done(3) by (auto simp: members_ok_def)
  then show ?thesis
    using unregister_done by (intro members_ok_goto [OF assms(4), of c "Unregistering b" _ Finishing]) (auto simp: untold_def)
next
  case (finish c)
  then show ?thesis
    by (intro members_ok_goto [OF assms(4), of c Finishing _ Returned]) (auto simp: untold_def)
next
  case (board_returns b)
  then show ?thesis using assms(4) by (auto simp: members_ok_def untold_def h_emit_def)
next
  case shutdown
  then show ?thesis
    using assms(2,4) by (auto simp: members_ok_def untold_def Shutdown_def hub_ok_def drain_ok_def split: shutdown_pc.splits)
next
  case ctx_done
  then have "untold h = {}" "untold h' = {}" by (auto simp: untold_def)
  with ctx_done(1) assms(4) show ?thesis unfolding members_ok_def by simp
qed (use assms(4) in \<open>auto simp: members_ok_def untold_def\<close>)

lemma hub_reach_boards: "hub_reach s h \<Longrightarrow> held_ok h \<and> boards_ok h \<and> members_ok h"
proof (induction rule: hub_reach.induct)
  case start
  show ?case by (simp add: New_def held_ok_def boards_ok_def members_ok_def)
next
  case (step h h')
  then show ?case
    using hub_reach_ok [OF step(1)] held_ok_step [OF step(2)] boards_ok_step [OF step(2)] members_ok_step [OF step(2)]
    by blast
qed

section \<open>Gauges\<close>

fun connected :: "serve_pc \<Rightarrow> bool" where
  "connected (Registering b) = True"
| "connected (Serving b) = True"
| "connected _ = False"

definition gauges_ok :: "Hub \<Rightarrow> bool" where
  "gauges_ok h \<longleftrightarrow>
     activeBoards (scrape (h_events h)) = int (length (h_ids h)) - int (length (h_done h)) \<and>
     activeConns (scrape (h_events h)) = int (length (filter connected (h_conns h)))"

lemma scrape_two: "scrape (es @ [a, b]) = prometheus (prometheus (scrape es) a) b"
  using scrape_snoc [of "es @ [a]" b] by simp

lemma gauges_goto:
  assumes "gauges_ok h" "at_pc h c q" "connected q = connected p" "h_conns h' = (h_conns h)[c := p]"
    "h_ids h' = h_ids h" "h_done h' = h_done h" "h_events h' = h_events h"
  shows "gauges_ok h'"
  using assms length_filter_update [of c "h_conns h" connected p]
  by (auto simp: gauges_ok_def split: if_splits)

lemma gauges_ok_step:
  assumes "hub_step h h'" "gauges_ok h"
  shows "gauges_ok h'"
  using assms(1)
proof cases
  case (serve bid)
  then show ?thesis
    using assms(2) by (cases rule: serve_begin_cases [of h bid]) (auto simp: gauges_ok_def scrape_two)
next
  case (register c b)
  then show ?thesis by (intro gauges_goto [OF assms(2), of c "Registering b" "Serving b"]) auto
next
  case (serve_end c b)
  then show ?thesis
    using assms(2) length_filter_update [of c "h_conns h" connected "Releasing b"] by (auto simp: gauges_ok_def)
next
  case (release c b p h1)
  then show ?thesis
    using release_cases [OF release(3)] by (intro gauges_goto [OF assms(2), of c "Releasing b" p]) auto
next
  case (close_quit c b)
  then show ?thesis by (intro gauges_goto [OF assms(2), of c "ClosingQuit b" Finishing]) auto
next
  case (unregister c b)
  then show ?thesis by (intro gauges_goto [OF assms(2), of c "Unregistering b" Finishing]) auto
next
  case (unregister_done c b)
  then show ?thesis by (intro gauges_goto [OF assms(2), of c "Unregistering b" Finishing]) auto
next
  case (finish c)
  then show ?thesis by (intro gauges_goto [OF assms(2), of c Finishing Returned]) auto
qed (use assms(2) in \<open>auto simp: gauges_ok_def Shutdown_def\<close>)

lemma gauges_ok_New: "gauges_ok (New s)"
  by (simp add: New_def gauges_ok_def scrape_def NewPrometheus_def)

lemma hub_reach_gauges: "hub_reach s h \<Longrightarrow> gauges_ok h"
  by (induction rule: hub_reach.induct) (auto intro: gauges_ok_New gauges_ok_step)

section \<open>Joins in flight\<close>

text \<open>While the hub is open, the board a client is about to register with is running.\<close>

lemma registering_open:
  assumes "hub_ok h" "\<not> h_closing h" "at_pc h c (Registering b)"
  shows "b \<notin> set (h_quit h)" "b \<notin> set (h_done h)"
proof -
  have r: "registry_ok h" using assms(1) by (simp add: hub_ok_def)
  have "Registering b \<in> set (h_conns h)" using assms(3) nth_mem by metis
  then have "registered (h_boards h) b" using registry_invD(5) [OF r _ _ assms(2)] by simp
  then show "b \<notin> set (h_quit h)" "b \<notin> set (h_done h)" using registry_invD(7,8) [OF r] by blast+
qed

text \<open>A connection whose board has returned before it could register is stuck for good.\<close>

definition stranded :: "Hub \<Rightarrow> nat \<Rightarrow> nat \<Rightarrow> bool" where
  "stranded h c b \<longleftrightarrow> at_pc h c (Registering b) \<and> b \<in> set (h_done h)"

lemma stranded_goto:
  "stranded h c b \<Longrightarrow> at_pc h d q \<Longrightarrow> q \<noteq> Registering b \<Longrightarrow> h_conns h' = (h_conns h)[d := p] \<Longrightarrow>
    h_done h' = h_done h \<Longrightarrow> stranded h' c b"
  by (auto simp: stranded_def nth_list_update)

lemma stranded_step:
  assumes "hub_step h h'" "stranded h c b"
  shows "stranded h' c b"
  using assms(1)
proof cases
  case (serve bid)
  then show ?thesis
    using assms(2) by (cases rule: serve_begin_cases [of h bid]) (auto simp: stranded_def nth_append)
next
  case (register d a)
  then have "a \<noteq> b" using assms(2) by (auto simp: stranded_def)
  then show ?thesis using register by (intro stranded_goto [OF assms(2), of d "Registering a"]) auto
next
  case (release d a p h1)
  then show ?thesis
    using release_cases [OF release(3)] by (intro stranded_goto [OF assms(2), of d "Releasing a"]) auto
next
  case (board_returns a)
  then show ?thesis using assms(2) by (auto simp: stranded_def h_emit_def)
qed (use assms(2) in \<open>auto simp: stranded_def Shutdown_def nth_list_update\<close>)

lemma stranded_reach:
  "hub_step\<^sup>*\<^sup>* h h' \<Longrightarrow> stranded h c b \<Longrightarrow> stranded h' c b"
  by (induction rule: rtranclp_induct) (auto intro: stranded_step)

lemma hub_reach_steps: "hub_step\<^sup>*\<^sup>* h h' \<Longrightarrow> hub_reach s h \<Longrightarrow> hub_reach s h'"
  by (induction rule: rtranclp_induct) (auto intro: hub_reach.step)

lemma stranded_not_drained: "hub_ok h \<Longrightarrow> stranded h c b \<Longrightarrow> h_shutdown h \<noteq> Drained"
  using no_sessions [of h "Registering b"] nth_mem by (fastforce simp: hub_ok_def drain_ok_def stranded_def)

text \<open>Every session but a stranded one can take its next step.\<close>

fun rank :: "serve_pc \<Rightarrow> nat" where
  "rank (Registering b) = 5"
| "rank (Serving b) = 4"
| "rank (Releasing b) = 3"
| "rank (ClosingQuit b) = 2"
| "rank (Unregistering b) = 2"
| "rank Finishing = 1"
| "rank Returned = 0"
| "rank Rejected = 0"

lemma step_to:
  "hub_step h h' \<Longrightarrow> h_conns h' = (h_conns h)[c := p] \<Longrightarrow> c < length (h_conns h) \<Longrightarrow> rank p < rank (h_conns h ! c) \<Longrightarrow>
    \<exists>h'. hub_step h h' \<and> c < length (h_conns h') \<and> rank (h_conns h' ! c) < rank (h_conns h ! c)"
  by (metis length_list_update nth_list_update_eq)

lemma session_step:
  assumes "c < length (h_conns h)" "in_session (h_conns h ! c)"
    "\<And>b. h_conns h ! c = Registering b \<Longrightarrow> b \<notin> set (h_done h)"
  shows "\<exists>h'. hub_step h h' \<and> c < length (h_conns h') \<and> rank (h_conns h' ! c) < rank (h_conns h ! c)"
proof (cases "h_conns h ! c")
  case (Registering b)
  with assms(1,3) have "hub_step h (goto_pc c (Serving b) (add_member b c h))" by (intro hub_step.register) auto
  from step_to [OF this, of c "Serving b"] Registering assms(1) show ?thesis by simp
next
  case (Serving b)
  with assms(1) have "hub_step h (goto_pc c (Releasing b) (h_emit ConnClosed h))" by (intro hub_step.serve_end) auto
  from step_to [OF this, of c "Releasing b"] Serving assms(1) show ?thesis by simp
next
  case (Releasing b)
  obtain p h' where r: "release b h = (p, h')" by fastforce
  with Releasing assms(1) have "hub_step h (goto_pc c p h')" by (intro hub_step.release) auto
  from step_to [OF this, of c p] Releasing assms(1) release_cases(1,2) [OF r] show ?thesis by auto
next
  case (ClosingQuit b)
  with assms(1) have "hub_step h (goto_pc c Finishing (closeQuit b h))" by (intro hub_step.close_quit) auto
  from step_to [OF this, of c Finishing] ClosingQuit assms(1) show ?thesis by simp
next
  case (Unregistering b)
  with assms(1) have "hub_step h (goto_pc c Finishing (if b \<in> set (h_done h) then h else del_member b c h))"
    using hub_step.unregister_done [where h = h and c = c and b = b] hub_step.unregister [where h = h and c = c and b = b] by auto
  from step_to [OF this, of c Finishing] Unregistering assms(1) show ?thesis by simp
next
  case Finishing
  with assms(1) have "hub_step h (goto_pc c Returned (h\<lparr>h_sessions := h_sessions h - 1\<rparr>))" by (intro hub_step.finish) auto
  from step_to [OF this, of c Returned] Finishing assms(1) show ?thesis by simp
qed (use assms(2) in simp_all)

lemmas hub_eval = New_def serve_begin_def beginSession_def Let_def h_emit_def goto_pc_def closeQuit_def
  add_member_def del_member_def Shutdown_def release_def List.insert_def

section \<open>Two interleavings of Shutdown\<close>

text \<open>
  The hub is shut down between a client's admission and its registration: the board drains and
  returns, and the client's send on \<^verbatim>\<open>register\<close>, which has no other arm, never completes.
\<close>

definition late_register :: "bool \<Rightarrow> Hub" where
  "late_register s =
     (let h1 = serve_begin ''b'' (New s);
          h2 = Shutdown h1;
          h3 = (closeQuit 0 h2)\<lparr>h_shutdown := TellingQuit []\<rparr>;
          h4 = h_emit BoardClosed (h3\<lparr>h_members := (h_members h3)(0 := []), h_done := 0 # h_done h3\<rparr>);
          h5 = h4\<lparr>h_shutdown := WaitingBoards (h_draining h4)\<rparr>;
          h6 = h5\<lparr>h_shutdown := WaitingBoards []\<rparr>
      in h6\<lparr>h_shutdown := WaitingSessions\<rparr>)"

lemma late_register_reach: "hub_reach s (late_register s)"
  unfolding late_register_def Let_def
  apply (rule hub_reach.step [OF _ hub_step.boards_done])
   apply (rule hub_reach.step [OF _ hub_step.board_done [where b = 0]])
     apply (rule hub_reach.step [OF _ hub_step.told_quit])
      apply (rule hub_reach.step [OF _ hub_step.board_returns])
        apply (rule hub_reach.step [OF _ hub_step.tell_quit])
         apply (rule hub_reach.step [OF _ hub_step.shutdown])
         apply (rule hub_reach.step [OF hub_reach.start hub_step.serve])
        apply (simp_all add: hub_eval)
  done

lemma release_step:
  "at_pc h c (Releasing b) \<Longrightarrow> fst (release b h) = p \<Longrightarrow> hub_step h (goto_pc c p (snd (release b h)))"
  using hub_step.release [where p = p and h' = "snd (release b h)"] by (auto simp: prod_eq_iff)

text \<open>
  A board whose last client has left is out of the registry while it still runs, so \<^verbatim>\<open>Shutdown\<close>
  does not wait for it.
\<close>

definition late_checkpoint :: "bool \<Rightarrow> Hub" where
  "late_checkpoint s =
     (let h1 = serve_begin ''b'' (New s);
          h2 = goto_pc 0 (Serving 0) (add_member 0 0 h1);
          h3 = goto_pc 0 (Releasing 0) (h_emit ConnClosed h2);
          h4 = goto_pc 0 (ClosingQuit 0) (snd (release 0 h3));
          h5 = goto_pc 0 Finishing (closeQuit 0 h4);
          h6 = goto_pc 0 Returned (h5\<lparr>h_sessions := h_sessions h5 - 1\<rparr>);
          h7 = Shutdown h6;
          h8 = h7\<lparr>h_shutdown := WaitingBoards (h_draining h7)\<rparr>;
          h9 = h8\<lparr>h_shutdown := WaitingSessions\<rparr>
      in stopCoordinator (h9\<lparr>h_shutdown := Drained\<rparr>))"

lemma late_checkpoint_reach: "hub_reach s (late_checkpoint s)"
  unfolding late_checkpoint_def Let_def
  apply (rule hub_reach.step [OF _ hub_step.sessions_done])
    apply (rule hub_reach.step [OF _ hub_step.boards_done])
     apply (rule hub_reach.step [OF _ hub_step.told_quit])
      apply (rule hub_reach.step [OF _ hub_step.shutdown])
      apply (rule hub_reach.step [OF _ hub_step.finish])
       apply (rule hub_reach.step [OF _ hub_step.close_quit])
        apply (rule hub_reach.step [OF _ release_step])
          apply (rule hub_reach.step [OF _ hub_step.serve_end])
           apply (rule hub_reach.step [OF _ hub_step.register])
             apply (rule hub_reach.step [OF hub_reach.start hub_step.serve])
            apply (simp_all add: hub_eval)
  done

section \<open>After the shutdown\<close>

lemma coordinator_selectors [simp]:
  "h_stop (h_emit e h) = h_stop h" "h_stop (goto_pc c p h) = h_stop h" "h_stop (closeQuit b h) = h_stop h"
  "h_stop (add_member b c h) = h_stop h" "h_stop (del_member b c h) = h_stop h"
  by (simp_all add: h_emit_def goto_pc_def closeQuit_def add_member_def del_member_def)

lemma stopCoordinator_stops [simp]: "h_stop (stopCoordinator h) \<noteq> Some False"
  by (auto simp: stopCoordinator_def split: option.split)

lemma serve_begin_stop [simp]: "h_stop (serve_begin bid h) = h_stop h" "h_shutdown (serve_begin bid h) = h_shutdown h"
  by (simp_all add: serve_begin_def beginSession_def h_emit_def Let_def split: option.split)

lemma release_stop: "release b h = (p, h') \<Longrightarrow> h_stop h' = h_stop h \<and> h_shutdown h' = h_shutdown h"
  by (auto simp: release_def Let_def split: option.splits if_splits)

lemma stop_step:
  assumes "hub_step h h'" "h_shutdown h \<in> {Drained, Expired} \<Longrightarrow> h_stop h \<noteq> Some False"
    "h_shutdown h' \<in> {Drained, Expired}"
  shows "h_stop h' \<noteq> Some False"
  using assms by (cases rule: hub_step.cases) (auto simp: Shutdown_def dest: release_stop split: if_splits)

lemma hub_reach_stopped: "hub_reach s h \<Longrightarrow> h_shutdown h \<in> {Drained, Expired} \<Longrightarrow> h_stop h \<noteq> Some False"
proof (induction rule: hub_reach.induct)
  case (step h h')
  show ?case by (rule stop_step [OF step.hyps(2) step.IH step.prems])
qed (simp add: New_def)

lemma drained_hub:
  assumes "hub_reach s h" "h_shutdown h = Drained"
  shows "set (h_conns h) \<subseteq> {Rejected, Returned} \<and> h_boards h = [] \<and> fst (beginSession bid h) = None \<and>
    set (h_quit h) = {..<length (h_ids h)} \<and> set (h_draining h) \<subseteq> set (h_done h) \<and> h_stop h \<noteq> Some False"
proof -
  have ok: "registry_ok h" "sessions_ok h" "drain_ok h" using hub_reach_ok [OF assms(1)] by (simp_all add: hub_ok_def)
  have d: "h_closing h" "h_sessions h = 0" "set (h_draining h) \<subseteq> set (h_done h)"
    using ok(3) assms(2) by (auto simp: drain_ok_def)
  have c: "set (h_conns h) \<subseteq> {Rejected, Returned}" using no_sessions [OF ok(2) d(2)] by auto
  have b: "h_boards h = []" using registry_invD(3) [OF ok(1)] d(1) by simp
  have "b \<in> set (h_quit h)" if "b < length (h_ids h)" for b
    using hub_reach_boards [OF assms(1)] that b c assms(2) by (auto simp: boards_ok_def registered_def untold_def)
  then show ?thesis using c b d registry_invD(7) [OF ok(1)] hub_reach_stopped [OF assms(1)] assms(2) by (auto simp: beginSession_def)
qed

section \<open>Properties\<close>

text \<open>(C13)
  The registry counts right: in every state the hub can reach, an entry is filed under its board's
  id, its count is the number of connections between admission and release on that board, at least
  one, and its board has not been told to quit.
\<close>

theorem registry_counts_connections:
  assumes "hub_reach s h" "gomap_get (h_boards h) bid = Some e"
  shows "h_ids h ! e_board e = bid \<and>
    e_count e = int (length (filter (\<lambda>p. p \<in> {Registering (e_board e), Serving (e_board e), Releasing (e_board e)}) (h_conns h))) \<and>
    0 < e_count e \<and> e_board e \<notin> set (h_quit h) \<and> e_board e \<notin> set (h_done h)"
proof -
  have r: "registry_ok h" using hub_reach_ok [OF assms(1)] by (simp add: hub_ok_def)
  have "holds b = (\<lambda>p. p \<in> {Registering b, Serving b, Releasing b})" for b
  proof
    show "holds b p = (p \<in> {Registering b, Serving b, Releasing b})" for p by (cases p) auto
  qed
  moreover have "registered (h_boards h) (e_board e)" using assms(2) by (auto simp: registered_def)
  ultimately show ?thesis
    using registry_invD(2) [OF r assms(2)] registry_invD(7,8) [OF r] by (auto simp: holders_def)
qed

theorem registry_counts_connections_witness:
  "\<exists>e. gomap_get (h_boards (serve_begin ''b'' (serve_begin ''b'' (New True)))) ''b'' = Some e \<and> e_count e = 2 \<and>
    e_board e \<notin> set (h_quit (serve_begin ''b'' (serve_begin ''b'' (New True))))"
proof -
  let ?h = "serve_begin ''b'' (serve_begin ''b'' (New True))"
  have r: "hub_reach True ?h" by (intro hub_reach.step [OF _ hub_step.serve] hub_reach.start)
  have e: "gomap_get (h_boards ?h) ''b'' = Some \<lparr>e_board = 0, e_count = 2\<rparr>" by (simp add: hub_eval)
  from registry_counts_connections [OF r e] e show ?thesis by auto
qed

text \<open>(C14)
  A session always makes progress while the hub is open: whatever the other goroutines did, the next
  blocking operation of every \<^verbatim>\<open>Serve\<close> call is enabled and brings it closer to its return. In
  particular the board a client is about to register with has not been told to quit.
\<close>

theorem session_progress_while_open:
  assumes "hub_reach s h" "\<not> h_closing h" "c < length (h_conns h)" "in_session (h_conns h ! c)"
  shows "(\<forall>b. h_conns h ! c = Registering b \<longrightarrow> b \<notin> set (h_quit h)) \<and>
    (\<exists>h'. hub_step h h' \<and> c < length (h_conns h') \<and> rank (h_conns h' ! c) < rank (h_conns h ! c))"
  using registering_open [OF hub_reach_ok [OF assms(1)] assms(2)] assms(3) session_step [OF assms(3,4)] by blast

theorem session_progress_while_open_witness:
  "\<exists>h'. hub_step (serve_begin ''b'' (New False)) h' \<and> rank (h_conns h' ! 0) < 5"
proof -
  have "hub_reach False (serve_begin ''b'' (New False))" by (rule hub_reach.step [OF hub_reach.start hub_step.serve])
  moreover have "\<not> h_closing (serve_begin ''b'' (New False))" "0 < length (h_conns (serve_begin ''b'' (New False)))"
    "in_session (h_conns (serve_begin ''b'' (New False)) ! 0)" "rank (h_conns (serve_begin ''b'' (New False)) ! 0) = 5"
    by (simp_all add: hub_eval)
  ultimately show ?thesis using session_progress_while_open [of False "serve_begin ''b'' (New False)" 0] by auto
qed

text \<open>(C15)
  What a \<^verbatim>\<open>Shutdown\<close> that returns nil guarantees: every \<^verbatim>\<open>Serve\<close> call has returned or was
  rejected, the registry is empty and stays closed, every board ever created was told to quit, and
  every board that was registered when the shutdown began has drained, persisted and returned.
\<close>

theorem shutdown_drains_hub:
  assumes "hub_reach s h" "h_shutdown h = Drained"
  shows "set (h_conns h) \<subseteq> {Rejected, Returned} \<and> h_boards h = [] \<and> fst (beginSession bid h) = None \<and>
    set (h_quit h) = {..<length (h_ids h)} \<and> set (h_draining h) \<subseteq> set (h_done h)"
  using drained_hub [OF assms] by blast

theorem shutdown_drains_hub_witness:
  "fst (beginSession ''c'' (late_checkpoint True)) = None \<and> set (h_conns (late_checkpoint True)) \<subseteq> {Rejected, Returned}"
proof -
  have "h_shutdown (late_checkpoint True) = Drained" by (simp add: late_checkpoint_def Let_def)
  from shutdown_drains_hub [OF late_checkpoint_reach this] show ?thesis by blast
qed

text \<open>(C35)
  A shutdown that overtakes a join leaves the joining session behind for good: there is a state the
  hub can reach in which a client is still about to register although its board has returned, and
  from there on, whatever happens, that client never moves and \<^verbatim>\<open>Shutdown\<close> never returns nil.
\<close>

theorem shutdown_can_strand_a_join:
  "\<exists>h. hub_reach s h \<and> h_shutdown h = WaitingSessions \<and> at_pc h 0 (Registering 0) \<and>
    (\<forall>h'. hub_step\<^sup>*\<^sup>* h h' \<longrightarrow> at_pc h' 0 (Registering 0) \<and> h_shutdown h' \<noteq> Drained)"
proof (intro exI conjI allI impI)
  have st: "stranded (late_register s) 0 0" by (simp add: stranded_def late_register_def hub_eval)
  show "hub_reach s (late_register s)" by (rule late_register_reach)
  show "h_shutdown (late_register s) = WaitingSessions" by (simp add: late_register_def Let_def)
  show "0 < length (h_conns (late_register s))" "h_conns (late_register s) ! 0 = Registering 0"
    using st by (simp_all add: stranded_def)
  fix h' assume r: "hub_step\<^sup>*\<^sup>* (late_register s) h'"
  then have "stranded h' 0 0" using st by (rule stranded_reach)
  from this stranded_not_drained [OF hub_reach_ok [OF hub_reach_steps [OF r late_register_reach]] this]
  show "0 < length (h_conns h')" "h_conns h' ! 0 = Registering 0" "h_shutdown h' \<noteq> Drained"
    by (simp_all add: stranded_def)
qed

theorem shutdown_can_strand_a_join_witness:
  "\<exists>h. hub_reach True h \<and> at_pc h 0 (Registering 0) \<and> h_shutdown h \<noteq> Drained"
  using shutdown_can_strand_a_join [of True] by blast

text \<open>(C36)
  \<^verbatim>\<open>Shutdown\<close> may return nil while a board is still running: a board whose last client has just
  left is no longer in the registry, so nobody waits for its final checkpoint.
\<close>

theorem shutdown_can_miss_a_checkpoint:
  "\<exists>h b. hub_reach s h \<and> h_shutdown h = Drained \<and> b < length (h_ids h) \<and> b \<notin> set (h_done h)"
  using late_checkpoint_reach [of s]
  by (intro exI [of _ "late_checkpoint s"] exI [of _ 0]) (simp add: late_checkpoint_def hub_eval)



text \<open>
  No leaked members: while the hub is open, a client whose \<^verbatim>\<open>Serve\<close> has returned is in the
  client set of no board but one that is already told to quit and will drain it.
\<close>

lemma returned_client_left_its_board:
  assumes "hub_reach s h" "\<not> h_closing h" "at_pc h c Returned" "b \<notin> set (h_quit h)"
  shows "c \<notin> set (h_members h b)"
proof
  assume "c \<in> set (h_members h b)"
  then have "pc_board (h_conns h ! c) = Some b \<or> b \<in> set (h_quit h) \<union> untold h"
    using hub_reach_boards [OF assms(1)] unfolding members_ok_def by blast
  with assms(3,4) untold_open [OF hub_reach_ok [OF assms(1)] assms(2)] show False by auto
qed

end
