(* ===== verification/Float64.thy ===== *)
theory Float64
  imports JsonLaws
begin

text \<open>
  The float64 arithmetic the program relies on, on integers: rounding to 53
  significant bits, ties to even. Lua numbers inside Redis scripts are doubles and
  are printed with 14 significant digits; the load test multiplies a sample count
  by a percentile.
\<close>

section \<open>Rounding\<close>

function bit_length :: "int \<Rightarrow> nat" where
  "bit_length n = (if n \<le> 0 then 0 else Suc (bit_length (n div 2)))"
  by pat_completeness auto
termination
  by (relation "measure nat") auto

declare bit_length.simps [simp del]

text \<open>\<open>n / d\<close> rounded to the nearest integer, ties to even.\<close>

definition round_div :: "int \<Rightarrow> int \<Rightarrow> int" where
  "round_div n d =
     (if 2 * (n mod d) > d \<or> (2 * (n mod d) = d \<and> odd (n div d)) then n div d + 1 else n div d)"

definition f64_round :: "int \<Rightarrow> int" where
  "f64_round n = (let k = bit_length n - 53 in round_div n (2 ^ k) * 2 ^ k)"

lemma bit_length_0 [simp]: "n \<le> 0 \<Longrightarrow> bit_length n = 0"
  by (simp add: bit_length.simps)

lemma bit_length_bounds: "n < 2 ^ bit_length n" "0 < n \<Longrightarrow> 2 ^ (bit_length n - 1) \<le> n"
proof -
  have "n < 2 ^ bit_length n \<and> (0 < n \<longrightarrow> 2 ^ (bit_length n - 1) \<le> n)"
  proof (induction n rule: bit_length.induct)
    case (1 n)
    show ?case
    proof (cases "0 < n")
      case True
      then have IH: "n div 2 < 2 ^ bit_length (n div 2)"
        "0 < n div 2 \<Longrightarrow> 2 ^ (bit_length (n div 2) - 1) \<le> n div 2" using 1 by auto
      have bl: "bit_length n = Suc (bit_length (n div 2))" using True by (simp add: bit_length.simps)
      have "n < 2 * 2 ^ bit_length (n div 2)" using IH(1) by linarith
      moreover have "2 ^ bit_length (n div 2) \<le> n"
      proof (cases "0 < n div 2")
        case pos: True
        then have "bit_length (n div 2) = Suc (bit_length (n div 2) - 1)" by (simp add: bit_length.simps)
        then have "(2::int) ^ bit_length (n div 2) = 2 * 2 ^ (bit_length (n div 2) - 1)" by (metis power_Suc)
        also have "\<dots> \<le> n" using IH(2) [OF pos] by linarith
        finally show ?thesis .
      qed (use True in simp)
      ultimately show ?thesis by (simp add: bl)
    qed simp
  qed
  then show "n < 2 ^ bit_length n" "0 < n \<Longrightarrow> 2 ^ (bit_length n - 1) \<le> n" by simp_all
qed

lemma bit_length_le:
  assumes "n < 2 ^ k"
  shows "bit_length n \<le> k"
proof (rule ccontr)
  assume k: "\<not> bit_length n \<le> k"
  then have n: "0 < n" by (cases "0 < n") simp_all
  have "(2::int) ^ k \<le> 2 ^ (bit_length n - 1)" using k by (intro power_increasing) simp_all
  also have "\<dots> \<le> n" using bit_length_bounds(2) [OF n] .
  finally show False using assms by simp
qed

lemma bit_length_mono: "a \<le> b \<Longrightarrow> bit_length a \<le> bit_length b"
  using bit_length_bounds(1) [of b] by (intro bit_length_le) simp

text \<open>Integers below two to the 53 are doubles.\<close>

lemma f64_round_exact: "n < 2 ^ 53 \<Longrightarrow> f64_round n = n"
  using bit_length_le [of n 53] by (simp add: f64_round_def round_div_def)

lemma round_div_mono:
  assumes "a \<le> b" "0 < d"
  shows "round_div a d \<le> round_div b d"
proof (cases "a div d = b div d")
  case True
  then have "a mod d \<le> b mod d"
    using assms(1) by (metis add_le_cancel_left mult_div_mod_eq)
  then show ?thesis using True by (auto simp: round_div_def)
next
  case False
  then have "a div d < b div d" using assms by (simp add: zdiv_mono1 order_less_le)
  then show ?thesis by (auto simp: round_div_def)
qed

lemma round_div_exact: "0 < d \<Longrightarrow> round_div (q * d) d = q"
  by (simp add: round_div_def)

text \<open>Rounding is monotone, across powers of two as well.\<close>

lemma f64_round_power:
  assumes "bit_length n \<le> e"
  shows "f64_round n \<le> 2 ^ e"
proof -
  let ?k = "bit_length n - 53"
  have "?k \<le> e" using assms by simp
  then have split: "(2::int) ^ e = 2 ^ (e - ?k) * 2 ^ ?k" by (simp flip: power_add)
  have "n \<le> 2 ^ (e - ?k) * 2 ^ ?k"
    using less_le_trans [OF bit_length_bounds(1) power_increasing [OF assms, of "2::int"]] split by simp
  then have "round_div n (2 ^ ?k) \<le> 2 ^ (e - ?k)"
    using round_div_mono [of n "2 ^ (e - ?k) * 2 ^ ?k" "2 ^ ?k"] by (simp add: round_div_exact)
  then show ?thesis unfolding split by (simp add: f64_round_def Let_def)
qed

lemma f64_round_power_ge:
  assumes "2 ^ e \<le> n" "e = bit_length n - 1"
  shows "2 ^ e \<le> f64_round n"
proof -
  let ?k = "bit_length n - 53"
  have "?k \<le> e" using assms(2) by simp
  then have split: "(2::int) ^ e = 2 ^ (e - ?k) * 2 ^ ?k" by (simp flip: power_add)
  have "2 ^ (e - ?k) \<le> round_div n (2 ^ ?k)"
    using round_div_mono [of "2 ^ (e - ?k) * 2 ^ ?k" n "2 ^ ?k"] assms(1) unfolding split [symmetric]
    by (simp add: split round_div_exact)
  then show ?thesis unfolding split by (simp add: f64_round_def Let_def)
qed

lemma f64_round_mono:
  assumes "a \<le> b"
  shows "f64_round a \<le> f64_round b"
proof (cases "bit_length a = bit_length b")
  case True
  then show ?thesis using round_div_mono [OF assms] by (simp add: f64_round_def Let_def)
next
  case False
  then have lt: "bit_length a < bit_length b" using bit_length_mono [OF assms] by simp
  then have b: "0 < b" by (cases "0 < b") simp_all
  have "f64_round a \<le> 2 ^ (bit_length b - 1)" using lt by (intro f64_round_power) simp
  also have "\<dots> \<le> f64_round b" using bit_length_bounds(2) [OF b] by (intro f64_round_power_ge) simp_all
  finally show ?thesis .
qed

section \<open>Lua numbers\<close>

text \<open>A Lua 5.1 number holding an integer, and its text: \<^verbatim>\<open>printf\<close> with format \<^verbatim>\<open>%.14g\<close>.\<close>

definition lua_number :: "int \<Rightarrow> int" where
  "lua_number n = sgn n * f64_round \<bar>n\<bar>"

definition g14 :: "int \<Rightarrow> bytes" where
  "g14 n =
     (if n < 10 ^ 14 then format_int n
      else let d = length (format_int n);
               q = round_div n (10 ^ (d - 14));
               (m, e) = (if q = 10 ^ 14 then (10 ^ 13, d) else (q, d - 1));
               ds = rev (dropWhile (\<lambda>c. c = CHR ''0'') (rev (format_int m)))
           in hd ds # (if tl ds = [] then [] else CHR ''.'' # tl ds) @ ''e+'' @ format_int (int e))"

definition lua_tostring :: "int \<Rightarrow> bytes" where
  "lua_tostring n = (if n < 0 then CHR ''-'' # g14 (- n) else g14 n)"

lemma lua_number_exact: "0 \<le> n \<Longrightarrow> n < 2 ^ 53 \<Longrightarrow> lua_number n = n"
  by (cases "n = 0") (simp_all add: lua_number_def f64_round_exact)

lemma lua_tostring_small: "0 \<le> n \<Longrightarrow> n < 10 ^ 14 \<Longrightarrow> lua_tostring n = format_int n"
  by (simp add: lua_tostring_def g14_def)

lemma lua_tostring_large:
  assumes "10 ^ 14 \<le> n"
  obtains c d r where "lua_tostring n = c # d # r" "d = CHR ''.'' \<or> d = CHR ''e''"
proof -
  define k where "k = length (format_int n)"
  define q where "q = round_div n (10 ^ (k - 14))"
  define m where "m = (if q = 10 ^ 14 then 10 ^ 13 else q)"
  define e where "e = (if q = 10 ^ 14 then k else k - 1)"
  define ds where "ds = rev (dropWhile (\<lambda>c. c = CHR ''0'') (rev (format_int m)))"
  have "lua_tostring n = hd ds # (if tl ds = [] then [] else CHR ''.'' # tl ds) @ ''e+'' @ format_int (int e)"
    using assms by (simp add: lua_tostring_def g14_def Let_def k_def q_def m_def e_def ds_def)
  then show thesis by (cases "tl ds = []") (auto intro: that)
qed

lemma lua_number_large:
  assumes "10 ^ 14 \<le> n"
  shows "10 ^ 14 \<le> lua_number n"
  using f64_round_mono [OF assms] assms by (simp add: lua_number_def f64_round_exact)

section \<open>Parsing decimal numbers\<close>

text \<open>
  \<^verbatim>\<open>strconv.ParseUint(s, 10, 64)\<close> with the value it returns beside an error: 0 for a
  syntax error, the largest \<^verbatim>\<open>uint64\<close> when the number is out of range.
\<close>

fun parse_loop :: "int \<Rightarrow> bytes \<Rightarrow> go_error option \<times> u64" where
  "parse_loop n [] = (None, of_int n)"
| "parse_loop n (c # cs) =
     (if \<not> is_digit c then (Some ''invalid syntax'', 0)
      else let n1 = n * 10 + (code c - 48)
           in if n1 \<ge> 2 ^ 64 then (Some ''value out of range'', - 1) else parse_loop n1 cs)"

definition ParseUint :: "bytes \<Rightarrow> go_error option \<times> u64" where
  "ParseUint s = (if s = [] then (Some ''invalid syntax'', 0) else parse_loop 0 s)"

lemma foldl_digits_ge:
  "list_all is_digit s \<Longrightarrow> 0 \<le> n \<Longrightarrow> n \<le> foldl (\<lambda>a c. a * 10 + (code c - 48)) n s"
proof (induction s arbitrary: n)
  case (Cons c s)
  then have "n \<le> n * 10 + (code c - 48)" by (simp add: is_digit_def)
  also have "\<dots> \<le> foldl (\<lambda>a c. a * 10 + (code c - 48)) (n * 10 + (code c - 48)) s"
    using Cons by (intro Cons.IH) (auto simp: is_digit_def)
  finally show ?case by simp
qed simp

lemma parse_loop_digits:
  assumes "list_all is_digit s" "0 \<le> n" "foldl (\<lambda>a c. a * 10 + (code c - 48)) n s < 2 ^ 64"
  shows "parse_loop n s = (None, of_int (foldl (\<lambda>a c. a * 10 + (code c - 48)) n s))"
  using assms
proof (induction s arbitrary: n)
  case (Cons c s)
  let ?n = "n * 10 + (code c - 48)"
  have ge: "0 \<le> ?n" using Cons.prems by (auto simp: is_digit_def)
  then have "?n < 2 ^ 64" using foldl_digits_ge [of s ?n] Cons.prems by auto
  with Cons ge show ?case by simp
qed simp

lemma ParseUint_second: "\<not> is_digit d \<Longrightarrow> snd (ParseUint (c # d # r)) = 0"
  using code_bounds(2) [of c] by (simp add: ParseUint_def Let_def is_digit_def)

lemma ParseUint_parse_uint: "parse_uint s = Some n \<Longrightarrow> ParseUint s = (None, n)"
  using parse_loop_digits [of s 0]
  by (auto simp: parse_uint_def ParseUint_def digits_val_def split: if_splits)

lemma ParseUint_format [simp]: "ParseUint (format_uint w) = (None, w)"
  by (intro ParseUint_parse_uint) simp

lemma format_int_uint: "0 \<le> n \<Longrightarrow> n < 2 ^ 64 \<Longrightarrow> format_int n = format_uint (of_int n)"
  by (simp add: format_uint_def unsigned_of_int take_bit_int_eq_self)

end
