(* ===== verification/RedisBroker.thy ===== *)
theory RedisBroker
  imports Float64 Broker
begin

text \<open>
  The multi-instance broker of \<^verbatim>\<open>internal/broker/redis.go\<close>: its Lua scripts, its
  methods and the goroutine that forwards a subscription. The Redis server and the
  connection to it are a parameter, a table of functions on a state of any type; what
  the broker relies on is the locale \<open>redis_server\<close>, the documented behaviour of the
  commands it uses. Instances of the program share the server's state, so their calls
  interleave as a sequence of steps on it.
\<close>

section \<open>The server, as the broker sees it\<close>

datatype redis_cmd =
    INCR bytes
  | EXISTS bytes
  | GET bytes
  | SET bytes bytes
  | HSET bytes bytes bytes
  | HDEL bytes bytes
  | HGETALL bytes
  | PUBLISH bytes bytes

datatype reply =
    RInt int
  | RBulk bytes
  | RNil
  | RStatus
  | RPairs "(bytes \<times> bytes) list"

text \<open>What \<^verbatim>\<open>pubsub.Channel()\<close> has for its reader.\<close>

datatype pubsub_next = Pending | Message bytes | Closed

text \<open>
  \<open>rs_call\<close> is one command executed by the server; \<open>rs_send\<close> and \<open>rs_reply\<close> are the two
  halves of a round trip, each of which may fail. The rest is the subscription of a
  go-redis client.
\<close>

record 'r RedisServer =
  rs_call :: "'r \<Rightarrow> redis_cmd \<Rightarrow> reply go_result \<times> 'r"
  rs_send :: "'r \<Rightarrow> go_error option \<times> 'r"
  rs_reply :: "'r \<Rightarrow> go_error option \<times> 'r"
  rs_subscribe :: "'r \<Rightarrow> bytes \<Rightarrow> nat \<times> 'r"
  rs_receive :: "'r \<Rightarrow> nat \<Rightarrow> go_error option \<times> 'r"
  rs_next :: "'r \<Rightarrow> nat \<Rightarrow> pubsub_next \<times> 'r"
  rs_unsubscribe :: "'r \<Rightarrow> nat \<Rightarrow> 'r"
  rs_close :: "'r \<Rightarrow> unit go_result \<times> 'r"

text \<open>A computation on the server that may stop with an error; a script does so where a command fails.\<close>

type_synonym ('r, 'a) redis = "'r \<Rightarrow> 'a go_result \<times> 'r"

definition bind_redis :: "('r, 'a) redis \<Rightarrow> ('a \<Rightarrow> ('r, 'b) redis) \<Rightarrow> ('r, 'b) redis" where
  "bind_redis f g s = (case f s of (Inl e, t) \<Rightarrow> (Inl e, t) | (Inr x, t) \<Rightarrow> g x t)"

definition return_redis :: "'a \<Rightarrow> ('r, 'a) redis" where
  "return_redis x s = (Inr x, s)"

definition fail_redis :: "go_error \<Rightarrow> ('r, 'a) redis" where
  "fail_redis e s = (Inl e, s)"

definition call :: "'r RedisServer \<Rightarrow> redis_cmd \<Rightarrow> ('r, reply) redis" where
  "call R c s = rs_call R s c"

text \<open>A request of a client: it may be lost before the server sees it, and its reply after.\<close>

definition request :: "'r RedisServer \<Rightarrow> ('r, 'a) redis \<Rightarrow> ('r, 'a) redis" where
  "request R f s =
     (case rs_send R s of
        (Some e, s1) \<Rightarrow> (Inl e, s1)
      | (None, s1) \<Rightarrow>
          (case f s1 of (r, s2) \<Rightarrow>
             (case rs_reply R s2 of
                (Some e, s3) \<Rightarrow> (Inl e, s3)
              | (None, s3) \<Rightarrow> (r, s3))))"

section \<open>Scripts\<close>

definition applyShapeScript :: "'r RedisServer \<Rightarrow> bytes \<Rightarrow> bytes \<Rightarrow> bytes \<Rightarrow> bytes \<Rightarrow> bytes \<Rightarrow> ('r, reply) redis" where
  "applyShapeScript R seq_key shapes_key shape_id del_arg blob =
     bind_redis (call R (INCR seq_key)) (\<lambda>r.
       case r of
         RInt n \<Rightarrow>
           (let seq = lua_number n in
            bind_redis
              (if del_arg = ''1'' then call R (HDEL shapes_key shape_id)
               else call R (HSET shapes_key shape_id (lua_tostring seq @ c_newline # blob)))
              (\<lambda>_. return_redis (RInt seq)))
       | _ \<Rightarrow> fail_redis ''attempt to concatenate a value that is no number'')"

fun hydrate_args :: "'r RedisServer \<Rightarrow> bytes \<Rightarrow> bytes list \<Rightarrow> ('r, reply) redis" where
  "hydrate_args R shapes_key [] = return_redis (RInt 1)"
| "hydrate_args R shapes_key [k] = fail_redis ''Lua redis lib command arguments must be strings or integers''"
| "hydrate_args R shapes_key (k # v # args) =
     bind_redis (call R (HSET shapes_key k v)) (\<lambda>_. hydrate_args R shapes_key args)"

definition hydrateScript :: "'r RedisServer \<Rightarrow> bytes \<Rightarrow> bytes \<Rightarrow> bytes \<Rightarrow> bytes list \<Rightarrow> ('r, reply) redis" where
  "hydrateScript R seq_key shapes_key seq args =
     bind_redis (call R (EXISTS seq_key)) (\<lambda>r.
       if r = RInt 1 then return_redis (RInt 0)
       else bind_redis (call R (SET seq_key seq)) (\<lambda>_. hydrate_args R shapes_key args))"

section \<open>State\<close>

text \<open>
  The goroutine \<^verbatim>\<open>Subscribe\<close> starts: its output channel, the message it has taken from
  the subscription and not yet passed on, and whether it is still running.
\<close>

record forwarder =
  fw_out :: "bytes list"
  fw_held :: "bytes option"
  fw_live :: bool

record 'r Redis =
  rb_server :: 'r
  rb_forwarders :: "(nat, forwarder) gomap"

definition out_buffer :: nat where "out_buffer = 256"

definition NewRedis :: "'r \<Rightarrow> 'r Redis" where
  "NewRedis r = \<lparr>rb_server = r, rb_forwarders = []\<rparr>"

text \<open>A method that only talks to the server.\<close>

definition on_server :: "('r, 'a) redis \<Rightarrow> 'r Redis \<Rightarrow> 'a go_result \<times> 'r Redis" where
  "on_server f s = (case f (rb_server s) of (r, t) \<Rightarrow> (r, s\<lparr>rb_server := t\<rparr>))"

section \<open>Keys\<close>

definition seqKey :: "bytes \<Rightarrow> bytes" where "seqKey boardID = ''board:'' @ boardID @ '':seq''"
definition shapesKey :: "bytes \<Rightarrow> bytes" where "shapesKey boardID = ''board:'' @ boardID @ '':shapes''"
definition presenceKey :: "bytes \<Rightarrow> bytes" where "presenceKey boardID = ''board:'' @ boardID @ '':presence''"
definition channelKey :: "bytes \<Rightarrow> bytes" where "channelKey boardID = ''board:'' @ boardID"

section \<open>Methods\<close>

text \<open>Reading a reply as go-redis does: \<^verbatim>\<open>Int64()\<close>, \<^verbatim>\<open>Uint64()\<close> and a map of strings.\<close>

definition reply_Int64 :: "reply \<Rightarrow> ('r, int) redis" where
  "reply_Int64 r = (case r of RInt i \<Rightarrow> return_redis i | _ \<Rightarrow> fail_redis ''redis: unexpected type'')"

definition redis_Nil :: go_error where "redis_Nil = ''redis: nil''"

definition reply_Uint64 :: "reply \<Rightarrow> ('r, u64) redis" where
  "reply_Uint64 r =
     (case r of
        RBulk v \<Rightarrow> (case ParseUint v of (None, n) \<Rightarrow> return_redis n | (Some e, n) \<Rightarrow> fail_redis e)
      | RNil \<Rightarrow> fail_redis redis_Nil
      | _ \<Rightarrow> fail_redis ''redis: unexpected type'')"

definition reply_Map :: "reply \<Rightarrow> ('r, (bytes, bytes) gomap) redis" where
  "reply_Map r = (case r of RPairs m \<Rightarrow> return_redis m | _ \<Rightarrow> fail_redis ''redis: unexpected type'')"

definition rd_ApplyShape :: "'r RedisServer \<Rightarrow> 'r Redis \<Rightarrow> bytes \<Rightarrow> bytes \<Rightarrow> slice \<Rightarrow> bool \<Rightarrow> u64 go_result \<times> 'r Redis" where
  "rd_ApplyShape R s boardID shapeID shape del =
     on_server (bind_redis
       (request R (applyShapeScript R (seqKey boardID) (shapesKey boardID) shapeID
          (if del then ''1'' else ''0'') (slice_bytes shape)))
       (\<lambda>r. bind_redis (reply_Int64 r) (\<lambda>seq. return_redis (of_int seq)))) s"

definition rd_Publish :: "'r RedisServer \<Rightarrow> 'r Redis \<Rightarrow> bytes \<Rightarrow> bytes \<Rightarrow> unit go_result \<times> 'r Redis" where
  "rd_Publish R s boardID message =
     on_server (bind_redis (request R (call R (PUBLISH (channelKey boardID) message))) (\<lambda>_. return_redis ())) s"

definition rd_Subscribe :: "'r RedisServer \<Rightarrow> 'r Redis \<Rightarrow> bytes \<Rightarrow> nat go_result \<times> 'r Redis" where
  "rd_Subscribe R s boardID =
     (case rs_subscribe R (rb_server s) (channelKey boardID) of (ps, r1) \<Rightarrow>
        (case rs_receive R r1 ps of
           (Some e, r2) \<Rightarrow> (Inl e, s\<lparr>rb_server := rs_unsubscribe R r2 ps\<rparr>)
         | (None, r2) \<Rightarrow>
             (Inr ps, s\<lparr>rb_server := r2,
                        rb_forwarders := gomap_put ps \<lparr>fw_out = [], fw_held = None, fw_live = True\<rparr> (rb_forwarders s)\<rparr>)))"

text \<open>
  The goroutine's loop. \<open>FwdNext\<close> is the receive of the outer select, \<open>FwdSend\<close> the send of
  the inner one, \<open>FwdDone\<close> the context's arm of either; a step whose arm is not ready does nothing.
\<close>

datatype fwd_case = FwdNext | FwdSend | FwdDone

definition stop_forwarder :: "'r RedisServer \<Rightarrow> nat \<Rightarrow> forwarder \<Rightarrow> 'r Redis \<Rightarrow> 'r Redis" where
  "stop_forwarder R ps f s =
     s\<lparr>rb_server := rs_unsubscribe R (rb_server s) ps,
       rb_forwarders := gomap_put ps (f\<lparr>fw_held := None, fw_live := False\<rparr>) (rb_forwarders s)\<rparr>"

definition fwd_step :: "'r RedisServer \<Rightarrow> fwd_case \<Rightarrow> nat \<Rightarrow> 'r Redis \<Rightarrow> 'r Redis" where
  "fwd_step R e ps s =
     (case gomap_get (rb_forwarders s) ps of
        None \<Rightarrow> s
      | Some f \<Rightarrow>
          if \<not> fw_live f then s
          else (case (e, fw_held f) of
            (FwdNext, None) \<Rightarrow>
              (case rs_next R (rb_server s) ps of
                 (Pending, r) \<Rightarrow> s\<lparr>rb_server := r\<rparr>
               | (Message m, r) \<Rightarrow>
                   s\<lparr>rb_server := r, rb_forwarders := gomap_put ps (f\<lparr>fw_held := Some m\<rparr>) (rb_forwarders s)\<rparr>
               | (Closed, r) \<Rightarrow> stop_forwarder R ps f (s\<lparr>rb_server := r\<rparr>))
          | (FwdSend, Some m) \<Rightarrow>
              if length (fw_out f) < out_buffer
              then s\<lparr>rb_forwarders := gomap_put ps (f\<lparr>fw_out := fw_out f @ [m], fw_held := None\<rparr>) (rb_forwarders s)\<rparr>
              else s
          | (FwdDone, _) \<Rightarrow> stop_forwarder R ps f s
          | _ \<Rightarrow> s))"

text \<open>Cancelling the context of a subscription, and receiving from its channel.\<close>

definition rd_cancel :: "'r RedisServer \<Rightarrow> 'r Redis \<Rightarrow> bytes \<Rightarrow> nat \<Rightarrow> 'r Redis" where
  "rd_cancel R s boardID ps = fwd_step R FwdDone ps s"

definition rd_recv :: "'r Redis \<Rightarrow> nat \<Rightarrow> bytes option \<times> 'r Redis" where
  "rd_recv s ps =
     (case gomap_get (rb_forwarders s) ps of
        Some f \<Rightarrow>
          (case fw_out f of
             x # q \<Rightarrow> (Some x, s\<lparr>rb_forwarders := gomap_put ps (f\<lparr>fw_out := q\<rparr>) (rb_forwarders s)\<rparr>)
           | [] \<Rightarrow> (None, s))
      | None \<Rightarrow> (None, s))"

text \<open>One field of the shapes hash; a value without a newline is skipped, an unparseable stamp is 0.\<close>

definition snapshot_entry :: "bytes \<times> bytes \<Rightarrow> SnapshotShape option" where
  "snapshot_entry e =
     (let v = snd e; stamp = takeWhile (\<lambda>c. c \<noteq> c_newline) v in
      if c_newline \<notin> set v then None
      else Some \<lparr>ss_Seq = snd (ParseUint stamp), ss_ID = fst e, ss_Shape = Some (drop (Suc (length stamp)) v)\<rparr>)"

text \<open>\<open>others\<close> is what other instances do to the server between the two commands.\<close>

definition rd_Snapshot_with :: "'r RedisServer \<Rightarrow> ('r \<Rightarrow> 'r) \<Rightarrow> 'r Redis \<Rightarrow> bytes \<Rightarrow> Snapshot go_result \<times> 'r Redis" where
  "rd_Snapshot_with R others s boardID =
     on_server (bind_redis (request R (call R (HGETALL (shapesKey boardID)))) (\<lambda>r.
       bind_redis (reply_Map r) (\<lambda>fields t.
         let shapes = sort_key ss_Seq (List.map_filter snapshot_entry fields) in
         (case bind_redis (request R (call R (GET (seqKey boardID)))) reply_Uint64 (others t) of
            (Inr cur, u) \<Rightarrow> (Inr \<lparr>snap_Seq = cur, snap_Shapes = shapes\<rparr>, u)
          | (Inl e, u) \<Rightarrow>
              if e = redis_Nil then (Inr \<lparr>snap_Seq = 0, snap_Shapes = shapes\<rparr>, u) else (Inl e, u))))) s"

definition rd_Snapshot :: "'r RedisServer \<Rightarrow> 'r Redis \<Rightarrow> bytes \<Rightarrow> Snapshot go_result \<times> 'r Redis" where
  "rd_Snapshot R = rd_Snapshot_with R (\<lambda>t. t)"

definition hydrate_argv :: "SnapshotShape list \<Rightarrow> bytes list" where
  "hydrate_argv shapes =
     concat (map (\<lambda>s. [ss_ID s, format_uint (ss_Seq s) @ c_newline # slice_bytes (ss_Shape s)]) shapes)"

definition rd_Hydrate :: "'r RedisServer \<Rightarrow> 'r Redis \<Rightarrow> bytes \<Rightarrow> Snapshot \<Rightarrow> bool go_result \<times> 'r Redis" where
  "rd_Hydrate R s boardID snap =
     on_server (bind_redis
       (request R (hydrateScript R (seqKey boardID) (shapesKey boardID)
          (format_uint (snap_Seq snap)) (hydrate_argv (snap_Shapes snap))))
       (\<lambda>r. bind_redis (reply_Int64 r) (\<lambda>loaded. return_redis (loaded = 1)))) s"

definition rd_SetPresence :: "'r RedisServer \<Rightarrow> 'r Redis \<Rightarrow> bytes \<Rightarrow> bytes \<Rightarrow> slice \<Rightarrow> unit go_result \<times> 'r Redis" where
  "rd_SetPresence R s boardID clientID presence =
     on_server (bind_redis (request R (call R (HSET (presenceKey boardID) clientID (slice_bytes presence))))
       (\<lambda>_. return_redis ())) s"

definition rd_RemovePresence :: "'r RedisServer \<Rightarrow> 'r Redis \<Rightarrow> bytes \<Rightarrow> bytes \<Rightarrow> unit go_result \<times> 'r Redis" where
  "rd_RemovePresence R s boardID clientID =
     on_server (bind_redis (request R (call R (HDEL (presenceKey boardID) clientID))) (\<lambda>_. return_redis ())) s"

definition rd_Presence :: "'r RedisServer \<Rightarrow> 'r Redis \<Rightarrow> bytes \<Rightarrow> Presence list go_result \<times> 'r Redis" where
  "rd_Presence R s boardID =
     on_server (bind_redis (request R (call R (HGETALL (presenceKey boardID)))) (\<lambda>r.
       bind_redis (reply_Map r) (\<lambda>fields.
         return_redis (sort_key p_ClientID
           (map snd (filter (\<lambda>(e, p). e = None) (map (unmarshal_Presence \<circ> snd) fields))))))) s"

definition rd_Close :: "'r RedisServer \<Rightarrow> 'r Redis \<Rightarrow> unit go_result \<times> 'r Redis" where
  "rd_Close R = on_server (rs_close R)"

definition redis_broker :: "'r RedisServer \<Rightarrow> 'r Redis Broker" where
  "redis_broker R =
     \<lparr>br_ApplyShape = rd_ApplyShape R, br_Publish = rd_Publish R, br_Subscribe = rd_Subscribe R,
      br_cancel = rd_cancel R, br_recv = rd_recv, br_Snapshot = rd_Snapshot R, br_Hydrate = rd_Hydrate R,
      br_SetPresence = rd_SetPresence R, br_RemovePresence = rd_RemovePresence R,
      br_Presence = rd_Presence R, br_Close = rd_Close R\<rparr>"

end
