(* ===== verification/RedisLaws.thy ===== *)
theory RedisLaws
  imports RedisBroker
begin

text \<open>
  What the Redis broker promises, given what Redis documents. The locale \<open>redis_server\<close>
  states the effect of each command on the key space, for commands that return without an
  error; a sublocale shows that the broker keeps the broker contract, and with it every
  lemma proved there. \<open>redis_pubsub\<close> adds the laws of publish and subscribe. A small
  key-value server shows that the laws can hold.
\<close>

section \<open>Keys do not clash\<close>

lemma keys_differ [simp]:
  "seqKey b \<noteq> shapesKey c" "seqKey b \<noteq> presenceKey c" "shapesKey b \<noteq> presenceKey c"
  "shapesKey c \<noteq> seqKey b" "presenceKey c \<noteq> seqKey b" "presenceKey c \<noteq> shapesKey b"
  by (auto dest!: arg_cong [where f = last] simp: seqKey_def shapesKey_def presenceKey_def)

lemma keys_inject [simp]:
  "seqKey b = seqKey c \<longleftrightarrow> b = c" "shapesKey b = shapesKey c \<longleftrightarrow> b = c" "presenceKey b = presenceKey c \<longleftrightarrow> b = c"
  "channelKey b = channelKey c \<longleftrightarrow> b = c"
  by (simp_all add: seqKey_def shapesKey_def presenceKey_def channelKey_def)

section \<open>The stored form of a shape\<close>

definition stored_value :: "u64 \<Rightarrow> bytes \<Rightarrow> bytes" where
  "stored_value q blob = format_uint q @ c_newline # blob"

lemma digit_no_newline: "list_all is_digit s \<Longrightarrow> c \<in> set s \<Longrightarrow> c \<noteq> c_newline"
  by (auto simp: list_all_iff is_digit_def)

lemma format_uint_digits: "list_all is_digit (format_uint q)"
  using format_int_digits [of "uint q"] by (simp add: format_uint_def)

lemma takeWhile_stored: "takeWhile (\<lambda>c. c \<noteq> c_newline) (stored_value q blob) = format_uint q"
  unfolding stored_value_def
  by (subst takeWhile_append2) (auto dest: digit_no_newline [OF format_uint_digits])

lemma snapshot_entry_stored:
  "snapshot_entry (i, stored_value q blob) = Some \<lparr>ss_Seq = q, ss_ID = i, ss_Shape = Some blob\<rparr>"
  by (simp add: snapshot_entry_def takeWhile_stored Let_def) (simp add: stored_value_def)

section \<open>The server's contract\<close>

record keyspace =
  ks_str :: "bytes \<rightharpoonup> bytes"
  ks_hash :: "bytes \<Rightarrow> bytes \<rightharpoonup> bytes"  \<comment> \<open>a hash without fields is a missing key\<close>

text \<open>The document, the roster and the invariant of a board's keys.\<close>

definition ks_doc :: "keyspace \<Rightarrow> bytes \<Rightarrow> doc" where
  "ks_doc k b =
     \<lparr>d_seq = (case ks_str k (seqKey b) of None \<Rightarrow> 0 | Some v \<Rightarrow> snd (ParseUint v)),
      d_shapes = (\<lambda>i. case ks_hash k (shapesKey b) i of
         None \<Rightarrow> None
       | Some v \<Rightarrow> map_option (\<lambda>s. (ss_Seq s, slice_bytes (ss_Shape s))) (snapshot_entry (i, v)))\<rparr>"

definition keys_ok :: "bytes option \<Rightarrow> (bytes \<rightharpoonup> bytes) \<Rightarrow> bool" where
  "keys_ok seq h \<longleftrightarrow>
     (case seq of None \<Rightarrow> h = Map.empty | Some v \<Rightarrow> \<exists>q. v = format_uint q) \<and>
     (\<forall>i v. h i = Some v \<longrightarrow> (\<exists>q blob. v = stored_value q blob))"

text \<open>The counter's key holds a string, the other two hold hashes.\<close>

definition ks_typed :: "keyspace \<Rightarrow> bool" where
  "ks_typed k \<longleftrightarrow>
     (\<forall>b. ks_hash k (seqKey b) = Map.empty \<and> ks_str k (shapesKey b) = None \<and> ks_str k (presenceKey b) = None)"

definition ks_ok :: "keyspace \<Rightarrow> bool" where
  "ks_ok k \<longleftrightarrow> ks_typed k \<and> (\<forall>b. keys_ok (ks_str k (seqKey b)) (ks_hash k (shapesKey b)) \<and> doc_ok (ks_doc k b))"

lemma ks_ok_seq: "ks_ok k \<Longrightarrow> ks_str k (seqKey b) = Some v \<Longrightarrow> v = format_uint (d_seq (ks_doc k b))"
  unfolding ks_ok_def keys_ok_def by (drule conjunct2, drule spec [of _ b]) (auto simp: ks_doc_def)

lemma ks_ok_shape:
  assumes "ks_ok k"
  shows "ks_hash k (shapesKey b) i = Some v \<longleftrightarrow> (\<exists>q blob. v = stored_value q blob \<and> d_shapes (ks_doc k b) i = Some (q, blob))"
proof
  assume v: "ks_hash k (shapesKey b) i = Some v"
  then obtain q blob where "v = stored_value q blob" using assms unfolding ks_ok_def keys_ok_def by metis
  with v show "\<exists>q blob. v = stored_value q blob \<and> d_shapes (ks_doc k b) i = Some (q, blob)"
    by (auto simp: ks_doc_def snapshot_entry_stored)
next
  assume "\<exists>q blob. v = stored_value q blob \<and> d_shapes (ks_doc k b) i = Some (q, blob)"
  then obtain q blob where v: "v = stored_value q blob" "d_shapes (ks_doc k b) i = Some (q, blob)" by blast
  then obtain u where u: "ks_hash k (shapesKey b) i = Some u" by (auto simp: ks_doc_def split: option.splits)
  then obtain p c where "u = stored_value p c" using assms unfolding ks_ok_def keys_ok_def by metis
  with u v show "ks_hash k (shapesKey b) i = Some v" by (simp add: ks_doc_def snapshot_entry_stored)
qed

text \<open>A board's keys after its document has been replaced.\<close>

definition ks_write :: "keyspace \<Rightarrow> bytes \<Rightarrow> doc \<Rightarrow> keyspace" where
  "ks_write k b d =
     k\<lparr>ks_str := (ks_str k)(seqKey b \<mapsto> format_uint (d_seq d)),
       ks_hash := (ks_hash k)(shapesKey b := (\<lambda>i. map_option (\<lambda>(q, blob). stored_value q blob) (d_shapes d i)))\<rparr>"

definition ks_roster :: "keyspace \<Rightarrow> bytes \<Rightarrow> bytes \<rightharpoonup> bytes" where
  "ks_roster k b = ks_hash k (presenceKey b)"

lemma ks_doc_write: "ks_doc (ks_write k b d) = (ks_doc k)(b := d)"
proof
  fix c
  show "ks_doc (ks_write k b d) c = ((ks_doc k)(b := d)) c"
  proof (cases "c = b")
    case True
    have "d_shapes (ks_doc (ks_write k b d) b) i = d_shapes d i" for i
      by (cases "d_shapes d i") (auto simp: ks_doc_def ks_write_def snapshot_entry_stored)
    moreover have "d_seq (ks_doc (ks_write k b d) b) = d_seq d" by (simp add: ks_doc_def ks_write_def)
    ultimately show ?thesis using True by (simp add: fun_eq_iff)
  qed (simp add: ks_doc_def ks_write_def)
qed

lemma ks_ok_write [keeps_inv]:
  assumes "ks_ok k" "doc_ok d"
  shows "ks_ok (ks_write k b d)"
proof -
  have "keys_ok (Some (format_uint (d_seq d))) (\<lambda>i. map_option (\<lambda>(q, blob). stored_value q blob) (d_shapes d i))"
    by (auto simp: keys_ok_def)
  then have "keys_ok (ks_str (ks_write k b d) (seqKey c)) (ks_hash (ks_write k b d) (shapesKey c))" for c
    using assms(1) unfolding ks_ok_def by (cases "c = b") (simp_all add: ks_write_def)
  moreover have "ks_typed (ks_write k b d)" using assms(1) by (simp add: ks_ok_def ks_typed_def ks_write_def)
  ultimately show ?thesis using assms unfolding ks_ok_def by (simp add: ks_doc_write)
qed

lemma ks_roster_write [simp]: "ks_roster (ks_write k b d) = ks_roster k"
  by (simp add: ks_roster_def ks_write_def fun_eq_iff)

lemma ks_hash_shapes:
  assumes "ks_ok k"
  shows "ks_hash k (shapesKey b) i = map_option (\<lambda>(q, blob). stored_value q blob) (d_shapes (ks_doc k b) i)"
  using ks_ok_shape [OF assms, of b i]
  by (cases "ks_hash k (shapesKey b) i"; cases "d_shapes (ks_doc k b) i") auto

text \<open>Writing the presence hash leaves the document alone.\<close>

lemma ks_presence:
  fixes k b h
  defines "k' \<equiv> k\<lparr>ks_hash := (ks_hash k)(presenceKey b := h)\<rparr>"
  shows "ks_doc k' = ks_doc k" "ks_ok k' = ks_ok k" "ks_roster k' = (ks_roster k)(b := h)"
proof -
  show d: "ks_doc k' = ks_doc k" by (simp add: k'_def ks_doc_def fun_eq_iff)
  have "ks_str k' = ks_str k" "ks_hash k' (shapesKey c) = ks_hash k (shapesKey c)"
    "ks_hash k' (seqKey c) = ks_hash k (seqKey c)" for c by (simp_all add: k'_def)
  then show "ks_ok k' = ks_ok k" by (simp add: ks_ok_def ks_typed_def d)
  show "ks_roster k' = (ks_roster k)(b := h)" by (simp add: k'_def ks_roster_def fun_eq_iff)
qed

text \<open>The largest sequence number a script can write into a shape's stamp: 14 digits.\<close>

definition redis_cap :: u64 where "redis_cap = 99999999999999"

locale redis_server =
  fixes R :: "'r RedisServer"
    and db :: "'r \<Rightarrow> keyspace"
  assumes send_keeps: "rs_send R s = (x, s') \<Longrightarrow> db s' = db s"
    and reply_keeps: "rs_reply R s = (x, s') \<Longrightarrow> db s' = db s"
    and error_keeps: "rs_call R s c = (Inl e, s') \<Longrightarrow> db s' = db s"
    and no_nil_error: "rs_send R s = (Some e, s') \<or> rs_reply R s = (Some e, s') \<or> rs_call R s c = (Inl e, s') \<Longrightarrow> e \<noteq> redis_Nil"
    and incr_law: "(case ks_str (db s) k of None \<Rightarrow> n = 0 | Some v \<Rightarrow> v = format_int n) \<Longrightarrow> 0 \<le> n \<Longrightarrow>
      rs_call R s (INCR k) = (Inr r, s') \<Longrightarrow>
      n + 1 < 2 ^ 63 \<and> r = RInt (n + 1) \<and> db s' = (db s)\<lparr>ks_str := (ks_str (db s))(k \<mapsto> format_int (n + 1))\<rparr>"
    and exists_law: "rs_call R s (EXISTS k) = (Inr r, s') \<Longrightarrow>
      db s' = db s \<and> r = RInt (if ks_str (db s) k = None \<and> ks_hash (db s) k = Map.empty then 0 else 1)"
    and get_law: "rs_call R s (GET k) = (Inr r, s') \<Longrightarrow>
      db s' = db s \<and> r = (case ks_str (db s) k of None \<Rightarrow> RNil | Some v \<Rightarrow> RBulk v)"
    and set_law: "rs_call R s (SET k v) = (Inr r, s') \<Longrightarrow>
      db s' = (db s)\<lparr>ks_str := (ks_str (db s))(k \<mapsto> v), ks_hash := (ks_hash (db s))(k := Map.empty)\<rparr>"
    and hset_law: "rs_call R s (HSET k f v) = (Inr r, s') \<Longrightarrow>
      db s' = (db s)\<lparr>ks_hash := (ks_hash (db s))(k := (ks_hash (db s) k)(f \<mapsto> v))\<rparr>"
    and hdel_law: "rs_call R s (HDEL k f) = (Inr r, s') \<Longrightarrow>
      db s' = (db s)\<lparr>ks_hash := (ks_hash (db s))(k := (ks_hash (db s) k)(f := None))\<rparr>"
    and hgetall_law: "rs_call R s (HGETALL k) = (Inr r, s') \<Longrightarrow>
      db s' = db s \<and> (\<exists>m. r = RPairs m \<and> gomap_ok m \<and> gomap_get m = ks_hash (db s) k)"
    and publish_keeps: "rs_call R s (PUBLISH ch m) = (Inr r, s') \<Longrightarrow> db s' = db s"
begin

lemma request_Inr:
  assumes "request R f s = (Inr x, s')"
  obtains s1 s2 where "db s1 = db s" "f s1 = (Inr x, s2)" "db s' = db s2"
proof -
  obtain s1 where s1: "rs_send R s = (None, s1)"
    using assms by (auto simp: request_def split: prod.splits option.splits)
  obtain r s2 where s2: "f s1 = (r, s2)" by fastforce
  obtain s3 where s3: "rs_reply R s2 = (None, s3)"
    using assms s1 s2 by (auto simp: request_def split: prod.splits option.splits)
  show thesis
    using that [of s1 s2] assms s1 s2 s3 send_keeps [OF s1] reply_keeps [OF s3] by (simp add: request_def)
qed

text \<open>Whatever a request returns, the server was left alone or ran it.\<close>

lemma request_cases:
  assumes "request R f s = (x, s')"
  obtains "db s' = db s" | s1 y s2 where "db s1 = db s" "f s1 = (y, s2)" "db s' = db s2"
proof (cases "rs_send R s")
  case (Pair e s1)
  note k = send_keeps [OF this]
  show thesis
  proof (cases e)
    case None
    obtain r s2 where s2: "f s1 = (r, s2)" by fastforce
    obtain e2 s3 where s3: "rs_reply R s2 = (e2, s3)" by fastforce
    have "s' = s3" using assms Pair None s2 s3 by (auto simp: request_def split: option.splits)
    with that(2) [OF k s2] reply_keeps [OF s3] show thesis by simp
  qed (use assms Pair k that(1) in \<open>simp add: request_def\<close>)
qed

lemma bind_redis_Inr:
  "bind_redis f g s = (Inr y, s') \<longleftrightarrow> (\<exists>x t. f s = (Inr x, t) \<and> g x t = (Inr y, s'))"
  by (auto simp: bind_redis_def split: prod.splits sum.splits)

text \<open>Both scripts' view of the counter: the first command of \<^verbatim>\<open>applyShapeScript\<close>.\<close>

lemma incr_seq:
  assumes "ks_ok (db s)" "d_seq (ks_doc (db s) b) < redis_cap" "rs_call R s (INCR (seqKey b)) = (Inr r, s')"
  shows "r = RInt (uint (d_seq (ks_doc (db s) b) + 1))"
    "db s' = ks_write (db s) b ((ks_doc (db s) b)\<lparr>d_seq := d_seq (ks_doc (db s) b) + 1\<rparr>)"
proof -
  let ?k = "db s" and ?q = "d_seq (ks_doc (db s) b)"
  have q1: "uint (?q + 1) = uint ?q + 1"
    using assms(2) by (simp add: redis_cap_def word_less_def uint_word_ariths)
  have "case ks_str ?k (seqKey b) of None \<Rightarrow> uint ?q = 0 | Some v \<Rightarrow> v = format_int (uint ?q)"
    using ks_ok_seq [OF assms(1), of b] by (auto simp: format_uint_def ks_doc_def split: option.splits)
  note i = incr_law [OF this _ assms(3)]
  show "r = RInt (uint (?q + 1))" using i by (simp add: q1)
  show "db s' = ks_write ?k b ((ks_doc ?k b)\<lparr>d_seq := ?q + 1\<rparr>)"
    using i ks_hash_shapes [OF assms(1), of b] by (auto simp: ks_write_def format_uint_def q1 fun_eq_iff)
qed

lemma apply_script_law:
  assumes "ks_ok (db s)" "d_seq (ks_doc (db s) b) < redis_cap"
    and "applyShapeScript R (seqKey b) (shapesKey b) i (if del then ''1'' else ''0'') blob s = (Inr r, s')"
  shows "r = RInt (uint (d_seq (ks_doc (db s) b) + 1))" "db s' = ks_write (db s) b (doc_apply i blob del (ks_doc (db s) b))"
proof -
  let ?k = "db s" and ?q = "d_seq (ks_doc (db s) b)"
  have q: "0 \<le> uint (?q + 1)" "uint (?q + 1) < 10 ^ 14"
    using assms(2) by (simp_all add: redis_cap_def word_less_def uint_word_ariths)
  obtain x t where x: "rs_call R s (INCR (seqKey b)) = (Inr x, t)"
    using assms(3) by (auto simp: applyShapeScript_def bind_redis_Inr call_def)
  note t = incr_seq [OF assms(1,2) x]
  have n: "lua_number (uint (?q + 1)) = uint (?q + 1)" "lua_tostring (uint (?q + 1)) = format_uint (?q + 1)"
    using q by (simp_all add: lua_number_exact lua_tostring_small format_uint_def)
  obtain y where y: "rs_call R t (if del then HDEL (shapesKey b) i else HSET (shapesKey b) i (stored_value (?q + 1) blob)) = (Inr y, s')"
    and r: "r = RInt (uint (?q + 1))"
    using assms(3) x t(1) n
    by (cases del) (auto simp: applyShapeScript_def bind_redis_Inr call_def return_redis_def stored_value_def)
  then show "r = RInt (uint (?q + 1))" by simp
  show "db s' = ks_write ?k b (doc_apply i blob del (ks_doc ?k b))"
  proof (cases del)
    case True
    then show ?thesis
      using hdel_law [of t "shapesKey b" i y s'] y t(2) by (auto simp: ks_write_def doc_apply_def fun_eq_iff)
  next
    case False
    then show ?thesis
      using hset_law [of t "shapesKey b" i _ y s'] y t(2) by (auto simp: ks_write_def doc_apply_def fun_eq_iff)
  qed
qed

lemma on_server_Inr:
  assumes "on_server f s = (Inr x, s')"
  obtains t where "f (rb_server s) = (Inr x, t)" "s' = s\<lparr>rb_server := t\<rparr>"
  using assms by (auto simp: on_server_def split: prod.splits)

text \<open>A method that makes one request and reads its reply.\<close>

lemma method_Inr:
  assumes "on_server (bind_redis (request R f) g) s = (Inr x, s')"
    and "\<And>y t t'. g y t = (Inr x, t') \<Longrightarrow> t' = t"
  obtains s1 y s2 where "db s1 = db (rb_server s)" "f s1 = (Inr y, s2)" "db (rb_server s') = db s2" "g y (rb_server s') = (Inr x, rb_server s')"
proof -
  obtain y t where y: "request R f (rb_server s) = (Inr y, t)" "g y t = (Inr x, rb_server s')"
    using assms(1) by (elim on_server_Inr) (auto simp: bind_redis_Inr)
  then have "rb_server s' = t" using assms(2) by blast
  with y show thesis by (elim request_Inr) (auto intro: that)
qed

lemmas redis_defs = bind_redis_Inr return_redis_def fail_redis_def reply_Int64_def reply_Uint64_def reply_Map_def

lemma rd_ApplyShape_law:
  assumes "ks_ok (db (rb_server s))" "d_seq (ks_doc (db (rb_server s)) b) < redis_cap"
    and "rd_ApplyShape R s b i sh del = (Inr n, s')"
  shows "n = d_seq (ks_doc (db (rb_server s)) b) + 1"
    "db (rb_server s') = ks_write (db (rb_server s)) b (doc_apply i (slice_bytes sh) del (ks_doc (db (rb_server s)) b))"
    "ks_ok (db (rb_server s'))"
proof -
  obtain s1 y s2 where a: "db s1 = db (rb_server s)" "db (rb_server s') = db s2"
    "applyShapeScript R (seqKey b) (shapesKey b) i (if del then ''1'' else ''0'') (slice_bytes sh) s1 = (Inr y, s2)"
    "bind_redis (reply_Int64 y) (\<lambda>seq. return_redis (of_int seq)) (rb_server s') = (Inr n, rb_server s')"
    using assms(3) unfolding rd_ApplyShape_def
    by (elim method_Inr) (auto simp: redis_defs split: reply.splits)
  have "ks_ok (db s1)" "d_seq (ks_doc (db s1) b) < redis_cap" using assms a(1) by simp_all
  note l = apply_script_law [OF this a(3)]
  show "n = d_seq (ks_doc (db (rb_server s)) b) + 1" using a(1,4) l(1) by (auto simp: redis_defs)
  show w: "db (rb_server s') = ks_write (db (rb_server s)) b (doc_apply i (slice_bytes sh) del (ks_doc (db (rb_server s)) b))"
    using a(1,2) l(2) by simp
  have "doc_ok (ks_doc (db (rb_server s)) b)" using assms(1) by (simp add: ks_ok_def)
  then have "doc_ok (doc_apply i (slice_bytes sh) del (ks_doc (db (rb_server s)) b))"
    using less_u64_ne_max [OF assms(2)] by (rule doc_apply_ok)
  then show "ks_ok (db (rb_server s'))" unfolding w using assms(1) by (intro ks_ok_write)
qed

lemma rd_Publish_keeps:
  assumes "rd_Publish R s b m = (r, s')"
  shows "db (rb_server s') = db (rb_server s)"
proof -
  obtain x t where t: "request R (call R (PUBLISH (channelKey b) m)) (rb_server s) = (x, t)" by fastforce
  then have "rb_server s' = t"
    using assms by (auto simp: rd_Publish_def on_server_def bind_redis_def return_redis_def split: sum.splits)
  moreover have "db s2 = db s1" if "rs_call R s1 (PUBLISH (channelKey b) m) = (y, s2)" for s1 y s2
    using that publish_keeps error_keeps by (cases y) auto
  ultimately show ?thesis
    using t by (elim request_cases) (auto simp: call_def)
qed

lemma rd_SetPresence_law:
  assumes "rd_SetPresence R s b c p = (Inr u, s')"
  shows "db (rb_server s') = (db (rb_server s))\<lparr>ks_hash := (ks_hash (db (rb_server s)))
    (presenceKey b := (ks_hash (db (rb_server s)) (presenceKey b))(c \<mapsto> slice_bytes p))\<rparr>"
  using assms unfolding rd_SetPresence_def
  by (elim method_Inr) (auto simp: redis_defs call_def dest: hset_law)

lemma rd_RemovePresence_law:
  assumes "rd_RemovePresence R s b c = (Inr u, s')"
  shows "db (rb_server s') = (db (rb_server s))\<lparr>ks_hash := (ks_hash (db (rb_server s)))
    (presenceKey b := (ks_hash (db (rb_server s)) (presenceKey b))(c := None))\<rparr>"
  using assms unfolding rd_RemovePresence_def
  by (elim method_Inr) (auto simp: redis_defs call_def dest: hdel_law)

text \<open>The fields of a board's hash, sorted by stamp, are the shapes of its document.\<close>

lemma snapshot_of_fields:
  assumes "ks_ok k" "gomap_ok m" "gomap_get m = ks_hash k (shapesKey b)"
  shows "snapshot_of (ks_doc k b)
    \<lparr>snap_Seq = d_seq (ks_doc k b), snap_Shapes = sort_key ss_Seq (List.map_filter snapshot_entry m)\<rparr>"
proof (rule snapshot_of_sorted)
  have val: "\<exists>q blob. v = stored_value q blob \<and> d_shapes (ks_doc k b) i = Some (q, blob)" if "(i, v) \<in> set m" for i v
    using that ks_ok_shape [OF assms(1), of b i v] assms(2,3) by (simp flip: gomap_get_iff)
  have entries: "map shape_entry (List.map_filter snapshot_entry xs) = map (\<lambda>(i, v). (i, the (d_shapes (ks_doc k b) i))) xs"
    if "set xs \<subseteq> set m" for xs
    using that
  proof (induction xs)
    case (Cons e xs)
    then obtain q blob where "snd e = stored_value q blob" "d_shapes (ks_doc k b) (fst e) = Some (q, blob)"
      using val [of "fst e" "snd e"] by auto
    with Cons show ?case
      using snapshot_entry_stored [of "fst e" q blob] by (cases e) (simp add: map_filter_simps shape_entry_def)
  qed (simp add: map_filter_simps)
  then have es: "map shape_entry (List.map_filter snapshot_entry m) = map (\<lambda>(i, v). (i, the (d_shapes (ks_doc k b) i))) m" by simp
  have "map fst (map (\<lambda>(i, v). (i, the (d_shapes (ks_doc k b) i))) m) = map fst m" by auto
  then show "gomap_ok (map shape_entry (List.map_filter snapshot_entry m))"
    using assms(2) unfolding es gomap_ok_def by (simp only:)
  show "gomap_get (map shape_entry (List.map_filter snapshot_entry m)) = d_shapes (ks_doc k b)"
  proof
    fix i
    have "map_of (map (\<lambda>(i, v). (i, f i)) m) i = map_option (\<lambda>v. f i) (map_of m i)" for f :: "bytes \<Rightarrow> u64 \<times> bytes"
      by (induction m) auto
    then show "gomap_get (map shape_entry (List.map_filter snapshot_entry m)) i = d_shapes (ks_doc k b) i"
      unfolding es using ks_ok_shape [OF assms(1), of b i] assms(3)
      by (cases "ks_hash k (shapesKey b) i"; cases "d_shapes (ks_doc k b) i") auto
  qed
  show "doc_ok (ks_doc k b)" using assms(1) by (simp add: ks_ok_def)
qed

lemma request_no_nil: "request R (call R c) s = (Inl e, s') \<Longrightarrow> e \<noteq> redis_Nil"
  by (auto simp: request_def call_def split: prod.splits option.splits
      dest: no_nil_error [OF disjI1] no_nil_error [OF disjI2 [OF disjI1]] no_nil_error [OF disjI2 [OF disjI2]])

text \<open>The board's counter, as the second command of a snapshot reads it.\<close>

lemma read_counter:
  assumes "bind_redis (request R (call R (GET (seqKey b)))) reply_Uint64 s = (x, s')" "ks_ok (db s)"
    and "x = Inr n \<or> x = Inl redis_Nil \<and> n = 0"
  shows "n = d_seq (ks_doc (db s) b)" "db s' = db s"
proof -
  obtain y t where y: "request R (call R (GET (seqKey b))) s = (y, t)" by fastforce
  then obtain v where v: "y = Inr v"
    using assms(1,3) request_no_nil [of "GET (seqKey b)" s _ t] by (cases y) (auto simp: bind_redis_def)
  have t: "db t = db s" "v = (case ks_str (db s) (seqKey b) of None \<Rightarrow> RNil | Some v \<Rightarrow> RBulk v)"
    using y unfolding v by (elim request_Inr; auto simp: call_def dest: get_law)+
  have r: "reply_Uint64 v t = (x, s')" using assms(1) y v by (simp add: bind_redis_def)
  have "reply_Uint64 v t = ((if ks_str (db s) (seqKey b) = None then Inl redis_Nil else Inr (d_seq (ks_doc (db s) b))), t)"
  proof (cases "ks_str (db s) (seqKey b)")
    case (Some w)
    obtain q where "w = format_uint q" using ks_ok_seq [OF assms(2) Some] by blast
    with Some t(2) show ?thesis by (simp add: reply_Uint64_def return_redis_def ks_doc_def)
  qed (simp add: t(2) reply_Uint64_def fail_redis_def)
  then show "n = d_seq (ks_doc (db s) b)" "db s' = db s"
    using r t(1) assms(3) by (auto simp: ks_doc_def split: if_splits)
qed

text \<open>
  A snapshot reads the shapes and then the counter. What other instances do in between
  shows in the counter only.
\<close>

lemma rd_Snapshot_with_law:
  assumes "rd_Snapshot_with R others s b = (Inr snap, s')" "ks_ok (db (rb_server s))"
    and "\<And>t. db t = db (rb_server s) \<Longrightarrow> ks_ok (db (others t))"
  obtains t where "db t = db (rb_server s)" "db (rb_server s') = db (others t)"
    "snap_Seq snap = d_seq (ks_doc (db (others t)) b)"
    "snapshot_of (ks_doc (db (rb_server s)) b) (snap\<lparr>snap_Seq := d_seq (ks_doc (db (rb_server s)) b)\<rparr>)"
proof -
  let ?get = "bind_redis (request R (call R (GET (seqKey b)))) reply_Uint64"
  obtain r t where r: "request R (call R (HGETALL (shapesKey b))) (rb_server s) = (Inr r, t)"
    using assms(1) unfolding rd_Snapshot_with_def by (elim on_server_Inr) (auto simp: bind_redis_Inr)
  obtain m where m: "db t = db (rb_server s)" "r = RPairs m" "gomap_ok m" "gomap_get m = ks_hash (db t) (shapesKey b)"
    using r by (elim request_Inr) (auto simp: call_def dest!: hgetall_law)
  obtain x u where x: "?get (others t) = (x, u)" by fastforce
  obtain n where n: "x = Inr n \<or> x = Inl redis_Nil \<and> n = 0" "rb_server s' = u"
    "snap = \<lparr>snap_Seq = n, snap_Shapes = sort_key ss_Seq (List.map_filter snapshot_entry m)\<rparr>"
    using assms(1) r m(2) x unfolding rd_Snapshot_with_def
    by (elim on_server_Inr)
      (auto simp: bind_redis_Inr reply_Map_def return_redis_def Let_def split: sum.splits if_splits)
  note c = read_counter [OF x assms(3) [OF m(1)] n(1)]
  have "snapshot_of (ks_doc (db (rb_server s)) b) (snap\<lparr>snap_Seq := d_seq (ks_doc (db (rb_server s)) b)\<rparr>)"
    using snapshot_of_fields [OF assms(2) m(3)] m(1,4) n(3) by simp
  with that [OF m(1)] c n(2,3) show thesis by simp
qed

lemma rd_Snapshot_law:
  assumes "rd_Snapshot R s b = (Inr snap, s')" "ks_ok (db (rb_server s))"
  shows "db (rb_server s') = db (rb_server s)" "snapshot_of (ks_doc (db (rb_server s)) b) snap"
proof -
  obtain t where t: "db t = db (rb_server s)" "db (rb_server s') = db t"
    "snap_Seq snap = d_seq (ks_doc (db t) b)"
    "snapshot_of (ks_doc (db (rb_server s)) b) (snap\<lparr>snap_Seq := d_seq (ks_doc (db (rb_server s)) b)\<rparr>)"
    using assms unfolding rd_Snapshot_def by (elim rd_Snapshot_with_law) auto
  then show "db (rb_server s') = db (rb_server s)" by simp
  have "snap\<lparr>snap_Seq := d_seq (ks_doc (db (rb_server s)) b)\<rparr> = snap" using t(1,3) by simp
  then show "snapshot_of (ks_doc (db (rb_server s)) b) snap" using t(4) by simp
qed

text \<open>The loop of the hydration script stores one field per shape.\<close>

lemma hydrate_args_law:
  assumes "hydrate_args R k (hydrate_argv shapes) s = (Inr r, s')"
  shows "r = RInt 1 \<and> ks_str (db s') = ks_str (db s) \<and> (\<forall>j. j \<noteq> k \<longrightarrow> ks_hash (db s') j = ks_hash (db s) j) \<and>
    ks_hash (db s') k = ks_hash (db s) k ++
      map_of (rev (map (\<lambda>x. (ss_ID x, stored_value (ss_Seq x) (slice_bytes (ss_Shape x)))) shapes))"
  using assms
proof (induction shapes arbitrary: s)
  case Nil
  then show ?case by (simp add: hydrate_argv_def return_redis_def)
next
  case (Cons x shapes)
  obtain y t where t: "rs_call R s (HSET k (ss_ID x) (stored_value (ss_Seq x) (slice_bytes (ss_Shape x)))) = (Inr y, t)"
    "hydrate_args R k (hydrate_argv shapes) t = (Inr r, s')"
    using Cons.prems by (auto simp: hydrate_argv_def bind_redis_Inr call_def stored_value_def)
  note h = hset_law [OF t(1)]
  let ?f = "\<lambda>x. (ss_ID x, stored_value (ss_Seq x) (slice_bytes (ss_Shape x)))"
  have t': "ks_hash (db t) k = ks_hash (db s) k ++ map_of [?f x]"
    "ks_str (db t) = ks_str (db s)" "\<forall>j. j \<noteq> k \<longrightarrow> ks_hash (db t) j = ks_hash (db s) j"
    by (simp_all add: h)
  have "map_of (rev (map ?f (x # shapes))) = map_of [?f x] ++ map_of (rev (map ?f shapes))" by simp
  then have "ks_hash (db s) k ++ map_of (rev (map ?f (x # shapes))) = ks_hash (db t) k ++ map_of (rev (map ?f shapes))"
    by (simp only: t'(1) map_add_assoc)
  then show ?case using Cons.IH [OF t(2)] t'(2,3) by metis
qed

lemma rd_Hydrate_law:
  assumes "ks_ok (db (rb_server s))" "snap_ok snap" "rd_Hydrate R s b snap = (Inr loaded, s')"
  shows "if loaded then \<not> has_state (ks_doc (db (rb_server s)) b) \<and>
      db (rb_server s') = ks_write (db (rb_server s)) b (doc_of_snapshot snap)
    else db (rb_server s') = db (rb_server s)"
proof -
  let ?k = "db (rb_server s)"
  let ?args = "hydrate_argv (snap_Shapes snap)"
  obtain s1 y s2 where a: "db s1 = ?k" "db (rb_server s') = db s2"
    "hydrateScript R (seqKey b) (shapesKey b) (format_uint (snap_Seq snap)) ?args s1 = (Inr y, s2)"
    "bind_redis (reply_Int64 y) (\<lambda>loaded. return_redis (loaded = 1)) (rb_server s') = (Inr loaded, rb_server s')"
    using assms(3) unfolding rd_Hydrate_def by (elim method_Inr) (auto simp: redis_defs split: reply.splits)
  obtain x t where x: "rs_call R s1 (EXISTS (seqKey b)) = (Inr x, t)"
    and script: "(if x = RInt 1 then return_redis (RInt 0)
      else bind_redis (call R (SET (seqKey b) (format_uint (snap_Seq snap)))) (\<lambda>_. hydrate_args R (shapesKey b) ?args)) t = (Inr y, s2)"
    using a(3) unfolding hydrateScript_def bind_redis_Inr call_def by blast
  have x2: "db t = ?k" and x3: "x = RInt (if ks_str ?k (seqKey b) = None \<and> ks_hash ?k (seqKey b) = Map.empty then 0 else 1)"
    using exists_law [OF x] a(1) by simp_all
  show ?thesis
  proof (cases "x = RInt 1")
    case True
    then show ?thesis using a(2,4) script x2 by (auto simp: return_redis_def reply_Int64_def bind_redis_Inr)
  next
    case False
    then have none: "ks_str ?k (seqKey b) = None" using x3 by (auto split: if_splits)
    moreover have "keys_ok (ks_str ?k (seqKey b)) (ks_hash ?k (shapesKey b))" using assms(1) by (simp add: ks_ok_def)
    ultimately have empty: "ks_hash ?k (shapesKey b) = Map.empty" by (simp add: keys_ok_def)
    obtain z u where u: "rs_call R t (SET (seqKey b) (format_uint (snap_Seq snap))) = (Inr z, u)"
      "hydrate_args R (shapesKey b) ?args u = (Inr y, s2)"
      using script False by (auto simp: bind_redis_Inr call_def)
    have h: "ks_hash ?k (seqKey b) = Map.empty" using x3 False by (auto split: if_splits)
    have "map_of (rev (map (\<lambda>x. (ss_ID x, stored_value (ss_Seq x) (slice_bytes (ss_Shape x)))) xs)) =
        (\<lambda>i. map_option (\<lambda>(q, blob). stored_value q blob) (map_of (rev (map shape_entry xs)) i))" for xs
      by (induction xs) (auto simp: shape_entry_def map_add_def fun_eq_iff split: option.splits)
    note shapes = this
    note w = hydrate_args_law [OF u(2)] and v = set_law [OF u(1)]
    have "ks_str (db s2) = ks_str (ks_write ?k b (doc_of_snapshot snap))"
      using w v x2 by (simp add: ks_write_def doc_of_snapshot_def)
    moreover have "ks_hash (db s2) j = ks_hash (ks_write ?k b (doc_of_snapshot snap)) j" for j
    proof (cases "j = shapesKey b")
      case True
      then show ?thesis using w v x2 empty by (simp add: ks_write_def doc_of_snapshot_def shapes)
    next
      case False
      then show ?thesis using w v x2 h by (simp add: ks_write_def)
    qed
    ultimately have "db s2 = ks_write ?k b (doc_of_snapshot snap)" "y = RInt 1"
      using w by (auto simp: fun_eq_iff)
    moreover have "\<not> has_state (ks_doc ?k b)"
      using none empty by (simp add: has_state_def ks_doc_def)
    ultimately show ?thesis using a(2,4) by (auto simp: redis_defs)
  qed
qed

end

text \<open>The broker keeps the contract of its interface, up to sequence numbers of 14 digits.\<close>

sublocale redis_server \<subseteq> rb: broker_contract "redis_broker R" "\<lambda>s. ks_ok (db (rb_server s))"
  "\<lambda>s. ks_doc (db (rb_server s))" "\<lambda>s. ks_roster (db (rb_server s))" redis_cap
proof (unfold_locales, goal_cases)
  case (1 s b)
  then show ?case by (simp add: ks_ok_def)
next
  case (2 s b i sh del n s')
  then show ?case using rd_ApplyShape_law [of s b i sh del n s'] by (simp add: redis_broker_def ks_doc_write)
next
  case (3 s b m r s')
  then show ?case using rd_Publish_keeps [of s b m r s'] by (simp add: redis_broker_def)
next
  case (4 s b snap s')
  then show ?case using rd_Snapshot_law [of s b snap s'] by (simp add: redis_broker_def)
next
  case (5 s snap b loaded s')
  then show ?case
    using rd_Hydrate_law [of s snap b loaded s'] doc_of_snapshot_ok [of snap]
    by (auto simp: redis_broker_def ks_doc_write ks_ok_write split: if_splits)
next
  case (6 s b c p u s')
  then show ?case using rd_SetPresence_law [of s b c p u s'] by (simp add: redis_broker_def ks_presence) (simp add: ks_roster_def)
next
  case (7 s b c u s')
  then show ?case using rd_RemovePresence_law [of s b c u s'] by (simp add: redis_broker_def ks_presence) (simp add: ks_roster_def)
qed

section \<open>Errors\<close>

context redis_server
begin

text \<open>
  When \<^verbatim>\<open>ApplyShape\<close> returns an error the operation was not carried out, or only its
  sequence number was taken, or it was carried out and the reply was lost.
\<close>

lemma rd_ApplyShape_error:
  assumes "ks_ok (db (rb_server s))" "d_seq (ks_doc (db (rb_server s)) b) < redis_cap"
    and "rd_ApplyShape R s b i sh del = (Inl e, s')"
  obtains "db (rb_server s') = db (rb_server s)"
  | "db (rb_server s') = ks_write (db (rb_server s)) b ((ks_doc (db (rb_server s)) b)\<lparr>d_seq := d_seq (ks_doc (db (rb_server s)) b) + 1\<rparr>)"
  | "db (rb_server s') = ks_write (db (rb_server s)) b (doc_apply i (slice_bytes sh) del (ks_doc (db (rb_server s)) b))"
proof -
  let ?k = "db (rb_server s)" and ?q = "d_seq (ks_doc (db (rb_server s)) b)"
  let ?script = "applyShapeScript R (seqKey b) (shapesKey b) i (if del then ''1'' else ''0'') (slice_bytes sh)"
  obtain x t where x: "request R ?script (rb_server s) = (x, t)" by fastforce
  have st: "rb_server s' = t"
    using assms(3) x
    by (auto simp: rd_ApplyShape_def on_server_def bind_redis_def reply_Int64_def return_redis_def fail_redis_def
        split: sum.splits reply.splits)
  have script: "db s2 = ?k \<or> db s2 = ks_write ?k b ((ks_doc ?k b)\<lparr>d_seq := ?q + 1\<rparr>) \<or>
      db s2 = ks_write ?k b (doc_apply i (slice_bytes sh) del (ks_doc ?k b))"
    if s1: "db s1 = ?k" and y: "?script s1 = (y, s2)" for s1 y s2
  proof (cases y)
    case (Inr r)
    then show ?thesis using apply_script_law(2) [of s1 b i del "slice_bytes sh" r s2] assms(1,2) s1 y by simp
  next
    case (Inl e')
    show ?thesis
    proof (cases "rs_call R s1 (INCR (seqKey b))")
      case (Pair z u)
      show ?thesis
      proof (cases z)
        case (Inl e'')
        then show ?thesis using y Pair s1 error_keeps [of s1 _ e'' u] by (simp add: applyShapeScript_def bind_redis_def call_def)
      next
        case (Inr r)
        have "ks_ok (db s1)" "d_seq (ks_doc (db s1) b) < redis_cap" using assms(1,2) s1 by simp_all
        note i = incr_seq [OF this Pair [unfolded Inr]]
        then have u: "db u = ks_write ?k b ((ks_doc ?k b)\<lparr>d_seq := ?q + 1\<rparr>)" using s1 by simp
        have "db s2 = db u"
          using y \<open>y = Inl e'\<close> Pair Inr i error_keeps [of u]
          by (auto simp: applyShapeScript_def bind_redis_def call_def return_redis_def Let_def split: prod.splits sum.splits if_splits)
        with u show ?thesis by simp
      qed
    qed
  qed
  show thesis using x that script unfolding st by (elim request_cases) auto
qed

end

end
