(* ===== verification/RedisBus.thy ===== *)
theory RedisBus
  imports RedisLaws
begin

text \<open>
  Publish and subscribe over Redis: the laws of the bus, the path of a message through the
  goroutine that forwards a subscription, and a concrete key-value server on which every law
  of \<open>redis_server\<close> and \<open>redis_pubsub\<close> is proved.
\<close>

section \<open>The stream of a subscription\<close>

text \<open>What a board has still to receive: its channel, the message in the forwarder's hand and,
  while the forwarder runs, what waits in the go-redis client.\<close>

definition held_list :: "forwarder \<Rightarrow> bytes list" where
  "held_list f = (case fw_held f of None \<Rightarrow> [] | Some m \<Rightarrow> [m])"

definition rd_stream :: "('r \<Rightarrow> nat \<Rightarrow> bytes list) \<Rightarrow> 'r Redis \<Rightarrow> nat \<Rightarrow> bytes list" where
  "rd_stream pending s ps =
     (case gomap_get (rb_forwarders s) ps of
        None \<Rightarrow> []
      | Some f \<Rightarrow> fw_out f @ held_list f @ (if fw_live f then pending (rb_server s) ps else []))"

definition listening :: "('r \<Rightarrow> nat \<Rightarrow> bytes option) \<Rightarrow> 'r Redis \<Rightarrow> nat \<Rightarrow> bytes \<Rightarrow> bool" where
  "listening channel_of s ps b \<longleftrightarrow>
     (\<exists>f. gomap_get (rb_forwarders s) ps = Some f \<and> fw_live f \<and> length (fw_out f) \<le> out_buffer) \<and>
     channel_of (rb_server s) ps = Some (channelKey b)"

definition fwd_run :: "'r RedisServer \<Rightarrow> nat \<Rightarrow> fwd_case list \<Rightarrow> 'r Redis \<Rightarrow> 'r Redis" where
  "fwd_run R ps es s = fold (\<lambda>e. fwd_step R e ps) es s"

text \<open>Receiving again and again, each time after some steps of the forwarder.\<close>

fun rd_drain :: "'r RedisServer \<Rightarrow> nat \<Rightarrow> fwd_case list list \<Rightarrow> 'r Redis \<Rightarrow> bytes option list \<times> 'r Redis" where
  "rd_drain R ps [] s = ([], s)"
| "rd_drain R ps (es # ess) s =
     (case rd_recv (fwd_run R ps es s) ps of (x, t) \<Rightarrow>
        (case rd_drain R ps ess t of (xs, u) \<Rightarrow> (x # xs, u)))"

text \<open>The receiver's channel never holds more than its capacity, whatever the server does.\<close>

lemma fwd_step_bounded:
  assumes "\<And>f. gomap_get (rb_forwarders s) ps = Some f \<Longrightarrow> length (fw_out f) \<le> out_buffer"
    and "gomap_get (rb_forwarders (fwd_step R e ps s)) ps = Some f"
  shows "length (fw_out f) \<le> out_buffer"
proof (cases "gomap_get (rb_forwarders s) ps")
  case (Some g)
  have "length (fw_out g) \<le> out_buffer" using assms(1) [OF Some] .
  then show ?thesis
    using assms(2) Some
    by (auto simp: fwd_step_def stop_forwarder_def split: if_splits fwd_case.splits option.splits pubsub_next.splits prod.splits)
qed (use assms(2) in \<open>simp add: fwd_step_def\<close>)

section \<open>Laws of the bus\<close>

locale redis_pubsub = redis_server R db for R :: "'r RedisServer" and db +
  fixes channel_of :: "'r \<Rightarrow> nat \<Rightarrow> bytes option"
    and pending :: "'r \<Rightarrow> nat \<Rightarrow> bytes list"
  assumes send_bus: "rs_send R s = (x, s') \<Longrightarrow> channel_of s' = channel_of s \<and> pending s' = pending s"
    and reply_bus: "rs_reply R s = (x, s') \<Longrightarrow> channel_of s' = channel_of s \<and> pending s' = pending s"
    and publish_bus: "rs_call R s (PUBLISH ch m) = (Inr r, s') \<Longrightarrow> channel_of s' = channel_of s \<and>
      pending s' = (\<lambda>ps. if channel_of s ps = Some ch then pending s ps @ [m] else pending s ps)"
    and next_pending: "rs_next R s ps = (Pending, s') \<Longrightarrow>
      pending s ps = [] \<and> pending s' = pending s \<and> channel_of s' = channel_of s"
    and next_message: "rs_next R s ps = (Message m, s') \<Longrightarrow>
      pending s = (pending s')(ps := m # pending s' ps) \<and> channel_of s' = channel_of s"
    and next_closed: "rs_next R s ps = (Closed, s') \<Longrightarrow> channel_of s ps = None"
begin

lemma request_publish:
  assumes "request R (call R (PUBLISH ch m)) s = (Inr r, s')"
  shows "channel_of s' = channel_of s"
    "pending s' = (\<lambda>ps. if channel_of s ps = Some ch then pending s ps @ [m] else pending s ps)"
proof -
  obtain s1 s2 where s: "rs_send R s = (None, s1)" "rs_call R s1 (PUBLISH ch m) = (Inr r, s2)" "rs_reply R s2 = (None, s')"
    using assms by (auto simp: request_def call_def split: prod.splits option.splits)
  then show "channel_of s' = channel_of s"
    "pending s' = (\<lambda>ps. if channel_of s ps = Some ch then pending s ps @ [m] else pending s ps)"
    using send_bus [OF s(1)] publish_bus [OF s(2)] reply_bus [OF s(3)] by (auto simp: fun_eq_iff)
qed

text \<open>
  A message published by one instance joins the end of the stream of every subscription to
  that board, on every instance that shares the server.
\<close>

lemma publish_stream:
  assumes "rd_Publish R p b m = (Inr u, p')" "rb_server s = rb_server p" "listening channel_of s ps c"
  shows "rd_stream pending (s\<lparr>rb_server := rb_server p'\<rparr>) ps = rd_stream pending s ps @ (if c = b then [m] else [])"
    "listening channel_of (s\<lparr>rb_server := rb_server p'\<rparr>) ps c"
proof -
  obtain r t where r: "request R (call R (PUBLISH (channelKey b) m)) (rb_server p) = (Inr r, t)" "rb_server p' = t"
    using assms(1) by (auto simp: rd_Publish_def on_server_def bind_redis_def return_redis_def split: prod.splits sum.splits)
  note q = request_publish [OF r(1)]
  show "rd_stream pending (s\<lparr>rb_server := rb_server p'\<rparr>) ps = rd_stream pending s ps @ (if c = b then [m] else [])"
    "listening channel_of (s\<lparr>rb_server := rb_server p'\<rparr>) ps c"
    using assms(2,3) q r(2) by (auto simp: rd_stream_def listening_def)
qed

text \<open>Forwarding neither loses nor reorders anything.\<close>

lemma fwd_step_stream:
  assumes "listening channel_of s ps b" "e \<noteq> FwdDone"
  shows "rd_stream pending (fwd_step R e ps s) ps = rd_stream pending s ps"
    "listening channel_of (fwd_step R e ps s) ps b"
proof -
  obtain f where f: "gomap_get (rb_forwarders s) ps = Some f" "fw_live f" "length (fw_out f) \<le> out_buffer"
    "channel_of (rb_server s) ps = Some (channelKey b)"
    using assms(1) by (auto simp: listening_def)
  have "rd_stream pending (fwd_step R e ps s) ps = rd_stream pending s ps \<and> listening channel_of (fwd_step R e ps s) ps b"
  proof (cases "e = FwdNext \<and> fw_held f = None")
    case True
    obtain n r where n: "rs_next R (rb_server s) ps = (n, r)" by fastforce
    show ?thesis
    proof (cases n)
      case Pending
      then show ?thesis using True f n next_pending by (auto simp: fwd_step_def rd_stream_def listening_def)
    next
      case (Message m)
      note k = next_message [OF n [unfolded Message]]
      then have "pending (rb_server s) ps = m # pending r ps" by (metis fun_upd_same)
      then show ?thesis using True f n Message k by (simp add: fwd_step_def rd_stream_def listening_def held_list_def)
    next
      case Closed
      then show ?thesis using n f(4) next_closed by simp
    qed
  next
    case False
    then show ?thesis
      using f assms by (cases e; cases "fw_held f") (auto simp: fwd_step_def rd_stream_def listening_def held_list_def)
  qed
  then show "rd_stream pending (fwd_step R e ps s) ps = rd_stream pending s ps"
    "listening channel_of (fwd_step R e ps s) ps b" by blast+
qed

lemma fwd_run_stream:
  "listening channel_of s ps b \<Longrightarrow> FwdDone \<notin> set es \<Longrightarrow>
    rd_stream pending (fwd_run R ps es s) ps = rd_stream pending s ps \<and> listening channel_of (fwd_run R ps es s) ps b"
proof (induction es arbitrary: s)
  case (Cons e es)
  then have "e \<noteq> FwdDone" by auto
  with Cons fwd_step_stream [of s ps b e] show ?case by (simp add: fwd_run_def)
qed (simp add: fwd_run_def)

lemma recv_stream:
  assumes "listening channel_of s ps b" "rd_recv s ps = (Some x, s')"
  shows "rd_stream pending s ps = x # rd_stream pending s' ps" "listening channel_of s' ps b"
  using assms by (auto simp: rd_recv_def rd_stream_def listening_def held_list_def split: option.splits list.splits)

text \<open>The head of a stream is received after at most two steps of the forwarder.\<close>

lemma stream_head_received:
  assumes "listening channel_of s ps b" "rd_stream pending s ps = m # rest"
  obtains es s' where "FwdDone \<notin> set es" "length es \<le> 2" "rd_recv (fwd_run R ps es s) ps = (Some m, s')"
    "rd_stream pending s' ps = rest" "listening channel_of s' ps b"
proof -
  define es where "es = (if fw_out (the (gomap_get (rb_forwarders s) ps)) \<noteq> [] then []
    else if fw_held (the (gomap_get (rb_forwarders s) ps)) \<noteq> None then [FwdSend] else [FwdNext, FwdSend])"
  have es: "FwdDone \<notin> set es" "length es \<le> 2" by (auto simp: es_def)
  obtain f where f: "gomap_get (rb_forwarders s) ps = Some f" "fw_live f"
    using assms(1) by (auto simp: listening_def)
  have "rd_recv (fwd_run R ps es s) ps \<noteq> (None, fwd_run R ps es s)"
  proof (cases "fw_out f")
    case (Cons x q)
    then show ?thesis using f by (simp add: es_def fwd_run_def rd_recv_def)
  next
    case Nil
    show ?thesis
    proof (cases "fw_held f")
      case (Some y)
      then show ?thesis using f Nil by (simp add: es_def fwd_run_def rd_recv_def fwd_step_def out_buffer_def)
    next
      case None
      obtain n r where n: "rs_next R (rb_server s) ps = (n, r)" by fastforce
      have "pending (rb_server s) ps = m # rest" using assms(2) f Nil None by (simp add: rd_stream_def held_list_def)
      then obtain y where "n = Message y"
        using n next_pending [of "rb_server s" ps r] next_closed [of "rb_server s" ps r] assms(1)
        by (cases n) (auto simp: listening_def)
      then show ?thesis using f Nil None n by (simp add: es_def fwd_run_def rd_recv_def fwd_step_def out_buffer_def)
    qed
  qed
  then obtain x s' where x: "rd_recv (fwd_run R ps es s) ps = (Some x, s')"
    by (auto simp: rd_recv_def split: option.splits list.splits)
  note k = fwd_run_stream [OF assms(1) es(1)]
  have "rd_stream pending (fwd_run R ps es s) ps = x # rd_stream pending s' ps" "listening channel_of s' ps b"
    using recv_stream [OF _ x] k by blast+
  with k assms(2) x es that show thesis by simp
qed

lemma stream_received:
  assumes "listening channel_of s ps b" "rd_stream pending s ps = xs"
  shows "\<exists>ess s'. length ess = length xs \<and> list_all (\<lambda>es. length es \<le> 2) ess \<and>
    rd_drain R ps ess s = (map Some xs, s') \<and> rd_stream pending s' ps = []"
  using assms
proof (induction xs arbitrary: s)
  case (Cons x xs)
  obtain es t where t: "length es \<le> 2" "rd_recv (fwd_run R ps es s) ps = (Some x, t)"
    "rd_stream pending t ps = xs" "listening channel_of t ps b"
    using stream_head_received [OF Cons.prems] by metis
  obtain ess s' where "length ess = length xs" "list_all (\<lambda>es. length es \<le> 2) ess"
    "rd_drain R ps ess t = (map Some xs, s')" "rd_stream pending s' ps = []"
    using Cons.IH [OF t(4,3)] by blast
  with t(1,2) show ?case by (intro exI [of _ "es # ess"]) simp
qed simp

end

section \<open>A concrete server\<close>

text \<open>A single-threaded server on association lists; its connection loses every reply or none.\<close>

record sim =
  sim_str :: "(bytes, bytes) gomap"
  sim_hash :: "(bytes, (bytes, bytes) gomap) gomap"
  sim_subs :: "(nat, bytes \<times> bytes list) gomap"
  sim_lossy :: bool

definition sim_fields :: "sim \<Rightarrow> bytes \<Rightarrow> (bytes, bytes) gomap" where
  "sim_fields s k = (case gomap_get (sim_hash s) k of None \<Rightarrow> [] | Some m \<Rightarrow> m)"

definition sim_put :: "sim \<Rightarrow> bytes \<Rightarrow> (bytes, bytes) gomap \<Rightarrow> sim" where
  "sim_put s k m = s\<lparr>sim_hash := gomap_put k m (sim_hash s)\<rparr>"

definition sim_counter :: "sim \<Rightarrow> bytes \<Rightarrow> int option" where
  "sim_counter s k =
     (case gomap_get (sim_str s) k of
        None \<Rightarrow> Some 0
      | Some v \<Rightarrow> if v \<noteq> [] \<and> list_all is_digit v then Some (digits_val v) else None)"

definition sim_post :: "bytes \<Rightarrow> bytes \<Rightarrow> nat \<times> bytes \<times> bytes list \<Rightarrow> nat \<times> bytes \<times> bytes list" where
  "sim_post ch m e = (case e of (ps, c, q) \<Rightarrow> (ps, c, if c = ch then q @ [m] else q))"

fun sim_call :: "sim \<Rightarrow> redis_cmd \<Rightarrow> reply go_result \<times> sim" where
  "sim_call s (INCR k) =
     (case sim_counter s k of
        None \<Rightarrow> (Inl ''ERR value is not an integer or out of range'', s)
      | Some n \<Rightarrow>
          if n + 1 < 2 ^ 63 then (Inr (RInt (n + 1)), s\<lparr>sim_str := gomap_put k (format_int (n + 1)) (sim_str s)\<rparr>)
          else (Inl ''ERR increment or decrement would overflow'', s))"
| "sim_call s (EXISTS k) = (Inr (RInt (if gomap_get (sim_str s) k = None \<and> sim_fields s k = [] then 0 else 1)), s)"
| "sim_call s (GET k) = (Inr (case gomap_get (sim_str s) k of None \<Rightarrow> RNil | Some v \<Rightarrow> RBulk v), s)"
| "sim_call s (SET k v) = (Inr RStatus, (sim_put s k [])\<lparr>sim_str := gomap_put k v (sim_str s)\<rparr>)"
| "sim_call s (HSET k f v) = (Inr (RInt 1), sim_put s k (gomap_put f v (sim_fields s k)))"
| "sim_call s (HDEL k f) = (Inr (RInt 1), sim_put s k (gomap_del f (sim_fields s k)))"
| "sim_call s (HGETALL k) = (Inr (RPairs (AList.clearjunk (sim_fields s k))), s)"
| "sim_call s (PUBLISH ch m) = (Inr (RInt 1), s\<lparr>sim_subs := map (sim_post ch m) (sim_subs s)\<rparr>)"

definition sim_next :: "sim \<Rightarrow> nat \<Rightarrow> pubsub_next \<times> sim" where
  "sim_next s ps =
     (case gomap_get (sim_subs s) ps of
        None \<Rightarrow> (Closed, s)
      | Some (c, []) \<Rightarrow> (Pending, s)
      | Some (c, m # q) \<Rightarrow> (Message m, s\<lparr>sim_subs := gomap_put ps (c, q) (sim_subs s)\<rparr>))"

definition sim_server :: "sim RedisServer" where
  "sim_server =
     \<lparr>rs_call = sim_call, rs_send = (\<lambda>s. (None, s)), rs_reply = (\<lambda>s. (if sim_lossy s then Some ''i/o timeout'' else None, s)),
      rs_subscribe = (\<lambda>s ch. (length (sim_subs s), s\<lparr>sim_subs := sim_subs s @ [(length (sim_subs s), ch, [])]\<rparr>)),
      rs_receive = (\<lambda>s ps. (None, s)), rs_next = sim_next,
      rs_unsubscribe = (\<lambda>s ps. s\<lparr>sim_subs := gomap_del ps (sim_subs s)\<rparr>), rs_close = (\<lambda>s. (Inr (), s))\<rparr>"

definition sim_db :: "sim \<Rightarrow> keyspace" where
  "sim_db s = \<lparr>ks_str = gomap_get (sim_str s), ks_hash = (\<lambda>k. gomap_get (sim_fields s k))\<rparr>"

definition sim_channel :: "sim \<Rightarrow> nat \<Rightarrow> bytes option" where
  "sim_channel s ps = map_option fst (gomap_get (sim_subs s) ps)"

definition sim_pending :: "sim \<Rightarrow> nat \<Rightarrow> bytes list" where
  "sim_pending s ps = (case gomap_get (sim_subs s) ps of None \<Rightarrow> [] | Some (c, q) \<Rightarrow> q)"

definition sim_empty :: sim where
  "sim_empty = \<lparr>sim_str = [], sim_hash = [], sim_subs = [], sim_lossy = False\<rparr>"

lemma sim_fields_simps [simp]:
  "sim_fields (sim_put s k m) j = (if j = k then m else sim_fields s j)"
  "sim_fields (s\<lparr>sim_str := x\<rparr>) j = sim_fields s j" "sim_fields (s\<lparr>sim_subs := y\<rparr>) j = sim_fields s j"
  "sim_str (sim_put s k m) = sim_str s" "sim_subs (sim_put s k m) = sim_subs s"
  by (simp_all add: sim_fields_def sim_put_def)

lemma sim_exists: "gomap_get (sim_fields s k) = Map.empty \<longleftrightarrow> sim_fields s k = []"
  by (rule map_of_eq_empty_iff)

lemma sim_post_get: "gomap_get (map (sim_post ch m) subs) ps =
    map_option (\<lambda>(c, q). (c, if c = ch then q @ [m] else q)) (gomap_get subs ps)"
  by (induction subs) (auto simp: sim_post_def split: prod.splits)

lemma sim_post_channel: "map_option fst (gomap_get (map (sim_post ch m) subs) ps) = map_option fst (gomap_get subs ps)"
  by (cases "gomap_get subs ps") (auto simp: sim_post_get)

interpretation sim: redis_pubsub sim_server sim_db sim_channel sim_pending
proof (unfold_locales, goal_cases)
  case (5 n s k r s')
  then have "sim_counter s k = Some n"
    using format_int_digits [of n] by (auto simp: sim_counter_def sim_db_def split: option.splits)
  with 5 show ?case by (auto simp: sim_server_def sim_db_def split: if_splits)
next
  case (15 s ch m r s')
  then show ?case
    by (auto simp: sim_server_def sim_channel_def sim_post_channel)
      (auto simp: sim_pending_def sim_post_get fun_eq_iff split: option.splits prod.splits)
next
  case (3 s c e s')
  then show ?case by (cases c) (auto simp: sim_server_def split: option.splits if_splits)
next
  case (4 s e s' c)
  then show ?case by (cases c) (auto simp: sim_server_def redis_Nil_def split: option.splits if_splits)
next
  case (6 s k r s')
  then show ?case by (auto simp: sim_server_def sim_db_def sim_exists)
next
  case (11 s k r s')
  then show ?case
    by (auto simp: sim_server_def sim_db_def gomap_ok_def distinct_clearjunk map_of_clearjunk)
qed (auto simp: sim_server_def sim_db_def sim_next_def sim_channel_def sim_pending_def fun_eq_iff
  split: option.splits prod.splits list.splits)

lemma sim_empty_ok: "ks_ok (sim_db sim_empty)" "ks_doc (sim_db sim_empty) b = empty_doc"
proof -
  show d: "ks_doc (sim_db sim_empty) b = empty_doc" for b
    by (simp add: ks_doc_def sim_db_def sim_empty_def sim_fields_def empty_doc_def)
  then show "ks_ok (sim_db sim_empty)"
    by (simp add: ks_ok_def keys_ok_def ks_typed_def) (simp add: sim_db_def sim_empty_def sim_fields_def)
qed

section \<open>What the contract gives\<close>

context redis_server
begin

lemma last_write_wins:
  assumes "apply_log (redis_broker R) b ops s = Some t" "ks_ok (db (rb_server s))"
    "ks_doc (db (rb_server s)) b = empty_doc" "length ops < 10 ^ 14" "rd_Snapshot R t b = (Inr snap, t')"
  shows "snap_Seq snap = of_nat (length ops)" "sorted (map ss_Seq (snap_Shapes snap))"
    "(\<exists>x \<in> set (snap_Shapes snap). ss_ID x = i \<and> ss_Seq x = q \<and> slice_bytes (ss_Shape x) = v) \<longleftrightarrow>
      (\<exists>n. last_write (log_of ops) i = Some (n, i, v, False) \<and> q = of_nat n)"
proof -
  have "br_Snapshot (redis_broker R) t b = (Inr snap, t')" "length ops \<le> unat redis_cap"
    using assms(4,5) by (simp_all add: redis_broker_def redis_cap_def)
  from rb.snapshot_last_write_wins [OF assms(1-3) this(2,1)]
  show "snap_Seq snap = of_nat (length ops)" "sorted (map ss_Seq (snap_Shapes snap))"
    "(\<exists>x \<in> set (snap_Shapes snap). ss_ID x = i \<and> ss_Seq x = q \<and> slice_bytes (ss_Shape x) = v) \<longleftrightarrow>
      (\<exists>n. last_write (log_of ops) i = Some (n, i, v, False) \<and> q = of_nat n)" by blast+
qed

end

section \<open>Properties\<close>

text \<open>(C9)
  Last write wins across instances: whatever instances make the calls, a log of \<^verbatim>\<open>ApplyShape\<close>
  calls on the Redis broker that starts from an empty board leaves a snapshot with the number of
  calls as its sequence number, its shapes sorted by sequence number, and each shape present
  exactly if its last call was no deletion, with that call's blob and position. The bound is that
  of the stamps, 14 digits.
\<close>

theorem redis_last_write_wins:
  assumes "redis_server R db" "apply_log (redis_broker R) b ops s = Some t" "ks_ok (db (rb_server s))"
    "ks_doc (db (rb_server s)) b = empty_doc" "length ops < 10 ^ 14" "rd_Snapshot R t b = (Inr snap, t')"
  shows "snap_Seq snap = of_nat (length ops) \<and> sorted (map ss_Seq (snap_Shapes snap)) \<and>
    (\<forall>i q v. (\<exists>x \<in> set (snap_Shapes snap). ss_ID x = i \<and> ss_Seq x = q \<and> slice_bytes (ss_Shape x) = v) \<longleftrightarrow>
      (\<exists>n. last_write (log_of ops) i = Some (n, i, v, False) \<and> q = of_nat n))"
  using redis_server.last_write_wins [OF assms] by blast

theorem redis_last_write_wins_witness:
  "\<exists>t t' snap. apply_log (redis_broker sim_server) ''x''
      [(''a'', Some ''1'', False), (''b'', Some ''2'', False), (''a'', Some ''3'', False), (''b'', None, True)]
      (NewRedis sim_empty) = Some t \<and>
    rd_Snapshot sim_server t ''x'' = (Inr snap, t') \<and> snap_Seq snap = 4 \<and>
    (\<exists>x \<in> set (snap_Shapes snap). ss_ID x = ''a'' \<and> ss_Seq x = 3 \<and> slice_bytes (ss_Shape x) = ''3'')"
proof -
  let ?ops = "[(''a'', Some ''1'', False), (''b'', Some ''2'', False), (''a'', Some ''3'', False), (''b'', None, True)]"
  have "apply_log (redis_broker sim_server) ''x'' ?ops (NewRedis sim_empty) \<noteq> None" by code_simp
  then obtain t where t: "apply_log (redis_broker sim_server) ''x'' ?ops (NewRedis sim_empty) = Some t" by blast
  have "\<not> isl (fst (rd_Snapshot sim_server (the (apply_log (redis_broker sim_server) ''x'' ?ops (NewRedis sim_empty))) ''x''))"
    by code_simp
  then obtain snap t' where snap: "rd_Snapshot sim_server t ''x'' = (Inr snap, t')"
    unfolding t by (metis isl_def option.sel prod.collapse sum.exhaust_sel)
  have l: "last_write (log_of ?ops) ''a'' = Some (3, ''a'', ''3'', False)" by (simp add: last_write_def)
  have "ks_ok (sim_db (rb_server (NewRedis sim_empty)))" "ks_doc (sim_db (rb_server (NewRedis sim_empty))) ''x'' = empty_doc"
    "length ?ops < 10 ^ 14"
    by (simp_all add: NewRedis_def sim_empty_ok)
  from redis_last_write_wins [OF sim.redis_server_axioms t this snap]
  have "snap_Seq snap = 4"
    "\<exists>x \<in> set (snap_Shapes snap). ss_ID x = ''a'' \<and> ss_Seq x = of_nat 3 \<and> slice_bytes (ss_Shape x) = ''3''"
    using l by (simp, blast)
  then show ?thesis using t snap by auto
qed



text \<open>(C27)
  What an error of \<^verbatim>\<open>ApplyShape\<close> leaves behind: the board's document is as it was, or it has only
  lost a sequence number, or it holds the operation although the caller, who will not publish it,
  was told otherwise. No other board and no roster changes, and the server stays well formed.
\<close>

theorem redis_apply_error:
  assumes "redis_server R db" "ks_ok (db (rb_server s))" "d_seq (ks_doc (db (rb_server s)) b) < redis_cap"
    "rd_ApplyShape R s b i sh del = (Inl e, s')"
  shows "\<exists>d \<in> {ks_doc (db (rb_server s)) b,
        (ks_doc (db (rb_server s)) b)\<lparr>d_seq := d_seq (ks_doc (db (rb_server s)) b) + 1\<rparr>,
        doc_apply i (slice_bytes sh) del (ks_doc (db (rb_server s)) b)}.
      ks_doc (db (rb_server s')) = (ks_doc (db (rb_server s)))(b := d) \<and>
      ks_ok (db (rb_server s')) \<and> ks_roster (db (rb_server s')) = ks_roster (db (rb_server s))"
proof -
  let ?d = "ks_doc (db (rb_server s)) b"
  have d: "doc_ok ?d" using assms(2) by (simp add: ks_ok_def)
  have ne: "d_seq ?d \<noteq> - 1" using assms(3) by (rule less_u64_ne_max)
  have "d_seq ?d \<le> d_seq ?d + 1" using less_Suc_u64 [OF ne] by simp
  then have d1: "doc_ok (?d\<lparr>d_seq := d_seq ?d + 1\<rparr>)" using d unfolding doc_ok_def by (auto intro: order_trans)
  have d2: "doc_ok (doc_apply i (slice_bytes sh) del ?d)" using d ne by (rule doc_apply_ok)
  from assms show ?thesis
  proof (rule redis_server.rd_ApplyShape_error)
  qed (use assms(2) d1 d2 in \<open>auto simp: ks_doc_write ks_ok_write\<close>)
qed

theorem redis_apply_error_witness:
  "\<exists>s' e. rd_ApplyShape sim_server (NewRedis (sim_empty\<lparr>sim_lossy := True\<rparr>)) ''x'' ''a'' None False = (Inl e, s') \<and>
    ks_ok (sim_db (rb_server s'))"
proof -
  let ?s = "NewRedis (sim_empty\<lparr>sim_lossy := True\<rparr>)"
  have "isl (fst (rd_ApplyShape sim_server ?s ''x'' ''a'' None False))" by code_simp
  then obtain e s' where e: "rd_ApplyShape sim_server ?s ''x'' ''a'' None False = (Inl e, s')"
    by (metis isl_def prod.collapse)
  have "sim_db (rb_server ?s) = sim_db sim_empty"
    by (simp add: NewRedis_def sim_db_def sim_fields_def sim_empty_def)
  then have "ks_ok (sim_db (rb_server ?s))" "d_seq (ks_doc (sim_db (rb_server ?s)) ''x'') < redis_cap"
    by (simp_all add: sim_empty_ok empty_doc_def redis_cap_def)
  with redis_apply_error [OF sim.redis_server_axioms this e] e show ?thesis by blast
qed

text \<open>(C28)
  The stamp a script writes beside a shape is exact up to 14 digits and no further: from
  100000000000000 on Lua prints the number in scientific notation, which a snapshot cannot
  parse, so that the shape would come back with sequence number 0.
\<close>

theorem redis_stamp_limit:
  assumes "0 < n" "n < 2 ^ 63"
  shows "map_option ss_Seq (snapshot_entry (i, lua_tostring (lua_number n) @ c_newline # blob)) =
    Some (if n < 10 ^ 14 then of_int n else 0)"
proof (cases "n < 10 ^ 14")
  case True
  have "format_int n = format_uint (of_int n)" using assms by (intro format_int_uint) simp_all
  then have "lua_tostring (lua_number n) @ c_newline # blob = stored_value (of_int n) blob"
    using True assms by (simp add: lua_number_exact lua_tostring_small stored_value_def)
  then show ?thesis using True snapshot_entry_stored [of i "of_int n" blob] by simp
next
  case False
  then obtain c d r where cd: "lua_tostring (lua_number n) = c # d # r" "d = CHR ''.'' \<or> d = CHR ''e''"
    using lua_tostring_large [OF lua_number_large] by (metis not_less)
  then have "\<not> is_digit d" by (auto simp: is_digit_def)
  with cd ParseUint_second [of d c] False show ?thesis
    by (auto simp: snapshot_entry_def Let_def ParseUint_def)
qed

theorem redis_stamp_limit_witness:
  "map_option ss_Seq (snapshot_entry (''a'', lua_tostring (lua_number (10 ^ 14)) @ c_newline # ''{}'')) = Some 0"
  using redis_stamp_limit [of "10 ^ 14" "''a''" "''{}''"] by simp

text \<open>(C30)
  A snapshot is two commands. If other instances write in between, it pairs the shapes of the
  document before their writes with the sequence number after them: every shape is as old as
  the first command, the sequence number as new as the second.
\<close>

theorem redis_snapshot_not_atomic:
  assumes "redis_server R db" "rd_Snapshot_with R others s b = (Inr snap, s')" "ks_ok (db (rb_server s))"
    "\<forall>t. db t = db (rb_server s) \<longrightarrow> ks_ok (db (others t)) \<and> ks_doc (db (others t)) b = d"
  shows "snap_Seq snap = d_seq d \<and> sorted (map ss_Seq (snap_Shapes snap)) \<and>
    d_shapes (doc_of_snapshot snap) = d_shapes (ks_doc (db (rb_server s)) b)"
proof -
  obtain t where t: "db t = db (rb_server s)" "snap_Seq snap = d_seq (ks_doc (db (others t)) b)"
    "snapshot_of (ks_doc (db (rb_server s)) b) (snap\<lparr>snap_Seq := d_seq (ks_doc (db (rb_server s)) b)\<rparr>)"
    using redis_server.rd_Snapshot_with_law [OF assms(1-3)] assms(4) by metis
  have "d_shapes (doc_of_snapshot (snap\<lparr>snap_Seq := q\<rparr>)) = d_shapes (doc_of_snapshot snap)" for q
    by (simp add: doc_of_snapshot_def)
  with t assms(4) show ?thesis by (simp add: snapshot_of_def) metis
qed

theorem redis_snapshot_not_atomic_witness:
  "\<exists>snap s'. rd_Snapshot_with sim_server
      (\<lambda>t. rb_server (snd (rd_ApplyShape sim_server (NewRedis sim_empty) ''x'' ''a'' None False)))
      (NewRedis sim_empty) ''x'' = (Inr snap, s') \<and>
    snap_Seq snap = 1 \<and> d_shapes (doc_of_snapshot snap) = Map.empty"
proof -
  let ?r = "rd_ApplyShape sim_server (NewRedis sim_empty) ''x'' ''a'' None False"
  let ?others = "\<lambda>t. rb_server (snd ?r)"
  have ok: "ks_ok (sim_db (rb_server (NewRedis sim_empty)))" "ks_doc (sim_db (rb_server (NewRedis sim_empty))) ''x'' = empty_doc"
    by (simp_all add: NewRedis_def sim_empty_ok)
  have "\<not> isl (fst ?r)" "\<not> isl (fst (rd_Snapshot_with sim_server ?others (NewRedis sim_empty) ''x''))" by code_simp+
  then obtain n snap s' where n: "?r = (Inr n, snd ?r)"
    and snap: "rd_Snapshot_with sim_server ?others (NewRedis sim_empty) ''x'' = (Inr snap, s')"
    by (metis isl_def prod.collapse sum.exhaust_sel)
  have "d_seq (ks_doc (sim_db (rb_server (NewRedis sim_empty))) ''x'') < redis_cap"
    by (simp add: ok empty_doc_def redis_cap_def)
  note a = sim.rd_ApplyShape_law [OF ok(1) this n]
  have "\<forall>t. sim_db t = sim_db (rb_server (NewRedis sim_empty)) \<longrightarrow>
      ks_ok (sim_db (?others t)) \<and> ks_doc (sim_db (?others t)) ''x'' = doc_apply ''a'' [] False empty_doc"
    using a(2,3) ok(2) by (simp add: ks_doc_write)
  from redis_snapshot_not_atomic [OF sim.redis_server_axioms snap ok(1) this] snap ok(2)
  show ?thesis by (auto simp: empty_doc_def)
qed

end
