(* ===== verification/JsonArray.thy ===== *)
theory JsonArray
  imports JsonLaws
begin

text \<open>
  Decoding of JSON arrays, for the two decoders that meet one: Go's, into a slice of structs, and
  the browser's.
\<close>

section \<open>Decoding a JSON array of structs\<close>

text \<open>The elements of an array whose bracket is consumed, as raw texts.\<close>

fun elements :: "nat \<Rightarrow> bytes \<Rightarrow> bytes list option" where
  "elements 0 s = None"
| "elements (Suc n) s =
     (case take_value s of
        None \<Rightarrow> None
      | Some (v, r) \<Rightarrow>
          (case skip_ws r of
             [] \<Rightarrow> None
           | d # ds \<Rightarrow>
               if d = c_comma then map_option ((#) v) (elements n ds)
               else if d = c_rbrack then Some [v] else None))"

definition array_elements :: "bytes \<Rightarrow> bytes list option" where
  "array_elements s =
     (case skip_ws s of
        c # cs \<Rightarrow>
          if c \<noteq> c_lbrack then None
          else (case skip_ws cs of
            d # ds \<Rightarrow> if d = c_rbrack then Some [] else elements (length s) (d # ds)
          | [] \<Rightarrow> None)
      | [] \<Rightarrow> None)"

text \<open>\<^verbatim>\<open>json.Unmarshal\<close> into a slice of structs: every element is decoded, the first error is reported.\<close>

definition unmarshal_list :: "'a setter \<Rightarrow> 'a \<Rightarrow> bytes \<Rightarrow> go_error option \<times> 'a list" where
  "unmarshal_list f zero s =
     (if \<not> json_valid s then (Some ''invalid character'', [])
      else if fst (the (take_value s)) = json_null then (None, [])
      else (case array_elements s of
        None \<Rightarrow> (Some ''cannot unmarshal into slice'', [])
      | Some vs \<Rightarrow>
          (let rs = map (\<lambda>v. unmarshal f v zero) vs in
           (case List.find (\<lambda>r. fst r \<noteq> None) rs of None \<Rightarrow> None | Some r \<Rightarrow> fst r, map snd rs))))"

section \<open>Laws of the decoder\<close>

lemma elements_array:
  assumes "list_all canonical vs" "vs \<noteq> []" "length vs \<le> n"
  shows "elements n (join_comma vs @ c_rbrack # t) = Some vs"
  using assms
proof (induction vs arbitrary: n rule: join_comma.induct)
  case (2 x)
  then obtain k where "n = Suc k" by (cases n) auto
  with 2 show ?case by (simp add: take_value_canonical)
next
  case (3 x y zs)
  then obtain k where "n = Suc k" by (cases n) auto
  with 3 show ?case by (simp add: take_value_canonical)
qed simp

lemma length_join: "list_all canonical vs \<Longrightarrow> length vs \<le> length (join_comma vs) + 1"
  by (induction vs rule: join_comma.induct) auto

lemma array_elements_array:
  assumes "list_all canonical vs"
  shows "array_elements (json_array vs) = Some vs"
proof (cases "vs = []")
  case True
  then show ?thesis by (simp add: array_elements_def json_array_def)
next
  case False
  then have c: "canonical (hd vs)" using assms by (cases vs) auto
  then obtain x xs where x: "hd vs = x # xs" using canonical_ne by (cases "hd vs") auto
  have hd: "x \<noteq> c_rbrack" "\<not> is_ws x"
    using canonical_hd_rbrack [OF c] c x by (auto simp: canonical_def)
  have j: "join_comma vs = x # tl (join_comma vs)" using join_hd [OF False] x by simp
  have "length vs \<le> length (json_array vs)"
    using length_join [OF assms] by (simp add: json_array_def)
  then have "elements (length (json_array vs)) (join_comma vs @ [c_rbrack]) = Some vs"
    using elements_array [OF assms False, of _ "[]"] by simp
  moreover have "skip_ws (join_comma vs @ [c_rbrack]) = join_comma vs @ [c_rbrack]"
    "hd (join_comma vs @ [c_rbrack]) = x"
    using j hd(2) by (metis append_Cons dropWhile.simps(2), metis append_Cons list.sel(1))
  ultimately show ?thesis
    using hd by (cases "join_comma vs @ [c_rbrack]") (simp_all add: array_elements_def json_array_def del: elements.simps)
qed

lemma scan_skip_ws: "scan (skip_ws s) = scan s"
proof -
  have "dropWhile is_ws (skip_ws s) = skip_ws s" by (induction s) auto
  then have "scan_value (Suc (2 * length s)) (skip_ws s) = scan_value (Suc (2 * length s)) s" by simp
  then show ?thesis
    using scan_value_fuel [of "skip_ws s" "Suc (2 * length s)"] length_skip_ws [of s] by (simp add: scan_def del: scan_value.simps)
qed

text \<open>The text of a value starts where the value does, so an array or an object is not \<^verbatim>\<open>null\<close>.\<close>

lemma value_text_not_null:
  assumes "json_valid s" "skip_ws s = c # cs" "c \<noteq> CHR ''n''"
  shows "fst (the (take_value s)) \<noteq> json_null"
proof -
  obtain r where r: "scan (skip_ws s) = Some r" using assms(1) by (auto simp: json_valid_def scan_skip_ws split: option.splits)
  then have "length r < length (skip_ws s)" using at_length(1) by (simp add: scan_eq_iff)
  then obtain n where "length (skip_ws s) - length r = Suc n" by (metis Suc_diff_Suc)
  with r assms(2,3) show ?thesis by (simp add: take_value_def json_null_def)
qed

lemma array_not_null: "json_valid s \<Longrightarrow> array_elements s = Some vs \<Longrightarrow> fst (the (take_value s)) \<noteq> json_null"
  by (rule value_text_not_null [of s c_lbrack "tl (skip_ws s)"])
    (auto simp: array_elements_def split: list.splits if_splits)

lemma object_not_null: "json_valid s \<Longrightarrow> object_members s = Some ms \<Longrightarrow> fst (the (take_value s)) \<noteq> json_null"
  by (rule value_text_not_null [of s c_lbrace "tl (skip_ws s)"])
    (auto simp: object_members_def split: list.splits if_splits)

end
