(* ===== verification/PostgresStore.thy ===== *)
theory PostgresStore
  imports Store JsonArray
begin

text \<open>
  The durable store of \<^verbatim>\<open>internal/store/postgres.go\<close>: one row per board, its shapes as
  JSON. The database is a parameter; each of the program's three SQL statements is one of
  its operations, and the locale \<open>postgres_db\<close> says what Postgres documents of them. A
  \<^verbatim>\<open>JSONB\<close> column keeps the value of a JSON text, not the text: \<open>jsonb\<close> is what comes back.
\<close>

section \<open>The shapes of a snapshot\<close>

definition zero_SnapshotShape :: SnapshotShape where
  "zero_SnapshotShape = \<lparr>ss_Seq = 0, ss_ID = [], ss_Shape = None\<rparr>"

definition set_SnapshotShape :: "SnapshotShape setter" where
  "set_SnapshotShape k v x =
     (if key_matches ''seq'' k then
        (case get_uint v (ss_Seq x) of (e, n) \<Rightarrow> (e, x\<lparr>ss_Seq := n\<rparr>))
      else if key_matches ''id'' k then
        (case get_string v (ss_ID x) of (e, s) \<Rightarrow> (e, x\<lparr>ss_ID := s\<rparr>))
      else if key_matches ''shape'' k then (None, x\<lparr>ss_Shape := Some v\<rparr>)
      else (None, x))"

definition unmarshal_shapes :: "bytes \<Rightarrow> go_error option \<times> SnapshotShape list" where
  "unmarshal_shapes = unmarshal_list set_SnapshotShape zero_SnapshotShape"

definition marshal_shapes :: "SnapshotShape list \<Rightarrow> bytes go_result" where
  "marshal_shapes shapes = bind_result (map_result marshal_SnapshotShape shapes) (\<lambda>vs. Inr (json_array vs))"

section \<open>The database and the store\<close>

definition pgx_ErrNoRows :: go_error where "pgx_ErrNoRows = ''no rows in result set''"

record 'd Database =
  pg_connect :: "bytes \<Rightarrow> 'd go_result"
  pg_schema :: "'d \<Rightarrow> go_error option \<times> 'd"
  pg_select :: "'d \<Rightarrow> bytes \<Rightarrow> (int \<times> bytes) go_result \<times> 'd"
  pg_upsert :: "'d \<Rightarrow> bytes \<Rightarrow> int \<Rightarrow> bytes \<Rightarrow> unit go_result \<times> 'd"
  pg_close :: "'d \<Rightarrow> 'd"

text \<open>The store, or an error; beside it the pool that was opened, if any, as the call leaves it.\<close>

definition NewPostgres :: "'d Database \<Rightarrow> bytes \<Rightarrow> 'd go_result \<times> 'd option" where
  "NewPostgres D dsn =
     (case pg_connect D dsn of
        Inl err \<Rightarrow> (Inl err, None)
      | Inr pool \<Rightarrow>
          (case pg_schema D pool of
             (Some err, p) \<Rightarrow> (Inl err, Some (pg_close D p))
           | (None, p) \<Rightarrow> (Inr p, Some p)))"

definition ps_LoadSnapshot :: "'d Database \<Rightarrow> 'd \<Rightarrow> bytes \<Rightarrow> Snapshot option go_result \<times> 'd" where
  "ps_LoadSnapshot D p boardID =
     (case pg_select D p boardID of
        (Inl err, p1) \<Rightarrow> if err = pgx_ErrNoRows then (Inr None, p1) else (Inl err, p1)
      | (Inr (seq, shapesJSON), p1) \<Rightarrow>
          (case unmarshal_shapes shapesJSON of
             (Some err, shapes) \<Rightarrow> (Inl err, p1)
           | (None, shapes) \<Rightarrow> (Inr (Some \<lparr>snap_Seq = of_int seq, snap_Shapes = shapes\<rparr>), p1)))"

text \<open>\<^verbatim>\<open>int64(snap.Seq)\<close> reads the same 64 bits as a signed number.\<close>

definition ps_SaveSnapshot :: "'d Database \<Rightarrow> 'd \<Rightarrow> bytes \<Rightarrow> Snapshot \<Rightarrow> unit go_result \<times> 'd" where
  "ps_SaveSnapshot D p boardID snap =
     (case marshal_shapes (snap_Shapes snap) of
        Inl err \<Rightarrow> (Inl err, p)
      | Inr shapesJSON \<Rightarrow> pg_upsert D p boardID (sint (snap_Seq snap)) shapesJSON)"

definition ps_Close :: "'d Database \<Rightarrow> 'd \<Rightarrow> unit go_result \<times> 'd" where
  "ps_Close D p = (Inr (), pg_close D p)"

definition postgres_store :: "'d Database \<Rightarrow> 'd Store" where
  "postgres_store D =
     \<lparr>st_LoadSnapshot = ps_LoadSnapshot D, st_SaveSnapshot = ps_SaveSnapshot D, st_Close = ps_Close D\<rparr>"

section \<open>The database's contract\<close>

text \<open>How a shape comes back from a \<^verbatim>\<open>JSONB\<close> column: compacted by the encoder, rewritten by the
  database; a nil shape was written as \<^verbatim>\<open>null\<close>.\<close>

definition shape_json :: "SnapshotShape \<Rightarrow> bytes" where
  "shape_json x = (case ss_Shape x of None \<Rightarrow> json_null | Some s \<Rightarrow> compact False s)"

definition jsonb_snapshot :: "(bytes \<Rightarrow> bytes) \<Rightarrow> Snapshot \<Rightarrow> Snapshot" where
  "jsonb_snapshot jsonb x =
     x\<lparr>snap_Shapes := map (\<lambda>s. s\<lparr>ss_Shape := Some (jsonb (shape_json s))\<rparr>) (snap_Shapes x)\<rparr>"

definition row_snapshot :: "int \<times> bytes \<Rightarrow> Snapshot" where
  "row_snapshot r = \<lparr>snap_Seq = of_int (fst r), snap_Shapes = snd (unmarshal_shapes (snd r))\<rparr>"

definition rows_ok :: "(bytes \<rightharpoonup> int \<times> bytes) \<Rightarrow> bool" where
  "rows_ok rows \<longleftrightarrow> (\<forall>b q js. rows b = Some (q, js) \<longrightarrow> 0 \<le> q \<and> q < 2 ^ 63 \<and> fst (unmarshal_shapes js) = None)"

locale postgres_db =
  fixes D :: "'d Database"
    and rows :: "'d \<Rightarrow> bytes \<rightharpoonup> int \<times> bytes"
    and jsonb :: "bytes \<Rightarrow> bytes"
  assumes select_law: "pg_select D p b = (Inr r, p') \<Longrightarrow> rows p' = rows p \<and> rows p b = Some r"
    and select_none: "pg_select D p b = (Inl pgx_ErrNoRows, p') \<Longrightarrow> rows p' = rows p \<and> rows p b = None"
    and upsert_law: "pg_upsert D p b q js = (Inr u, p') \<Longrightarrow>
      rows p' = (if \<exists>q' js'. rows p b = Some (q', js') \<and> \<not> q \<ge> q' then rows p else (rows p)(b \<mapsto> (q, jsonb js)))"
    and jsonb_valid: "json_valid v \<Longrightarrow> json_valid (jsonb v)"
    and jsonb_array: "json_valid v \<Longrightarrow> array_elements v = Some vs \<Longrightarrow> array_elements (jsonb v) = Some (map jsonb vs)"
    and jsonb_object: "json_valid v \<Longrightarrow> object_members v = Some ms \<Longrightarrow> distinct (map fst ms) \<Longrightarrow>
      \<exists>ms'. object_members (jsonb v) = Some ms' \<and> mset ms' = mset (map (\<lambda>(k, x). (k, jsonb x)) ms)"
    and jsonb_string: "unquote v = Some t \<Longrightarrow> unquote (jsonb v) = Some t"
    and jsonb_uint: "parse_uint v = Some n \<Longrightarrow> parse_uint (jsonb v) = Some n"
begin

lemma get_string_jsonb: "unquote v = Some t \<Longrightarrow> get_string (jsonb v) old = (None, t)"
  using jsonb_string [of v t] by (auto simp: get_string_def unquote_def json_null_def)

lemma get_uint_jsonb: "parse_uint v = Some n \<Longrightarrow> get_uint (jsonb v) old = (None, n)"
  using jsonb_uint [of v n] by (auto simp: get_uint_def parse_uint_def json_null_def is_digit_def split: if_splits)

text \<open>A shape's object is decoded to the same id and sequence number in whatever order its members come back.\<close>

lemma set_shape_members:
  assumes "mset ms = mset [(''seq'', jsonb (format_uint q)), (''id'', jsonb (marshal_string i)), (''shape'', v)]"
  shows "set_fields set_SnapshotShape ms (None, zero_SnapshotShape) = (None, \<lparr>ss_Seq = q, ss_ID = i, ss_Shape = Some v\<rparr>)"
proof -
  let ?A = "(''seq'', jsonb (format_uint q))" and ?B = "(''id'', jsonb (marshal_string i))" and ?C = "(''shape'', v)"
  have ms: "length ms = 3" "set ms = {?A, ?B, ?C}" "distinct ms"
    using mset_eq_length [OF assms] mset_eq_setD [OF assms] mset_eq_imp_distinct_iff [OF assms] by auto
  then obtain a b c where abc: "ms = [a, b, c]" by (auto simp: numeral_3_eq_3 length_Suc_conv)
  then have "a \<in> {?A, ?B, ?C}" "b \<in> {?A, ?B, ?C}" "c \<in> {?A, ?B, ?C}" "a \<noteq> b" "a \<noteq> c" "b \<noteq> c"
    using ms(2,3) by auto
  then show ?thesis unfolding abc
    by (elim insertE emptyE) (simp_all add: set_SnapshotShape_def key_eval zero_SnapshotShape_def get_uint_jsonb get_string_jsonb)
qed

lemma unmarshal_shape_jsonb:
  assumes "marshal_SnapshotShape x = Inr v"
  shows "unmarshal set_SnapshotShape (jsonb v) zero_SnapshotShape = (None, x\<lparr>ss_Shape := Some (jsonb (shape_json x))\<rparr>)"
proof -
  let ?ms = "[(''seq'', format_uint (ss_Seq x)), (''id'', marshal_string (ss_ID x)), (''shape'', shape_json x)]"
  have v: "v = json_object ?ms" "marshal_raw (ss_Shape x) = Inr (shape_json x)"
    using assms by (auto simp: marshal_SnapshotShape_def marshal_raw_def shape_json_def bind_result_def
        split: option.splits if_splits)
  then have c: "list_all (canonical \<circ> snd) ?ms"
    using marshal_raw_Inr [OF v(2)] by (simp add: canonical_string canonical_uint)
  have valid: "json_valid v" using canonical_json_valid [OF canonical_object [OF c]] v(1) by simp
  have "object_members v = Some ?ms" unfolding v(1) using c by (rule object_members_object)
  from jsonb_object [OF valid this] obtain ms where
    ms: "object_members (jsonb v) = Some ms" "mset ms = mset (map (\<lambda>(k, x). (k, jsonb x)) ?ms)" by auto
  have "unmarshal set_SnapshotShape (jsonb v) zero_SnapshotShape = set_fields set_SnapshotShape ms (None, zero_SnapshotShape)"
    using jsonb_valid [OF valid] object_not_null [OF jsonb_valid [OF valid] ms(1)] ms(1) by (simp add: unmarshal_def)
  also have "\<dots> = (None, \<lparr>ss_Seq = ss_Seq x, ss_ID = ss_ID x, ss_Shape = Some (jsonb (shape_json x))\<rparr>)"
    using ms(2) by (intro set_shape_members) simp
  finally show ?thesis by simp
qed

lemma unmarshal_shapes_jsonb:
  assumes "marshal_shapes xs = Inr js"
  shows "unmarshal_shapes (jsonb js) = (None, map (\<lambda>x. x\<lparr>ss_Shape := Some (jsonb (shape_json x))\<rparr>) xs)"
proof -
  obtain vs where vs: "map_result marshal_SnapshotShape xs = Inr vs" "js = json_array vs"
    using assms by (auto simp: marshal_shapes_def bind_result_Inr)
  note c = map_result_canonical [OF vs(1)]
  have valid: "json_valid js" unfolding vs(2) using c by (intro canonical_json_valid canonical_array)
  have el: "array_elements (jsonb js) = Some (map jsonb vs)"
    using jsonb_array [OF valid] array_elements_array [OF c] vs(2) by simp
  have "map (\<lambda>v. unmarshal set_SnapshotShape v zero_SnapshotShape) (map jsonb vs) =
      map (\<lambda>x. (None, x\<lparr>ss_Shape := Some (jsonb (shape_json x))\<rparr>)) xs"
    using vs(1) by (induction xs arbitrary: vs) (auto simp: bind_result_Inr unmarshal_shape_jsonb)
  moreover have "List.find (\<lambda>r. fst r \<noteq> None) (map (\<lambda>x. (None :: go_error option, f x)) xs) = None" for f :: "SnapshotShape \<Rightarrow> SnapshotShape"
    by (simp add: find_None_iff)
  ultimately show ?thesis
    using jsonb_valid [OF valid] array_not_null [OF jsonb_valid [OF valid] el] el
    by (simp add: unmarshal_shapes_def unmarshal_list_def Let_def comp_def)
qed

lemma ps_SaveSnapshot_law:
  assumes "rows_ok (rows p)" "snap_Seq x < 2 ^ 63" "ps_SaveSnapshot D p b x = (Inr u, p')"
  shows "rows_ok (rows p') \<and> (\<lambda>c. map_option row_snapshot (rows p' c)) =
    (if stale (map_option row_snapshot (rows p b)) x then (\<lambda>c. map_option row_snapshot (rows p c))
     else (\<lambda>c. map_option row_snapshot (rows p c))(b \<mapsto> jsonb_snapshot jsonb x))"
proof -
  let ?q = "sint (snap_Seq x)"
  have lt: "uint (snap_Seq x) < 2 ^ 63" using assms(2) by (simp add: word_less_def)
  have q: "?q = uint (snap_Seq x)"
    unfolding sint_uint using lt by (intro signed_take_bit_int_eq_self) (simp_all add: order_trans [of _ 0])
  then have q2: "0 \<le> ?q" "?q < 2 ^ 63" using lt by simp_all
  obtain js where js: "marshal_shapes (snap_Shapes x) = Inr js" "pg_upsert D p b ?q js = (Inr u, p')"
    using assms(3) by (auto simp: ps_SaveSnapshot_def split: sum.splits)
  note up = upsert_law [OF js(2)] and un = unmarshal_shapes_jsonb [OF js(1)]
  have row: "row_snapshot (?q, jsonb js) = jsonb_snapshot jsonb x"
    by (simp add: row_snapshot_def un jsonb_snapshot_def q)
  have stale: "stale (map_option row_snapshot (rows p b)) x \<longleftrightarrow> (\<exists>q' js'. rows p b = Some (q', js') \<and> \<not> ?q \<ge> q')"
  proof (cases "rows p b")
    case (Some r)
    then obtain q' js' where r: "rows p b = Some (q', js')" "0 \<le> q'" "q' < 2 ^ 63"
      using assms(1) unfolding rows_ok_def by (cases r) auto
    then have "uint (of_int q' :: u64) = q'" by (simp add: unsigned_of_int take_bit_int_eq_self)
    with r show ?thesis by (auto simp: stale_def row_snapshot_def word_less_def q)
  qed (simp add: stale_def)
  show ?thesis
  proof (cases "stale (map_option row_snapshot (rows p b)) x")
    case True
    then show ?thesis using up assms(1) stale by (simp only: if_True)
  next
    case False
    then have "rows p' = (rows p)(b \<mapsto> (?q, jsonb js))" using up unfolding stale [symmetric] by simp
    then show ?thesis using False assms(1) q2 un row by (auto simp: rows_ok_def fun_eq_iff)
  qed
qed

end

sublocale postgres_db \<subseteq> ps: store_contract "postgres_store D" "\<lambda>p. rows_ok (rows p)"
  "\<lambda>p b. map_option row_snapshot (rows p b)" "\<lambda>b x. snap_Seq x < 2 ^ 63" "jsonb_snapshot jsonb"
proof (unfold_locales, goal_cases)
  case (1 p b r p')
  then show ?case
    by (auto simp: postgres_store_def ps_LoadSnapshot_def row_snapshot_def rows_ok_def
        split: prod.splits sum.splits if_splits option.splits dest!: select_law select_none)
next
  case (2 p b x u p')
  then show ?case using ps_SaveSnapshot_law [of p x b u p'] by (simp add: postgres_store_def)
qed (simp_all add: jsonb_snapshot_def comp_def)

section \<open>A concrete database\<close>

text \<open>One table as a map; its JSON column keeps the text it is given.\<close>

record pgsim =
  pg_rows :: "(bytes, int \<times> bytes) gomap"

definition pgsim_db :: "pgsim Database" where
  "pgsim_db =
     \<lparr>pg_connect = (\<lambda>dsn. if dsn = [] then Inl ''cannot parse DSN'' else Inr \<lparr>pg_rows = []\<rparr>),
      pg_schema = (\<lambda>p. (None, p)),
      pg_select = (\<lambda>p b.
        (case gomap_get (pg_rows p) b of None \<Rightarrow> Inl pgx_ErrNoRows | Some r \<Rightarrow> Inr r, p)),
      pg_upsert = (\<lambda>p b q js.
        (Inr (), case gomap_get (pg_rows p) b of
            Some (q', js') \<Rightarrow> if q \<ge> q' then p\<lparr>pg_rows := gomap_put b (q, js) (pg_rows p)\<rparr> else p
          | None \<Rightarrow> p\<lparr>pg_rows := gomap_put b (q, js) (pg_rows p)\<rparr>)),
      pg_close = (\<lambda>p. p)\<rparr>"

interpretation pgsim: postgres_db pgsim_db "\<lambda>p. gomap_get (pg_rows p)" "\<lambda>v. v"
proof (unfold_locales, goal_cases)
  case (3 p b q js u p')
  then show ?case by (auto simp: pgsim_db_def split: if_splits option.splits prod.splits)
qed (auto simp: pgsim_db_def pgx_ErrNoRows_def split: if_splits option.splits prod.splits)

context postgres_db
begin

lemma save_load:
  assumes "rows_ok (rows p)" "snap_Seq x < 2 ^ 63" "ps_SaveSnapshot D p b x = (Inr u, p1)" "ps_LoadSnapshot D p1 c = (Inr r, p2)"
  shows "r = (if c = b \<and> \<not> stale (map_option row_snapshot (rows p b)) x then Some (jsonb_snapshot jsonb x)
    else map_option row_snapshot (rows p c))"
proof -
  note s = ps_SaveSnapshot_law [OF assms(1-3)]
  have "st_LoadSnapshot (postgres_store D) p1 c = (Inr r, p2)" using assms(4) by (simp add: postgres_store_def)
  with s ps.load_law have "r = (\<lambda>c. map_option row_snapshot (rows p1 c)) c" by blast
  also have "\<dots> = (if stale (map_option row_snapshot (rows p b)) x then (\<lambda>c. map_option row_snapshot (rows p c))
     else (\<lambda>c. map_option row_snapshot (rows p c))(b \<mapsto> jsonb_snapshot jsonb x)) c"
    by (rule fun_cong [OF conjunct2 [OF s]])
  finally show ?thesis by auto
qed

end

section \<open>Properties\<close>

text \<open>(C26)
  Saving to Postgres and loading again: a save that is not stale is what a later load of that
  board returns, with the same sequence number, the same ids and stamps in the same order, and each
  shape as the JSON value it was, rewritten by the column; a stale save and a save of another board
  change nothing.
\<close>

theorem postgres_save_load:
  assumes "postgres_db D rows jsonb" "rows_ok (rows p)" "snap_Seq x < 2 ^ 63"
    "ps_SaveSnapshot D p b x = (Inr u, p1)" "ps_LoadSnapshot D p1 c = (Inr r, p2)"
  shows "r = (if c = b \<and> \<not> stale (map_option row_snapshot (rows p b)) x
      then Some \<lparr>snap_Seq = snap_Seq x,
        snap_Shapes = map (\<lambda>s. \<lparr>ss_Seq = ss_Seq s, ss_ID = ss_ID s,
          ss_Shape = Some (jsonb (case ss_Shape s of None \<Rightarrow> ''null'' | Some t \<Rightarrow> compact False t))\<rparr>) (snap_Shapes x)\<rparr>
      else map_option row_snapshot (rows p c))"
proof -
  have "jsonb_snapshot jsonb x = \<lparr>snap_Seq = snap_Seq x,
      snap_Shapes = map (\<lambda>s. \<lparr>ss_Seq = ss_Seq s, ss_ID = ss_ID s,
        ss_Shape = Some (jsonb (case ss_Shape s of None \<Rightarrow> ''null'' | Some t \<Rightarrow> compact False t))\<rparr>) (snap_Shapes x)\<rparr>"
    unfolding jsonb_snapshot_def shape_json_def json_null_def by (cases x) (auto intro!: SnapshotShape.equality)
  then show ?thesis using postgres_db.save_load [OF assms] by simp
qed

theorem postgres_save_load_witness:
  "\<exists>p1 p2. ps_SaveSnapshot pgsim_db \<lparr>pg_rows = []\<rparr> ''x''
      \<lparr>snap_Seq = 7, snap_Shapes = [\<lparr>ss_Seq = 3, ss_ID = ''a'', ss_Shape = None\<rparr>]\<rparr> = (Inr (), p1) \<and>
    ps_LoadSnapshot pgsim_db p1 ''x'' =
      (Inr (Some \<lparr>snap_Seq = 7, snap_Shapes = [\<lparr>ss_Seq = 3, ss_ID = ''a'', ss_Shape = Some ''null''\<rparr>]\<rparr>), p2)"
proof -
  let ?x = "\<lparr>snap_Seq = 7, snap_Shapes = [\<lparr>ss_Seq = 3, ss_ID = ''a'', ss_Shape = None\<rparr>]\<rparr>"
  let ?p = "\<lparr>pg_rows = []\<rparr>"
  obtain js where "marshal_shapes (snap_Shapes ?x) = Inr js"
    by (simp add: marshal_shapes_def marshal_SnapshotShape_def marshal_raw_def)
  then obtain p1 where p1: "ps_SaveSnapshot pgsim_db ?p ''x'' ?x = (Inr (), p1)"
    by (auto simp: ps_SaveSnapshot_def pgsim_db_def)
  have "\<not> isl (fst (ps_LoadSnapshot pgsim_db (snd (ps_SaveSnapshot pgsim_db ?p ''x'' ?x)) ''x''))" by code_simp
  then obtain r p2 where r: "ps_LoadSnapshot pgsim_db p1 ''x'' = (Inr r, p2)"
    using p1 by (metis isl_def prod.collapse snd_conv sum.exhaust_sel)
  have "rows_ok (gomap_get (pg_rows ?p))" "snap_Seq ?x < 2 ^ 63" by (simp_all add: rows_ok_def)
  from postgres_save_load [OF pgsim.postgres_db_axioms this p1 r] p1 r show ?thesis by (simp add: stale_def)
qed

end
