(* ===== verification/Board.thy ===== *)
theory Board
  imports Protocol Metrics
begin

text \<open>
  The board actor of \<^verbatim>\<open>internal/hub/board.go\<close>: the client structs its goroutine
  owns, Go channels with their panics, the handlers of its event loop, and the loop
  itself as a machine that takes one event at a time.

  A \<^verbatim>\<open>*Client\<close> is a number, the heap maps it to its struct. The list \<open>b_clients\<close> is
  the map \<^verbatim>\<open>clients\<close> in the order one \<^verbatim>\<open>range\<close> loop visits it.
\<close>

section \<open>Channels\<close>

datatype panic = SendOnClosed | CloseOfClosed

record chan =
  ch_buf :: "bytes list"
  ch_cap :: nat
  ch_closed :: bool

text \<open>\<^verbatim>\<open>select { case ch <- x: ... default: ... }\<close>: \<open>None\<close> is the default branch.\<close>

definition try_send :: "bytes \<Rightarrow> chan \<Rightarrow> panic + chan option" where
  "try_send x ch =
     (if ch_closed ch then Inl SendOnClosed
      else if length (ch_buf ch) < ch_cap ch then Inr (Some (ch\<lparr>ch_buf := ch_buf ch @ [x]\<rparr>))
      else Inr None)"

definition close_chan :: "chan \<Rightarrow> panic + chan" where
  "close_chan ch = (if ch_closed ch then Inl CloseOfClosed else Inr (ch\<lparr>ch_closed := True\<rparr>))"

section \<open>State\<close>

definition sendBuffer :: nat where "sendBuffer = 256"

text \<open>\<open>c_written\<close> is what the write pump has taken from the queue so far, \<open>c_closed\<close>
  whether the connection has been closed.\<close>

record Client =
  c_id :: bytes
  c_boardID :: bytes
  c_name :: bytes
  c_color :: bytes
  c_send :: chan
  c_present :: bool
  c_closed :: bool
  c_written :: "bytes list"

record Board =
  b_heap :: "nat \<Rightarrow> Client"
  b_clients :: "nat list"
  b_byID :: "(bytes, nat) gomap"
  b_msgs :: bool    \<comment> \<open>the subscription is still selected\<close>
  b_done :: bool    \<comment> \<open>run has returned\<close>
  b_events :: "MetricEvent list"

definition newBoard :: "(nat \<Rightarrow> Client) \<Rightarrow> Board" where
  "newBoard heap =
     \<lparr>b_heap = heap, b_clients = [], b_byID = [], b_msgs = True, b_done = False, b_events = []\<rparr>"

abbreviation upd_client :: "nat \<Rightarrow> (Client \<Rightarrow> Client) \<Rightarrow> Board \<Rightarrow> Board" where
  "upd_client c f s \<equiv> s\<lparr>b_heap := (b_heap s)(c := f (b_heap s c))\<rparr>"

abbreviation emit :: "MetricEvent \<Rightarrow> Board \<Rightarrow> Board" where
  "emit e s \<equiv> s\<lparr>b_events := b_events s @ [e]\<rparr>"

section \<open>Handlers\<close>

definition join :: "nat \<Rightarrow> Board \<Rightarrow> Board" where
  "join c s =
     upd_client c (\<lambda>x. x\<lparr>c_present := True\<rparr>)
       (s\<lparr>b_clients := (if c \<in> set (b_clients s) then b_clients s else b_clients s @ [c]),
          b_byID := gomap_put (c_id (b_heap s c)) c (b_byID s)\<rparr>)"

definition detach :: "nat \<Rightarrow> bool \<Rightarrow> Board \<Rightarrow> panic + Board" where
  "detach c closeConn s =
     (if \<not> c_present (b_heap s c) then Inr s
      else bind_result (close_chan (c_send (b_heap s c))) (\<lambda>ch.
        Inr (upd_client c (\<lambda>x. x\<lparr>c_present := False, c_send := ch,
                                c_closed := (closeConn \<or> c_closed x)\<rparr>)
          (s\<lparr>b_clients := removeAll c (b_clients s),
             b_byID := gomap_del (c_id (b_heap s c)) (b_byID s)\<rparr>))))"

text \<open>
  The loop both deliveries share: a non-blocking send to every client but the
  excluded one. It returns the heap, how many sends went through, and the clients
  whose buffer was full.
\<close>

fun send_loop :: "bytes \<Rightarrow> nat option \<Rightarrow> nat list \<Rightarrow> (nat \<Rightarrow> Client) \<Rightarrow> panic + (nat \<Rightarrow> Client) \<times> nat \<times> nat list" where
  "send_loop data exclude [] heap = Inr (heap, 0, [])"
| "send_loop data exclude (c # cs) heap =
     (if exclude = Some c then send_loop data exclude cs heap
      else bind_result (try_send data (c_send (heap c))) (\<lambda>r.
        case r of
          Some ch \<Rightarrow>
            bind_result (send_loop data exclude cs (heap(c := (heap c)\<lparr>c_send := ch\<rparr>)))
              (\<lambda>(h, n, slow). Inr (h, Suc n, slow))
        | None \<Rightarrow>
            bind_result (send_loop data exclude cs heap)
              (\<lambda>(h, n, slow). Inr (h, n, c # slow))))"

fun kick_loop :: "nat list \<Rightarrow> Board \<Rightarrow> panic + Board" where
  "kick_loop [] s = Inr s"
| "kick_loop (c # cs) s = bind_result (detach c True (emit ClientKicked s)) (kick_loop cs)"

definition deliverReliable :: "bytes \<Rightarrow> nat option \<Rightarrow> Board \<Rightarrow> panic + Board" where
  "deliverReliable data exclude s =
     bind_result (send_loop data exclude (b_clients s) (b_heap s)) (\<lambda>(heap, n, slow).
       kick_loop slow (emit (MessagesDelivered n) (s\<lparr>b_heap := heap\<rparr>)))"

definition deliverBestEffort :: "bytes \<Rightarrow> nat option \<Rightarrow> Board \<Rightarrow> panic + Board" where
  "deliverBestEffort data exclude s =
     bind_result (send_loop data exclude (b_clients s) (b_heap s)) (\<lambda>(heap, n, slow).
       Inr (emit (MessagesDelivered n) (s\<lparr>b_heap := heap\<rparr>)))"

definition push :: "nat \<Rightarrow> bytes \<Rightarrow> Board \<Rightarrow> panic + bool \<times> Board" where
  "push c data s =
     bind_result (try_send data (c_send (b_heap s c))) (\<lambda>r.
       case r of
         Some ch \<Rightarrow> Inr (True, emit (MessagesDelivered 1) (upd_client c (\<lambda>x. x\<lparr>c_send := ch\<rparr>) s))
       | None \<Rightarrow> bind_result (detach c True (emit ClientKicked s)) (\<lambda>t. Inr (False, t)))"

text \<open>Routing by type; text that is no envelope is delivered rather than dropped.\<close>

definition dispatch :: "bytes \<Rightarrow> Board \<Rightarrow> panic + Board" where
  "dispatch msg s =
     (case unmarshal_Envelope msg of
        (Some err, env) \<Rightarrow> deliverReliable msg None s
      | (None, env) \<Rightarrow>
          if env_Type env = TypeCursor then
            deliverBestEffort msg
              (gomap_get (b_byID s) (cur_ClientID (snd (DecodePayload env set_Cursor zero_Cursor)))) s
          else deliverReliable msg None s)"

fun shutdown_loop :: "nat list \<Rightarrow> Board \<Rightarrow> panic + Board" where
  "shutdown_loop [] s = Inr s"
| "shutdown_loop (c # cs) s =
     bind_result (close_chan (c_send (b_heap s c))) (\<lambda>ch.
       shutdown_loop cs
         (upd_client c (\<lambda>x. x\<lparr>c_present := False, c_send := ch, c_closed := True\<rparr>)
           (s\<lparr>b_clients := removeAll c (b_clients s),
              b_byID := gomap_del (c_id (b_heap s c)) (b_byID s)\<rparr>)))"

definition shutdown :: "Board \<Rightarrow> panic + Board" where
  "shutdown s = shutdown_loop (b_clients s) s"

section \<open>The event loop\<close>

text \<open>
  The cases of the \<^verbatim>\<open>select\<close> in \<^verbatim>\<open>run\<close>, and two steps of the world around it: the
  write pump takes the head of a client's queue, and the subscription ends.
\<close>

datatype board_event =
    Register nat
  | Unregister nat
  | Msg bytes
  | MsgsEnded
  | Direct nat bytes
  | Inspect
  | Quit
  | Written nat

definition take_written :: "nat \<Rightarrow> Board \<Rightarrow> Board" where
  "take_written c s =
     (case ch_buf (c_send (b_heap s c)) of
        [] \<Rightarrow> s
      | x # q \<Rightarrow> upd_client c (\<lambda>y. y\<lparr>c_send := (c_send y)\<lparr>ch_buf := q\<rparr>, c_written := c_written y @ [x]\<rparr>) s)"

text \<open>What \<^verbatim>\<open>case ch := <-b.inspect\<close> sends back.\<close>

definition inspect_count :: "Board \<Rightarrow> nat" where
  "inspect_count s = length (b_clients s)"

fun run_step :: "board_event \<Rightarrow> Board \<Rightarrow> panic + Board" where
  "run_step (Register c) s = Inr (join c s)"
| "run_step (Unregister c) s = detach c False s"
| "run_step (Msg m) s = (if b_msgs s then dispatch m s else Inr s)"
| "run_step MsgsEnded s = Inr (s\<lparr>b_msgs := False\<rparr>)"
| "run_step (Direct c d) s =
     (if c_present (b_heap s c) then bind_result (push c d s) (\<lambda>(ok, t). Inr t) else Inr s)"
| "run_step Inspect s = Inr s"
| "run_step Quit s = bind_result (shutdown s) (\<lambda>t. Inr (emit BoardClosed (t\<lparr>b_done := True\<rparr>)))"
| "run_step (Written c) s = Inr (take_written c s)"

text \<open>After \<^verbatim>\<open>run\<close> has returned only the write pumps go on.\<close>

definition live_event :: "board_event \<Rightarrow> Board \<Rightarrow> bool" where
  "live_event e s \<longleftrightarrow> (case e of Written c \<Rightarrow> True | _ \<Rightarrow> \<not> b_done s)"

fun run :: "board_event list \<Rightarrow> Board \<Rightarrow> panic + Board" where
  "run [] s = Inr s"
| "run (e # es) s =
     (if live_event e s then bind_result (run_step e s) (run es) else run es s)"

end
