(* ===== verification/BoardLaws.thy ===== *)
theory BoardLaws
  imports Board "HOL-Library.Sublist"
begin

text \<open>
  Laws of the board actor: its invariant, what each handler does to every client,
  that no handler panics, and that a client which stays on the board misses no
  reliable message.
\<close>

section \<open>Invariant\<close>

text \<open>
  The board holds exactly the clients whose \<open>present\<close> flag is set; their queues are
  open and within their capacity; and \<open>byID\<close> finds each of them by its id.
\<close>

definition board_ok :: "Board \<Rightarrow> bool" where
  "board_ok s \<longleftrightarrow>
     distinct (b_clients s) \<and>
     (\<forall>c. c_present (b_heap s c) \<longleftrightarrow> c \<in> set (b_clients s)) \<and>
     (\<forall>c \<in> set (b_clients s). \<not> ch_closed (c_send (b_heap s c))) \<and>
     gomap_ok (b_byID s) \<and>
     (\<forall>i c. gomap_get (b_byID s) i = Some c \<longleftrightarrow> c \<in> set (b_clients s) \<and> c_id (b_heap s c) = i)"

definition queues_ok :: "Board \<Rightarrow> bool" where
  "queues_ok s \<longleftrightarrow> (\<forall>c. length (ch_buf (c_send (b_heap s c))) \<le> ch_cap (c_send (b_heap s c)))"

text \<open>
  A client registers once: its queue is open, it is not on the board yet, and its
  random id is not in use there.
\<close>

definition may_register :: "nat \<Rightarrow> Board \<Rightarrow> bool" where
  "may_register c s \<longleftrightarrow>
     \<not> c_present (b_heap s c) \<and> \<not> ch_closed (c_send (b_heap s c)) \<and>
     (\<forall>d \<in> set (b_clients s). c_id (b_heap s d) \<noteq> c_id (b_heap s c))"

definition admissible :: "board_event \<Rightarrow> Board \<Rightarrow> bool" where
  "admissible e s \<longleftrightarrow> (case e of Register c \<Rightarrow> may_register c s | _ \<Rightarrow> True)"

definition room :: "Client \<Rightarrow> bool" where
  "room x \<longleftrightarrow> length (ch_buf (c_send x)) < ch_cap (c_send x)"

definition enqueue :: "bytes \<Rightarrow> Client \<Rightarrow> Client" where
  "enqueue d x = x\<lparr>c_send := (c_send x)\<lparr>ch_buf := ch_buf (c_send x) @ [d]\<rparr>\<rparr>"

definition detached :: "bool \<Rightarrow> Client \<Rightarrow> Client" where
  "detached k x = x\<lparr>c_present := False, c_send := (c_send x)\<lparr>ch_closed := True\<rparr>, c_closed := (k \<or> c_closed x)\<rparr>"

lemma client_simps [simp]:
  "c_id (enqueue d x) = c_id x" "c_present (enqueue d x) = c_present x"
  "ch_closed (c_send (enqueue d x)) = ch_closed (c_send x)" "ch_cap (c_send (enqueue d x)) = ch_cap (c_send x)"
  "ch_buf (c_send (enqueue d x)) = ch_buf (c_send x) @ [d]" "c_closed (enqueue d x) = c_closed x"
  "c_written (enqueue d x) = c_written x"
  "c_id (detached k x) = c_id x" "\<not> c_present (detached k x)" "ch_closed (c_send (detached k x))"
  "ch_cap (c_send (detached k x)) = ch_cap (c_send x)" "ch_buf (c_send (detached k x)) = ch_buf (c_send x)"
  "c_closed (detached k x) = (k \<or> c_closed x)" "c_written (detached k x) = c_written x"
  by (simp_all add: enqueue_def detached_def)

section \<open>Detaching\<close>

definition drop_client :: "bool \<Rightarrow> nat \<Rightarrow> Board \<Rightarrow> Board" where
  "drop_client k c s =
     s\<lparr>b_heap := (b_heap s)(c := detached k (b_heap s c)), b_clients := removeAll c (b_clients s),
       b_byID := gomap_del (c_id (b_heap s c)) (b_byID s)\<rparr>"

lemma detach_present:
  "board_ok s \<Longrightarrow> c \<in> set (b_clients s) \<Longrightarrow> detach c k s = Inr (drop_client k c s)"
  by (auto simp: board_ok_def detach_def close_chan_def drop_client_def detached_def)

lemma detach_absent: "board_ok s \<Longrightarrow> c \<notin> set (b_clients s) \<Longrightarrow> detach c k s = Inr s"
  by (auto simp: board_ok_def detach_def)

lemma board_ok_drop [keeps_inv]:
  assumes "board_ok s" "c \<in> set (b_clients s)"
  shows "board_ok (drop_client k c s)"
proof -
  have "c_id (b_heap s d) \<noteq> c_id (b_heap s c)" if "d \<in> set (b_clients s)" "d \<noteq> c" for d
    using assms that unfolding board_ok_def by (metis option.inject)
  with assms show ?thesis
    unfolding board_ok_def drop_client_def by (auto simp: distinct_removeAll split: if_splits)
qed

lemma board_ok_emit [simp]:
  "board_ok (s\<lparr>b_events := es\<rparr>) = board_ok s"
  "board_ok (s\<lparr>b_heap := h, b_events := es\<rparr>) = board_ok (s\<lparr>b_heap := h\<rparr>)"
  by (simp_all add: board_ok_def)

lemma queues_ok_emit [simp]:
  "queues_ok (s\<lparr>b_events := es\<rparr>) = queues_ok s"
  "queues_ok (s\<lparr>b_heap := h, b_events := es\<rparr>) = queues_ok (s\<lparr>b_heap := h\<rparr>)"
  by (simp_all add: queues_ok_def)

lemma queues_ok_drop [keeps_inv]: "queues_ok s \<Longrightarrow> queues_ok (drop_client k c s)"
  by (simp add: queues_ok_def drop_client_def)

section \<open>The delivery loops\<close>

abbreviation gets :: "nat option \<Rightarrow> (nat \<Rightarrow> Client) \<Rightarrow> nat \<Rightarrow> bool" where
  "gets ex heap c \<equiv> ex \<noteq> Some c \<and> room (heap c)"

abbreviation lags :: "nat option \<Rightarrow> (nat \<Rightarrow> Client) \<Rightarrow> nat \<Rightarrow> bool" where
  "lags ex heap c \<equiv> ex \<noteq> Some c \<and> \<not> room (heap c)"

lemma try_send_open:
  "\<not> ch_closed (c_send x) \<Longrightarrow>
    try_send d (c_send x) = Inr (if room x then Some (c_send (enqueue d x)) else None)"
  by (simp add: try_send_def room_def enqueue_def)

lemma send_loop_eq:
  assumes "distinct cs" "\<forall>c \<in> set cs. \<not> ch_closed (c_send (heap c))"
  shows "send_loop d ex cs heap =
    Inr (\<lambda>c. if c \<in> set cs \<and> gets ex heap c then enqueue d (heap c) else heap c,
         length (filter (gets ex heap) cs), filter (lags ex heap) cs)"
  using assms
proof (induction cs arbitrary: heap)
  case (Cons c cs)
  have same: "filter (gets ex (heap(c := x))) cs = filter (gets ex heap) cs"
    "filter (lags ex (heap(c := x))) cs = filter (lags ex heap) cs" for x
    using Cons.prems(1) by (auto intro!: filter_cong)
  show ?case
  proof (cases "gets ex heap c")
    case True
    then have "try_send d (c_send (heap c)) = Inr (Some (c_send (enqueue d (heap c))))"
      using Cons.prems(2) by (simp add: try_send_open)
    moreover have "(heap c)\<lparr>c_send := c_send (enqueue d (heap c))\<rparr> = enqueue d (heap c)"
      by (simp add: enqueue_def)
    moreover have "\<forall>e \<in> set cs. \<not> ch_closed (c_send ((heap(c := enqueue d (heap c))) e))"
      using Cons.prems(2) by simp
    moreover have "send_loop d ex cs (heap(c := enqueue d (heap c))) =
      Inr (\<lambda>e. if e \<in> set cs \<and> gets ex heap e then enqueue d (heap e) else (heap(c := enqueue d (heap c))) e,
           length (filter (gets ex heap) cs), filter (lags ex heap) cs)"
      if o: "\<forall>e \<in> set cs. \<not> ch_closed (c_send ((heap(c := enqueue d (heap c))) e))"
      unfolding Cons.IH [OF distinct.simps(2) [THEN iffD1, OF Cons.prems(1), THEN conjunct2] o] same
      using Cons.prems(1) by (auto simp: fun_eq_iff)
    ultimately show ?thesis
      using True Cons.prems(1) by (auto simp: fun_eq_iff)
  next
    case False
    then show ?thesis
      using Cons by (auto simp: try_send_open fun_eq_iff)
  qed
qed simp

lemma kick_loop_eq:
  assumes "board_ok s" "distinct cs" "set cs \<subseteq> set (b_clients s)"
  shows "\<exists>t. kick_loop cs s = Inr t \<and> board_ok t \<and>
    b_heap t = (\<lambda>c. if c \<in> set cs then detached True (b_heap s c) else b_heap s c) \<and>
    b_clients t = filter (\<lambda>c. c \<notin> set cs) (b_clients s) \<and>
    b_events t = b_events s @ replicate (length cs) ClientKicked \<and>
    b_msgs t = b_msgs s \<and> b_done t = b_done s"
  using assms
proof (induction cs arbitrary: s)
  case Nil
  then show ?case by auto
next
  case (Cons c cs)
  let ?s = "emit ClientKicked s"
  let ?u = "drop_client True c ?s"
  have d: "detach c True ?s = Inr ?u"
    using Cons.prems(1,3) by (intro detach_present) auto
  have ok: "board_ok ?u" using Cons.prems(1,3) by (intro board_ok_drop) auto
  have sub: "set cs \<subseteq> set (b_clients ?u)" using Cons.prems(2,3) by (auto simp: drop_client_def)
  obtain t where t: "kick_loop cs ?u = Inr t" "board_ok t"
    "b_heap t = (\<lambda>c. if c \<in> set cs then detached True (b_heap ?u c) else b_heap ?u c)"
    "b_clients t = filter (\<lambda>c. c \<notin> set cs) (b_clients ?u)"
    "b_events t = b_events ?u @ replicate (length cs) ClientKicked" "b_msgs t = b_msgs ?u" "b_done t = b_done ?u"
    using Cons.IH [OF ok _ sub] Cons.prems(2) by auto
  show ?case
  proof (intro exI [of _ t] conjI)
    show "kick_loop (c # cs) s = Inr t" using d t(1) by simp
    show "b_heap t = (\<lambda>x. if x \<in> set (c # cs) then detached True (b_heap s x) else b_heap s x)"
      using t(3) Cons.prems(2) by (auto simp: drop_client_def)
    show "b_clients t = filter (\<lambda>x. x \<notin> set (c # cs)) (b_clients s)"
      using t(4) by (simp add: drop_client_def removeAll_filter_not_eq) (rule filter_cong, auto)
    show "b_events t = b_events s @ replicate (length (c # cs)) ClientKicked"
      using t(5) by (simp add: drop_client_def)
  qed (use t in \<open>simp_all add: drop_client_def\<close>)
qed

lemma board_ok_heap:
  assumes "\<And>c. c_present (h c) = c_present (b_heap s c) \<and> c_id (h c) = c_id (b_heap s c) \<and>
    ch_closed (c_send (h c)) = ch_closed (c_send (b_heap s c))"
  shows "board_ok (s\<lparr>b_heap := h\<rparr>) = board_ok s"
  using assms by (simp add: board_ok_def)

text \<open>What a delivery does to the struct of each client.\<close>

definition reliable_effect :: "bytes \<Rightarrow> nat option \<Rightarrow> Board \<Rightarrow> nat \<Rightarrow> Client" where
  "reliable_effect d ex s c =
     (let x = b_heap s c in
      if c \<in> set (b_clients s) \<and> ex \<noteq> Some c then (if room x then enqueue d x else detached True x) else x)"

definition best_effort_effect :: "bytes \<Rightarrow> nat option \<Rightarrow> Board \<Rightarrow> nat \<Rightarrow> Client" where
  "best_effort_effect d ex s c =
     (let x = b_heap s c in if c \<in> set (b_clients s) \<and> ex \<noteq> Some c \<and> room x then enqueue d x else x)"

lemma send_loop_board:
  assumes "board_ok s"
  shows "send_loop d ex (b_clients s) (b_heap s) =
      Inr (best_effort_effect d ex s, length (filter (gets ex (b_heap s)) (b_clients s)),
           filter (lags ex (b_heap s)) (b_clients s))"
    "board_ok (s\<lparr>b_heap := best_effort_effect d ex s\<rparr>)"
proof -
  have "distinct (b_clients s)" "\<forall>c \<in> set (b_clients s). \<not> ch_closed (c_send (b_heap s c))"
    using assms by (auto simp: board_ok_def)
  from send_loop_eq [OF this]
  show "send_loop d ex (b_clients s) (b_heap s) =
      Inr (best_effort_effect d ex s, length (filter (gets ex (b_heap s)) (b_clients s)),
           filter (lags ex (b_heap s)) (b_clients s))"
    by (auto simp: best_effort_effect_def Let_def fun_eq_iff)
  show "board_ok (s\<lparr>b_heap := best_effort_effect d ex s\<rparr>)"
    using assms by (subst board_ok_heap) (simp_all add: best_effort_effect_def Let_def)
qed

lemma deliverBestEffort_eq:
  assumes "board_ok s"
  shows "deliverBestEffort d ex s =
      Inr (emit (MessagesDelivered (length (filter (gets ex (b_heap s)) (b_clients s))))
            (s\<lparr>b_heap := best_effort_effect d ex s\<rparr>))"
  by (simp add: deliverBestEffort_def send_loop_board [OF assms])

lemma deliverReliable_eq:
  assumes "board_ok s"
  shows "\<exists>t. deliverReliable d ex s = Inr t \<and> board_ok t \<and> b_heap t = reliable_effect d ex s \<and>
    b_clients t = filter (\<lambda>c. \<not> lags ex (b_heap s) c) (b_clients s) \<and>
    b_events t = b_events s @ MessagesDelivered (length (filter (gets ex (b_heap s)) (b_clients s))) #
      replicate (length (filter (lags ex (b_heap s)) (b_clients s))) ClientKicked \<and>
    b_msgs t = b_msgs s \<and> b_done t = b_done s"
proof -
  let ?slow = "filter (lags ex (b_heap s)) (b_clients s)"
  let ?u = "emit (MessagesDelivered (length (filter (gets ex (b_heap s)) (b_clients s))))
    (s\<lparr>b_heap := best_effort_effect d ex s\<rparr>)"
  have u: "board_ok ?u" using send_loop_board(2) [OF assms, of d ex] by simp
  have "distinct ?slow" "set ?slow \<subseteq> set (b_clients ?u)"
    using assms by (auto simp: board_ok_def)
  from kick_loop_eq [OF u this] obtain t where t: "kick_loop ?slow ?u = Inr t" "board_ok t"
    "b_heap t = (\<lambda>c. if c \<in> set ?slow then detached True (b_heap ?u c) else b_heap ?u c)"
    "b_clients t = filter (\<lambda>c. c \<notin> set ?slow) (b_clients ?u)"
    "b_events t = b_events ?u @ replicate (length ?slow) ClientKicked" "b_msgs t = b_msgs ?u" "b_done t = b_done ?u"
    by blast
  have "b_heap t = reliable_effect d ex s"
    using t(3) by (auto simp: reliable_effect_def best_effort_effect_def Let_def fun_eq_iff)
  moreover have "b_clients t = filter (\<lambda>c. \<not> lags ex (b_heap s) c) (b_clients s)"
    using t(4) by (auto intro: filter_cong)
  moreover have "deliverReliable d ex s = Inr t"
    using t(1) by (simp add: deliverReliable_def send_loop_board [OF assms])
  ultimately show ?thesis using t by auto
qed

section \<open>Direct messages, dispatch and shutdown\<close>

lemma push_eq:
  assumes "board_ok s" "c \<in> set (b_clients s)"
  shows "push c d s =
    Inr (if room (b_heap s c)
         then (True, emit (MessagesDelivered 1) (s\<lparr>b_heap := (b_heap s)(c := enqueue d (b_heap s c))\<rparr>))
         else (False, drop_client True c (emit ClientKicked s)))"
proof -
  have o: "\<not> ch_closed (c_send (b_heap s c))" using assms by (simp add: board_ok_def)
  have "detach c True (emit ClientKicked s) = Inr (drop_client True c (emit ClientKicked s))"
    using assms by (intro detach_present) auto
  then show ?thesis
    by (simp add: push_def try_send_open [OF o]) (simp add: enqueue_def)
qed

definition is_cursor :: "bytes \<Rightarrow> bool" where
  "is_cursor m \<longleftrightarrow> fst (unmarshal_Envelope m) = None \<and> env_Type (snd (unmarshal_Envelope m)) = TypeCursor"

definition cursor_origin :: "bytes \<Rightarrow> bytes" where
  "cursor_origin m = cur_ClientID (snd (DecodePayload (snd (unmarshal_Envelope m)) set_Cursor zero_Cursor))"

lemma dispatch_eq:
  "dispatch m s =
    (if is_cursor m then deliverBestEffort m (gomap_get (b_byID s) (cursor_origin m)) s
     else deliverReliable m None s)"
  by (simp add: dispatch_def is_cursor_def cursor_origin_def split: prod.splits option.splits)

lemma shutdown_loop_eq:
  assumes "board_ok s" "distinct cs" "set cs \<subseteq> set (b_clients s)"
  shows "\<exists>t. shutdown_loop cs s = Inr t \<and> board_ok t \<and>
    b_heap t = (\<lambda>c. if c \<in> set cs then detached True (b_heap s c) else b_heap s c) \<and>
    b_clients t = filter (\<lambda>c. c \<notin> set cs) (b_clients s) \<and> b_events t = b_events s \<and>
    b_msgs t = b_msgs s \<and> b_done t = b_done s"
  using assms
proof (induction cs arbitrary: s)
  case Nil
  then show ?case by auto
next
  case (Cons c cs)
  let ?u = "drop_client True c s"
  have c: "c \<in> set (b_clients s)" using Cons.prems(3) by simp
  then have o: "\<not> ch_closed (c_send (b_heap s c))" using Cons.prems(1) by (simp add: board_ok_def)
  then have "shutdown_loop (c # cs) s = shutdown_loop cs (upd_client c (detached True)
      (s\<lparr>b_clients := removeAll c (b_clients s), b_byID := gomap_del (c_id (b_heap s c)) (b_byID s)\<rparr>))"
    by (simp add: close_chan_def detached_def)
  also have "upd_client c (detached True) (s\<lparr>b_clients := removeAll c (b_clients s),
      b_byID := gomap_del (c_id (b_heap s c)) (b_byID s)\<rparr>) = ?u"
    by (simp add: drop_client_def)
  finally have d: "shutdown_loop (c # cs) s = shutdown_loop cs ?u" .
  have ok: "board_ok ?u" using Cons.prems(1) c by (rule board_ok_drop)
  have sub: "set cs \<subseteq> set (b_clients ?u)" using Cons.prems(2,3) by (auto simp: drop_client_def)
  obtain t where t: "shutdown_loop cs ?u = Inr t" "board_ok t"
    "b_heap t = (\<lambda>c. if c \<in> set cs then detached True (b_heap ?u c) else b_heap ?u c)"
    "b_clients t = filter (\<lambda>c. c \<notin> set cs) (b_clients ?u)"
    "b_events t = b_events ?u" "b_msgs t = b_msgs ?u" "b_done t = b_done ?u"
    using Cons.IH [OF ok _ sub] Cons.prems(2) by auto
  show ?case
  proof (intro exI [of _ t] conjI)
    show "shutdown_loop (c # cs) s = Inr t" using d t(1) by simp
    show "b_heap t = (\<lambda>x. if x \<in> set (c # cs) then detached True (b_heap s x) else b_heap s x)"
      using t(3) Cons.prems(2) by (auto simp: drop_client_def)
    show "b_clients t = filter (\<lambda>x. x \<notin> set (c # cs)) (b_clients s)"
      using t(4) by (simp add: drop_client_def removeAll_filter_not_eq) (rule filter_cong, auto)
  qed (use t in \<open>simp_all add: drop_client_def\<close>)
qed

lemma shutdown_eq:
  assumes "board_ok s"
  shows "\<exists>t. shutdown s = Inr t \<and> board_ok t \<and>
    b_heap t = (\<lambda>c. if c \<in> set (b_clients s) then detached True (b_heap s c) else b_heap s c) \<and>
    b_clients t = [] \<and> b_events t = b_events s \<and> b_done t = b_done s"
proof -
  have "distinct (b_clients s)" using assms by (simp add: board_ok_def)
  from shutdown_loop_eq [OF assms this order_refl] show ?thesis
    by (auto simp: shutdown_def)
qed

section \<open>Every step keeps the invariant and none panics\<close>

lemma board_ok_join [keeps_inv]:
  assumes "board_ok s" "may_register c s"
  shows "board_ok (join c s)"
  using assms unfolding board_ok_def may_register_def join_def
  by (auto split: if_splits)

lemma run_step_ok:
  assumes "board_ok s" "admissible e s"
  shows "\<exists>t. run_step e s = Inr t \<and> board_ok t"
proof (cases e)
  case (Register c)
  then show ?thesis using assms by (simp add: admissible_def board_ok_join)
next
  case (Unregister c)
  then show ?thesis
    using assms detach_present [of s c False] detach_absent [of s c False] board_ok_drop [of s c False] by auto
next
  case (Msg m)
  then show ?thesis
    using assms deliverReliable_eq [OF assms(1), of m None]
      send_loop_board(2) [OF assms(1), of m "gomap_get (b_byID s) (cursor_origin m)"]
    by (cases "b_msgs s"; cases "is_cursor m") (auto simp: dispatch_eq deliverBestEffort_eq)
next
  case (Direct c d)
  show ?thesis
  proof (cases "c \<in> set (b_clients s)")
    case True
    have "board_ok (s\<lparr>b_heap := (b_heap s)(c := enqueue d (b_heap s c))\<rparr>)"
      using assms(1) by (subst board_ok_heap) simp_all
    with Direct True assms(1) show ?thesis
      using push_eq [OF assms(1) True] board_ok_drop [of "emit ClientKicked s" c True]
      by (auto simp: board_ok_def [of s])
  next
    case False
    with Direct assms(1) show ?thesis by (auto simp: board_ok_def)
  qed
next
  case Quit
  then show ?thesis
    using shutdown_eq [OF assms(1)] by (auto simp: board_ok_def)
next
  case (Written c)
  have "board_ok (take_written c s)"
    using assms(1) unfolding take_written_def
    by (auto split: list.splits if_splits intro!: board_ok_heap [THEN iffD2])
  with Written show ?thesis by simp
qed (use assms in \<open>auto simp: board_ok_def\<close>)

text \<open>Schedules: each registration is of a client that has not been on the board.\<close>

fun schedule_ok :: "board_event list \<Rightarrow> Board \<Rightarrow> bool" where
  "schedule_ok [] s \<longleftrightarrow> True"
| "schedule_ok (e # es) s \<longleftrightarrow>
     (if live_event e s
      then admissible e s \<and> (case run_step e s of Inl p \<Rightarrow> True | Inr t \<Rightarrow> schedule_ok es t)
      else schedule_ok es s)"

lemma run_ok:
  "board_ok s \<Longrightarrow> schedule_ok es s \<Longrightarrow> \<exists>t. run es s = Inr t \<and> board_ok t"
proof (induction es arbitrary: s)
  case (Cons e es)
  show ?case
  proof (cases "live_event e s")
    case True
    then have "admissible e s" using Cons.prems(2) by simp
    then obtain t where t: "run_step e s = Inr t" "board_ok t"
      using run_step_ok [OF Cons.prems(1)] by blast
    with True Cons.prems(2) have "schedule_ok es t" by simp
    with Cons.IH [OF t(2)] True t(1) show ?thesis by simp
  next
    case False
    with Cons show ?thesis by simp
  qed
qed simp

lemma newBoard_ok: "(\<And>c. \<not> c_present (heap c)) \<Longrightarrow> board_ok (newBoard heap)"
  by (simp add: board_ok_def newBoard_def)

section \<open>What each client receives\<close>

text \<open>Everything put in a client's queue so far, and the reliable part of it.\<close>

definition got :: "Client \<Rightarrow> bytes list" where
  "got x = c_written x @ ch_buf (c_send x)"

definition stream :: "Client \<Rightarrow> bytes list" where
  "stream x = filter (\<lambda>m. \<not> is_cursor m) (got x)"

definition shut :: "Client \<Rightarrow> bool" where
  "shut x \<longleftrightarrow> ch_closed (c_send x)"

lemma got_simps [simp]:
  "got (enqueue d x) = got x @ [d]" "got (detached k x) = got x" "got (x\<lparr>c_present := p\<rparr>) = got x"
  "stream (enqueue d x) = stream x @ (if is_cursor d then [] else [d])"
  "stream (detached k x) = stream x" "stream (x\<lparr>c_present := p\<rparr>) = stream x"
  "shut (detached k x)" "shut (enqueue d x) = shut x"
  by (simp_all add: got_def stream_def shut_def)

lemma heap_take_written:
  "stream (b_heap (take_written w s) c) = stream (b_heap s c)"
  "got (b_heap (take_written w s) c) = got (b_heap s c)"
  "shut (b_heap (take_written w s) c) = shut (b_heap s c)"
  "b_clients (take_written w s) = b_clients s"
  by (auto simp: take_written_def stream_def got_def shut_def split: list.splits)

text \<open>The reliable messages an event has for client \<open>c\<close>.\<close>

definition reliable_msg :: "nat \<Rightarrow> board_event \<Rightarrow> bytes list" where
  "reliable_msg c e =
     (case e of
        Msg m \<Rightarrow> if is_cursor m then [] else [m]
      | Direct d m \<Rightarrow> if d = c \<and> \<not> is_cursor m then [m] else []
      | _ \<Rightarrow> [])"

abbreviation reliable_msgs :: "nat \<Rightarrow> board_event list \<Rightarrow> bytes list" where
  "reliable_msgs c es \<equiv> concat (map (reliable_msg c) es)"

lemma not_shut: "board_ok s \<Longrightarrow> c \<in> set (b_clients s) \<Longrightarrow> \<not> shut (b_heap s c)"
  by (simp add: board_ok_def shut_def)

text \<open>The handlers, seen from one client.\<close>

lemma Msg_client:
  assumes "board_ok s" "run_step (Msg m) s = Inr t"
  shows "b_heap t c =
      (if \<not> b_msgs s then b_heap s c
       else if is_cursor m then best_effort_effect m (gomap_get (b_byID s) (cursor_origin m)) s c
       else reliable_effect m None s c)"
    "c \<in> set (b_clients t) \<longleftrightarrow>
      c \<in> set (b_clients s) \<and> \<not> (b_msgs s \<and> \<not> is_cursor m \<and> \<not> room (b_heap s c))"
    "b_msgs t = b_msgs s" "b_done t = b_done s"
  using assms deliverReliable_eq [OF assms(1), of m None]
  by (auto simp: dispatch_eq deliverBestEffort_eq split: if_splits)

lemma Direct_client:
  assumes "board_ok s" "run_step (Direct d m) s = Inr t"
  shows "b_heap t c =
      (if d \<in> set (b_clients s) \<and> c = d
       then (if room (b_heap s d) then enqueue m (b_heap s d) else detached True (b_heap s d)) else b_heap s c)"
    "c \<in> set (b_clients t) \<longleftrightarrow> c \<in> set (b_clients s) \<and> (c = d \<longrightarrow> room (b_heap s d))"
    "b_msgs t = b_msgs s" "b_done t = b_done s"
proof -
  have "c_present (b_heap s d) \<longleftrightarrow> d \<in> set (b_clients s)" using assms(1) by (simp add: board_ok_def)
  with assms push_eq [OF assms(1), of d m]
  show "b_heap t c =
      (if d \<in> set (b_clients s) \<and> c = d
       then (if room (b_heap s d) then enqueue m (b_heap s d) else detached True (b_heap s d)) else b_heap s c)"
    "c \<in> set (b_clients t) \<longleftrightarrow> c \<in> set (b_clients s) \<and> (c = d \<longrightarrow> room (b_heap s d))"
    "b_msgs t = b_msgs s" "b_done t = b_done s"
    by (auto simp: drop_client_def split: if_splits)
qed

lemma Unregister_client:
  assumes "board_ok s" "run_step (Unregister d) s = Inr t"
  shows "b_heap t c = (if d \<in> set (b_clients s) \<and> c = d then detached False (b_heap s d) else b_heap s c)"
    "c \<in> set (b_clients t) \<longleftrightarrow> c \<in> set (b_clients s) \<and> c \<noteq> d" "b_msgs t = b_msgs s"
    "b_done t = b_done s"
  using assms detach_present [of s d False] detach_absent [of s d False]
  by (cases "d \<in> set (b_clients s)"; auto simp: drop_client_def)+

lemma Quit_client:
  assumes "board_ok s" "run_step Quit s = Inr t"
  shows "b_heap t c = (if c \<in> set (b_clients s) then detached True (b_heap s c) else b_heap s c)"
    "b_clients t = []"
  using assms shutdown_eq [OF assms(1)] by auto

text \<open>A client whose queue is closed stays that way and gets nothing more.\<close>

lemma step_shut:
  assumes "board_ok s" "admissible e s" "run_step e s = Inr t" "shut (b_heap s c)"
  shows "shut (b_heap t c) \<and> got (b_heap t c) = got (b_heap s c)"
proof -
  have out: "c \<notin> set (b_clients s)" using assms(1,4) not_shut by blast
  show ?thesis
  proof (cases e)
    case (Register d)
    then have "c \<noteq> d" using assms(2,4) by (auto simp: admissible_def may_register_def shut_def)
    with Register assms(3,4) show ?thesis by (auto simp: join_def)
  next
    case (Unregister d)
    with assms out show ?thesis using Unregister_client(1) [OF assms(1), of d t c] by auto
  next
    case (Msg m)
    with assms out show ?thesis
      using Msg_client(1) [OF assms(1), of m t c] by (simp add: best_effort_effect_def reliable_effect_def Let_def)
  next
    case (Direct d m)
    with assms out show ?thesis using Direct_client(1) [OF assms(1), of d m t c] by auto
  next
    case Quit
    with assms out show ?thesis using Quit_client(1) [OF assms(1), of t c] by simp
  next
    case (Written w)
    with assms show ?thesis by (auto simp: heap_take_written)
  qed (use assms in auto)
qed

text \<open>A client on the board gets the event's reliable message, or is shut out.\<close>

lemma step_present:
  assumes "board_ok s" "run_step e s = Inr t" "c \<in> set (b_clients s)" "b_msgs s"
  shows "(c \<in> set (b_clients t) \<and> stream (b_heap t c) = stream (b_heap s c) @ reliable_msg c e) \<or>
    (c \<notin> set (b_clients t) \<and> shut (b_heap t c) \<and> stream (b_heap t c) = stream (b_heap s c))"
proof (cases e)
  case (Register d)
  with assms show ?thesis by (auto simp: join_def reliable_msg_def split: if_splits)
next
  case (Unregister d)
  with assms show ?thesis
    using Unregister_client(1,2) [OF assms(1), of d t c] by (auto simp: reliable_msg_def)
next
  case (Msg m)
  with assms show ?thesis
    using Msg_client(1,2) [OF assms(1), of m t c]
    by (auto simp: best_effort_effect_def reliable_effect_def Let_def reliable_msg_def)
next
  case (Direct d m)
  with assms show ?thesis
    using Direct_client(1,2) [OF assms(1), of d m t c] by (auto simp: reliable_msg_def)
next
  case Quit
  with assms show ?thesis using Quit_client [OF assms(1), of t] by simp
next
  case (Written w)
  with assms show ?thesis by (auto simp: heap_take_written reliable_msg_def)
qed (use assms in \<open>auto simp: reliable_msg_def\<close>)

lemma step_flags:
  assumes "board_ok s" "run_step e s = Inr t" "e \<noteq> MsgsEnded" "e \<noteq> Quit"
  shows "b_msgs t = b_msgs s \<and> b_done t = b_done s"
proof (cases e)
  case (Unregister d)
  with assms show ?thesis using Unregister_client(3,4) by simp
next
  case (Msg m)
  with assms show ?thesis using Msg_client(3,4) by blast
next
  case (Direct d m)
  with assms show ?thesis using Direct_client(3,4) by blast
qed (use assms in \<open>auto simp: join_def take_written_def split: list.splits\<close>)

lemma run_shut:
  "board_ok s \<Longrightarrow> schedule_ok es s \<Longrightarrow> run es s = Inr t \<Longrightarrow> shut (b_heap s c) \<Longrightarrow>
    shut (b_heap t c) \<and> got (b_heap t c) = got (b_heap s c)"
proof (induction es arbitrary: s)
  case (Cons e es)
  show ?case
  proof (cases "live_event e s")
    case True
    then have adm: "admissible e s" using Cons.prems(2) by simp
    obtain u where u: "run_step e s = Inr u" "board_ok u"
      using run_step_ok [OF Cons.prems(1) adm] by blast
    with True Cons.prems have "schedule_ok es u" "run es u = Inr t" by auto
    then show ?thesis
      using Cons.IH [OF u(2)] step_shut [OF Cons.prems(1) adm u(1) Cons.prems(4)] by simp
  qed (use Cons in simp)
qed simp

lemma run_stream:
  assumes "board_ok s" "schedule_ok es s" "run es s = Inr t" "c \<in> set (b_clients s)" "b_msgs s"
    "\<not> b_done s" "MsgsEnded \<notin> set es"
  shows "\<exists>p. prefix p (reliable_msgs c es) \<and> stream (b_heap t c) = stream (b_heap s c) @ p \<and>
    (c \<in> set (b_clients t) \<longrightarrow> p = reliable_msgs c es)"
  using assms
proof (induction es arbitrary: s)
  case (Cons e es)
  have live: "live_event e s" using Cons.prems(6) by (simp add: live_event_def split: board_event.splits)
  then have adm: "admissible e s" using Cons.prems(2) by simp
  obtain u where u: "run_step e s = Inr u" "board_ok u"
    using run_step_ok [OF Cons.prems(1) adm] by blast
  have rest: "schedule_ok es u" "run es u = Inr t" using live u Cons.prems by auto
  show ?case
  proof (cases "c \<in> set (b_clients u)")
    case True
    with step_present [OF Cons.prems(1) u(1) Cons.prems(4,5)]
    have st: "stream (b_heap u c) = stream (b_heap s c) @ reliable_msg c e" by blast
    have "e \<noteq> Quit" using True Quit_client(2) [OF Cons.prems(1)] u(1) by auto
    then have "b_msgs u" "\<not> b_done u" using step_flags [OF Cons.prems(1) u(1)] Cons.prems(5-7) by auto
    then obtain p where "prefix p (reliable_msgs c es)" "stream (b_heap t c) = stream (b_heap u c) @ p"
      "c \<in> set (b_clients t) \<longrightarrow> p = reliable_msgs c es"
      using Cons.IH [OF u(2) rest True] Cons.prems(7) by auto
    with st show ?thesis
      by (intro exI [of _ "reliable_msg c e @ p"]) auto
  next
    case False
    with step_present [OF Cons.prems(1) u(1) Cons.prems(4,5)]
    have s: "shut (b_heap u c)" "stream (b_heap u c) = stream (b_heap s c)" by auto
    with run_shut [OF u(2) rest s(1)] have "shut (b_heap t c)" "stream (b_heap t c) = stream (b_heap s c)"
      by (auto simp: stream_def)
    moreover have "c \<notin> set (b_clients t)"
      using run_ok [OF u(2) rest(1)] rest(2) calculation(1) not_shut by auto
    ultimately show ?thesis by auto
  qed
qed simp

text \<open>Queues stay within their capacity.\<close>

lemma queues_ok_step [keeps_inv]:
  assumes "board_ok s" "queues_ok s" "run_step e s = Inr t"
  shows "queues_ok t"
proof (cases e)
  case (Register d)
  with assms(2,3) show ?thesis by (auto simp: queues_ok_def join_def)
next
  case (Unregister d)
  with assms show ?thesis
    using Unregister_client(1) [OF assms(1), of d t] by (auto simp: queues_ok_def)
next
  case (Msg m)
  with assms show ?thesis
    using Msg_client(1) [OF assms(1), of m t]
    by (auto simp: queues_ok_def best_effort_effect_def reliable_effect_def Let_def room_def Suc_le_eq)
next
  case (Direct d m)
  with assms show ?thesis
    using Direct_client(1) [OF assms(1), of d m t] by (auto simp: queues_ok_def room_def Suc_le_eq)
next
  case Quit
  with assms show ?thesis using Quit_client(1) [OF assms(1), of t] by (auto simp: queues_ok_def)
next
  case (Written w)
  with assms(2,3) show ?thesis
    by (auto simp: queues_ok_def take_written_def split: list.splits) (metis Suc_leD length_Cons)
qed (use assms in \<open>auto simp: queues_ok_def\<close>)

lemma run_queues:
  "board_ok s \<Longrightarrow> queues_ok s \<Longrightarrow> schedule_ok es s \<Longrightarrow> run es s = Inr t \<Longrightarrow> queues_ok t"
proof (induction es arbitrary: s)
  case (Cons e es)
  show ?case
  proof (cases "live_event e s")
    case True
    then have adm: "admissible e s" using Cons.prems(3) by simp
    obtain u where u: "run_step e s = Inr u" "board_ok u" using run_step_ok [OF Cons.prems(1) adm] by blast
    with True Cons.prems have "schedule_ok es u" "run es u = Inr t" by auto
    then show ?thesis using Cons.IH [OF u(2)] queues_ok_step [OF Cons.prems(1,2) u(1)] by blast
  qed (use Cons in simp)
qed simp

text \<open>A board with the clients \<open>cs\<close>, all of them keeping up, for the examples.\<close>

definition blank_client :: "nat \<Rightarrow> Client" where
  "blank_client c = \<lparr>c_id = replicate (Suc c) (CHR ''c''), c_boardID = ''x'', c_name = [], c_color = [],
     c_send = \<lparr>ch_buf = [], ch_cap = 256, ch_closed = False\<rparr>, c_present = False, c_closed = False, c_written = []\<rparr>"

definition two_clients :: Board where
  "two_clients = join 1 (join 0 (newBoard blank_client))"

lemma two_clients_ok: "board_ok two_clients" "queues_ok two_clients"
proof -
  have b: "board_ok (newBoard blank_client)" by (rule newBoard_ok) (simp add: blank_client_def)
  have "may_register 0 (newBoard blank_client)"
    by (simp add: may_register_def newBoard_def blank_client_def)
  from board_ok_join [OF b this] have b1: "board_ok (join 0 (newBoard blank_client))" .
  have "may_register 1 (join 0 (newBoard blank_client))"
    by (simp add: may_register_def newBoard_def blank_client_def join_def)
  from board_ok_join [OF b1 this] show "board_ok two_clients" by (simp add: two_clients_def)
  show "queues_ok two_clients"
    by (simp add: two_clients_def queues_ok_def newBoard_def blank_client_def join_def)
qed

lemma two_clients_fields:
  "b_clients two_clients = [0, 1]" "b_msgs two_clients" "\<not> b_done two_clients"
  "ch_buf (c_send (b_heap two_clients c)) = []" "ch_cap (c_send (b_heap two_clients c)) = 256"
  by (simp_all add: two_clients_def newBoard_def blank_client_def join_def)

lemma not_cursor_x: "\<not> is_cursor ''x''"
proof -
  have "fst (unmarshal_Envelope ''x'') \<noteq> None" by code_simp
  then show ?thesis by (simp add: is_cursor_def)
qed

section \<open>Properties\<close>

text \<open>(C12)
  The board's goroutine never panics: from a new board, through any sequence of registrations of
  fresh clients, unregistrations, messages, direct deliveries, inspections and the final quit, no
  send hits a closed channel and no channel is closed twice, and the client set, the id index,
  the \<^verbatim>\<open>present\<close> flags and the open queues stay consistent.
\<close>

theorem board_never_panics:
  assumes "\<And>c. \<not> c_present (heap c)" "schedule_ok es (newBoard heap)"
  shows "\<exists>t. run es (newBoard heap) = Inr t \<and> board_ok t"
  using run_ok [OF newBoard_ok [OF assms(1)] assms(2)] .

theorem board_never_panics_witness:
  "\<exists>t. run [Register 0, Register 1, Msg ''x'', Unregister 0, Unregister 0, Written 1, Quit, Msg ''y''] (newBoard blank_client) = Inr t \<and>
    board_ok t"
proof (rule board_never_panics)
  show "\<not> c_present (blank_client c)" for c by (simp add: blank_client_def)
  show "schedule_ok [Register 0, Register 1, Msg ''x'', Unregister 0, Unregister 0, Written 1, Quit, Msg ''y'']
      (newBoard blank_client)"
    by code_simp
qed

text \<open>(C6)
  Reliable messages arrive without gaps, in order and once: over any schedule, what a client on
  the board has been queued (shape operations, presence events and its own direct messages; not
  cursors) grows by a prefix of the messages meant for it, and by all of them if the client is
  still on the board. A client may be cut off, but it never misses a message in the middle.
\<close>

theorem reliable_stream_no_gaps:
  assumes "board_ok s" "schedule_ok es s" "run es s = Inr t" "c \<in> set (b_clients s)" "b_msgs s" "\<not> b_done s"
    "MsgsEnded \<notin> set es"
  shows "\<exists>p. prefix p (reliable_msgs c es) \<and> stream (b_heap t c) = stream (b_heap s c) @ p \<and>
    (c \<in> set (b_clients t) \<longrightarrow> p = reliable_msgs c es)"
  using assms by (rule run_stream)

theorem reliable_stream_no_gaps_witness:
  "\<exists>t. run [Msg ''x'', Written 0, Direct 1 ''y'', Msg ''z''] two_clients = Inr t \<and>
    (\<exists>p. prefix p (reliable_msgs 0 [Msg ''x'', Written 0, Direct 1 ''y'', Msg ''z'']) \<and>
      stream (b_heap t 0) = stream (b_heap two_clients 0) @ p)"
proof -
  let ?es = "[Msg ''x'', Written 0, Direct 1 ''y'', Msg ''z'']"
  have s: "schedule_ok ?es two_clients" by code_simp
  obtain t where t: "run ?es two_clients = Inr t" using run_ok [OF two_clients_ok(1) s] by blast
  have "0 \<in> set (b_clients two_clients)" by (simp add: two_clients_fields)
  from reliable_stream_no_gaps [OF two_clients_ok(1) s t this] t show ?thesis
    by (auto simp: two_clients_fields)
qed

text \<open>
  A reliable delivery reaches every client but the excluded one: a client with room gets the
  message at the end of its queue; a client without is detached and its connection closed; no
  other client changes. The metrics count exactly the deliveries and the kicks.
\<close>

lemma reliable_delivery:
  assumes "board_ok s"
  shows "\<exists>t. deliverReliable d ex s = Inr t \<and> board_ok t \<and>
    (\<forall>c. b_heap t c =
       (if c \<in> set (b_clients s) \<and> ex \<noteq> Some c
        then (if room (b_heap s c) then enqueue d (b_heap s c) else detached True (b_heap s c))
        else b_heap s c)) \<and>
    b_clients t = filter (\<lambda>c. ex = Some c \<or> room (b_heap s c)) (b_clients s) \<and>
    b_events t = b_events s @ MessagesDelivered (length (filter (\<lambda>c. ex \<noteq> Some c \<and> room (b_heap s c)) (b_clients s))) #
      replicate (length (filter (\<lambda>c. ex \<noteq> Some c \<and> \<not> room (b_heap s c)) (b_clients s))) ClientKicked"
proof -
  have "(\<lambda>c. \<not> lags ex (b_heap s) c) = (\<lambda>c. ex = Some c \<or> room (b_heap s c))" by auto
  then show ?thesis
    using deliverReliable_eq [OF assms, of d ex] by (auto simp: reliable_effect_def Let_def)
qed

text \<open>
  Delivery does not depend on the order in which Go's \<^verbatim>\<open>range\<close> visits the client map: any
  permutation of it leads to the same clients, queues and metrics.
\<close>

lemma delivery_order_independent:
  assumes "board_ok s" "mset cs = mset (b_clients s)"
    "deliverReliable d ex s = Inr t" "deliverReliable d ex (s\<lparr>b_clients := cs\<rparr>) = Inr t'"
  shows "b_heap t' = b_heap t \<and> mset (b_clients t') = mset (b_clients t) \<and> b_events t' = b_events t"
proof -
  have set: "set cs = set (b_clients s)" using assms(2) by (rule mset_eq_setD)
  have ok: "board_ok (s\<lparr>b_clients := cs\<rparr>)"
    using assms(1) set mset_eq_imp_distinct_iff [OF assms(2)] by (simp add: board_ok_def)
  have len: "length (filter P cs) = length (filter P (b_clients s))" for P
    using assms(2) by (metis mset_filter size_mset)
  have "reliable_effect d ex (s\<lparr>b_clients := cs\<rparr>) = reliable_effect d ex s"
    by (simp add: reliable_effect_def set fun_eq_iff)
  then show ?thesis
    using deliverReliable_eq [OF assms(1), of d ex] deliverReliable_eq [OF ok, of d ex] assms(2-4)
    by (auto simp: len)
qed

text \<open>
  A cursor is best-effort: nobody is kicked and no queue shrinks; every client with room but the
  cursor's author gets it at the end of its queue, a client without room just misses it, and the
  author, if it is on this board, never gets its own cursor back.
\<close>

lemma cursor_best_effort:
  assumes "board_ok s" "unmarshal_Envelope m = (None, env)" "env_Type env = TypeCursor"
    "DecodePayload env set_Cursor zero_Cursor = (None, cur)"
  shows "\<exists>t. dispatch m s = Inr t \<and> board_ok t \<and> b_clients t = b_clients s \<and>
    (\<forall>c. b_heap t c =
       (if c \<in> set (b_clients s) \<and> c_id (b_heap s c) \<noteq> cur_ClientID cur \<and> room (b_heap s c)
        then enqueue m (b_heap s c) else b_heap s c))"
proof -
  have o: "is_cursor m" "cursor_origin m = cur_ClientID cur"
    using assms(2-4) by (simp_all add: is_cursor_def cursor_origin_def)
  have by_id: "gomap_get (b_byID s) (cur_ClientID cur) \<noteq> Some c \<longleftrightarrow> c_id (b_heap s c) \<noteq> cur_ClientID cur"
    if "c \<in> set (b_clients s)" for c
    using assms(1) that unfolding board_ok_def by blast
  let ?t = "s\<lparr>b_heap := best_effort_effect m (gomap_get (b_byID s) (cur_ClientID cur)) s\<rparr>"
  have "dispatch m s = Inr (emit (MessagesDelivered (length (filter
      (gets (gomap_get (b_byID s) (cur_ClientID cur)) (b_heap s)) (b_clients s)))) ?t)"
    using o by (simp add: dispatch_eq deliverBestEffort_eq [OF assms(1)])
  then show ?thesis
    using send_loop_board(2) [OF assms(1)] by_id by (auto simp: best_effort_effect_def Let_def)
qed

text \<open>
  Detaching is idempotent: after a client is detached (kicked, say), detaching it again (its
  unregistration) is a no-op, so its queue is closed exactly once; what it was queued stays.
\<close>

lemma detach_idempotent:
  assumes "board_ok s" "detach c k s = Inr t"
  shows "detach c k' t = Inr t \<and> c \<notin> set (b_clients t) \<and> board_ok t \<and> got (b_heap t c) = got (b_heap s c)"
proof (cases "c \<in> set (b_clients s)")
  case True
  then have t: "t = drop_client k c s" using assms detach_present by simp
  have "board_ok t" using t board_ok_drop [OF assms(1) True] by simp
  moreover have "c \<notin> set (b_clients t)" using t by (simp add: drop_client_def)
  ultimately show ?thesis using t by (simp add: detach_absent) (simp add: drop_client_def)
next
  case False
  with assms show ?thesis by (auto simp: detach_absent)
qed

text \<open>
  Quitting drains the board: every client is detached, its queue closed with its contents intact
  for the write pump, its connection closed; the board is empty, has returned and reports its end
  once.
\<close>

lemma quit_drains_board:
  assumes "board_ok s"
  shows "\<exists>t. run_step Quit s = Inr t \<and> b_clients t = [] \<and> b_done t \<and> b_events t = b_events s @ [BoardClosed] \<and>
    (\<forall>c \<in> set (b_clients s). \<not> c_present (b_heap t c) \<and> shut (b_heap t c) \<and> c_closed (b_heap t c) \<and>
       got (b_heap t c) = got (b_heap s c))"
  using shutdown_eq [OF assms] by auto

text \<open>
  Backpressure: no queue ever holds more than its capacity, which \<^verbatim>\<open>Serve\<close> sets to 256.
\<close>

lemma board_queues_bounded:
  assumes "board_ok s" "queues_ok s" "schedule_ok es s" "run es s = Inr t"
  shows "length (ch_buf (c_send (b_heap t c))) \<le> ch_cap (c_send (b_heap t c))"
  using run_queues [OF assms] by (simp add: queues_ok_def)

end
