(* ===== verification/Client.thy ===== *)
theory Client
  imports BoardLaws Persistence
begin

text \<open>
  One connection: the client half of \<^verbatim>\<open>internal/hub/client.go\<close>, and the parts of
  \<^verbatim>\<open>internal/hub/board.go\<close> that join the board actor to its broker and its store.
  The operations are parametrised by the broker's method table and, where
  persistence is used, by the store's; \<open>None\<close> in place of a store is the nil
  \<^verbatim>\<open>persistence\<close> of a hub without one.
\<close>

unbundle bit_operations_syntax

section \<open>Identity\<close>

record ClientInfo =
  info_Name :: bytes
  info_Color :: bytes

definition palette :: "bytes list" where
  "palette =
     [''#e6194b'', ''#3cb44b'', ''#4363d8'', ''#f58231'', ''#911eb4'',
      ''#42d4f4'', ''#f032e6'', ''#bfef45'', ''#fabed4'', ''#469990'']"

definition defaultName :: "bytes \<Rightarrow> bytes" where
  "defaultName name = (if name = [] then ''Anonymous'' else name)"

text \<open>FNV-1a on 32 bits, as \<^verbatim>\<open>hash/fnv\<close> has it: \<^verbatim>\<open>uint32\<close> arithmetic wraps around.\<close>

definition fnv32a :: "bytes \<Rightarrow> u32" where
  "fnv32a s = foldl (\<lambda>h c. (h XOR of_int (of_char c)) * 16777619) 2166136261 s"

text \<open>Indexing \<^verbatim>\<open>palette\<close> out of range would panic: \<open>None\<close>.\<close>

definition defaultColor :: "bytes \<Rightarrow> bytes \<Rightarrow> bytes option" where
  "defaultColor color cid =
     (if color \<noteq> [] then Some color
      else let i = unat (fnv32a cid mod of_nat (length palette))
           in if i < length palette then Some (palette ! i) else None)"

text \<open>\<^verbatim>\<open>newID\<close> of the eight bytes \<^verbatim>\<open>rand.Read\<close> delivered.\<close>

definition hex_char :: "int \<Rightarrow> char" where
  "hex_char n = (if n < 10 then char_of (48 + n) else char_of (87 + n))"

definition newID :: "bytes \<Rightarrow> bytes" where
  "newID b = concat (map (\<lambda>c. [hex_char (of_char c div 16), hex_char (of_char c mod 16)]) b)"

text \<open>The struct \<^verbatim>\<open>Serve\<close> builds.\<close>

definition newClient :: "bytes \<Rightarrow> bytes \<Rightarrow> ClientInfo \<Rightarrow> Client option" where
  "newClient rnd boardID info =
     (let cid = newID rnd in
      map_option (\<lambda>col.
        \<lparr>c_id = cid, c_boardID = boardID, c_name = defaultName (info_Name info), c_color = col,
         c_send = \<lparr>ch_buf = [], ch_cap = sendBuffer, ch_closed = False\<rparr>,
         c_present = False, c_closed = False, c_written = []\<rparr>)
        (defaultColor (info_Color info) cid))"

definition presence :: "Client \<Rightarrow> Presence" where
  "presence c = \<lparr>p_ClientID = c_id c, p_Name = c_name c, p_Color = c_color c\<rparr>"

section \<open>The world of one board on one instance\<close>

record ('b, 's) World =
  w_broker :: 'b
  w_store :: 's
  w_board :: Board
  w_msgs :: "nat option"  \<comment> \<open>the channel of the board's subscription; nil if there is none\<close>

abbreviation client_of :: "nat \<Rightarrow> ('b, 's) World \<Rightarrow> Client" where
  "client_of c w \<equiv> b_heap (w_board w) c"

text \<open>A step of the board's goroutine.\<close>

definition on_board :: "board_event \<Rightarrow> ('b, 's) World \<Rightarrow> panic + ('b, 's) World" where
  "on_board e w =
     (if live_event e (w_board w)
      then bind_result (run_step e (w_board w)) (\<lambda>s. Inr (w\<lparr>w_board := s\<rparr>)) else Inr w)"

definition board_hydrate :: "'b Broker \<Rightarrow> 's Store option \<Rightarrow> bytes \<Rightarrow> ('b, 's) World \<Rightarrow> ('b, 's) World" where
  "board_hydrate B P bid w =
     (case P of
        None \<Rightarrow> w
      | Some S \<Rightarrow> (case hydrate B S (w_broker w, w_store w) bid of
          (b, s) \<Rightarrow> w\<lparr>w_broker := b, w_store := s\<rparr>))"

definition persistOnClose :: "'b Broker \<Rightarrow> 's Store option \<Rightarrow> bytes \<Rightarrow> ('b, 's) World \<Rightarrow> ('b, 's) World" where
  "persistOnClose B P bid w =
     (case P of
        None \<Rightarrow> w
      | Some S \<Rightarrow> (case save B S (w_broker w, w_store w) bid of
          (b, s) \<Rightarrow> w\<lparr>w_broker := b, w_store := s\<rparr>))"

text \<open>\<^verbatim>\<open>run\<close> up to its loop: hydrate, then subscribe; without a subscription there is no fan-out.\<close>

definition run_start :: "'b Broker \<Rightarrow> 's Store option \<Rightarrow> bytes \<Rightarrow> ('b, 's) World \<Rightarrow> ('b, 's) World" where
  "run_start B P bid w =
     (let w1 = board_hydrate B P bid w in
      case br_Subscribe B (w_broker w1) bid of
        (Inl err, b) \<Rightarrow> w1\<lparr>w_broker := b, w_msgs := None\<rparr>
      | (Inr ch, b) \<Rightarrow> w1\<lparr>w_broker := b, w_msgs := Some ch\<rparr>)"

text \<open>The loop's case of a message on the subscription; nothing happens where it would block.\<close>

definition run_msg :: "'b Broker \<Rightarrow> ('b, 's) World \<Rightarrow> panic + ('b, 's) World" where
  "run_msg B w =
     (case w_msgs w of
        None \<Rightarrow> Inr w
      | Some ch \<Rightarrow>
          if b_done (w_board w) then Inr w
          else (case br_recv B (w_broker w) ch of
            (None, b) \<Rightarrow> Inr (w\<lparr>w_broker := b\<rparr>)
          | (Some m, b) \<Rightarrow> on_board (Msg m) (w\<lparr>w_broker := b\<rparr>)))"

text \<open>The loop's case of \<^verbatim>\<open>quit\<close>: drain, persist, then the deferred calls.\<close>

definition run_quit :: "'b Broker \<Rightarrow> 's Store option \<Rightarrow> bytes \<Rightarrow> ('b, 's) World \<Rightarrow> panic + ('b, 's) World" where
  "run_quit B P bid w =
     bind_result (on_board Quit w) (\<lambda>w1.
       let w2 = persistOnClose B P bid w1 in
       Inr (case w_msgs w2 of None \<Rightarrow> w2 | Some ch \<Rightarrow> w2\<lparr>w_broker := br_cancel B (w_broker w2) bid ch\<rparr>))"

section \<open>Operations of a client\<close>

text \<open>Publishing; an error is logged and nothing else.\<close>

definition publish :: "'b Broker \<Rightarrow> bytes \<Rightarrow> bytes go_result \<Rightarrow> ('b, 's) World \<Rightarrow> ('b, 's) World" where
  "publish B bid r w =
     (case r of Inl err \<Rightarrow> w | Inr msg \<Rightarrow> w\<lparr>w_broker := snd (br_Publish B (w_broker w) bid msg)\<rparr>)"

definition applyShapeOp :: "'b Broker \<Rightarrow> nat \<Rightarrow> Envelope \<Rightarrow> ('b, 's) World \<Rightarrow> ('b, 's) World" where
  "applyShapeOp B c env w =
     (case DecodePayload env set_ShapeOp zero_ShapeOp of (err, op) \<Rightarrow>
        if err \<noteq> None \<or> op_ID op = [] then w
        else let bid = c_boardID (client_of c w); del = (env_Type env = TypeShapeDelete) in
          (case br_ApplyShape B (w_broker w) bid (op_ID op) (op_Shape op) del of
             (Inl e, b) \<Rightarrow> w\<lparr>w_broker := b\<rparr>
           | (Inr seq, b) \<Rightarrow> publish B bid (Marshal (env_Type env) seq (marshal_ShapeOp op)) (w\<lparr>w_broker := b\<rparr>)))"

definition publishCursor :: "'b Broker \<Rightarrow> nat \<Rightarrow> Envelope \<Rightarrow> ('b, 's) World \<Rightarrow> ('b, 's) World" where
  "publishCursor B c env w =
     (case DecodePayload env set_Cursor zero_Cursor of (err, cur) \<Rightarrow>
        if err \<noteq> None then w
        else publish B (c_boardID (client_of c w))
          (Marshal TypeCursor 0 (marshal_Cursor (cur\<lparr>cur_ClientID := c_id (client_of c w)\<rparr>))) w)"

definition joinPresence :: "'b Broker \<Rightarrow> nat \<Rightarrow> ('b, 's) World \<Rightarrow> ('b, 's) World" where
  "joinPresence B c w =
     (let x = client_of c w;
          w1 = (case marshal_Presence (presence x) of
                  Inl err \<Rightarrow> w
                | Inr data \<Rightarrow> w\<lparr>w_broker := snd (br_SetPresence B (w_broker w) (c_boardID x) (c_id x) (Some data))\<rparr>)
      in publish B (c_boardID x) (Marshal TypePresenceJoin 0 (marshal_Presence (presence x))) w1)"

definition leavePresence :: "'b Broker \<Rightarrow> nat \<Rightarrow> ('b, 's) World \<Rightarrow> ('b, 's) World" where
  "leavePresence B c w =
     (let x = client_of c w;
          w1 = w\<lparr>w_broker := snd (br_RemovePresence B (w_broker w) (c_boardID x) (c_id x))\<rparr>
      in publish B (c_boardID x)
           (Marshal TypePresenceLeave 0 (marshal_Presence (zero_Presence\<lparr>p_ClientID := c_id x\<rparr>))) w1)"

text \<open>
  The select of \<^verbatim>\<open>deliverDirect\<close>: \<open>ctxDone\<close> says that the context's arm is taken;
  a board that has stopped leaves only the other two arms.
\<close>

definition deliverDirect :: "bool \<Rightarrow> nat \<Rightarrow> bytes \<Rightarrow> ('b, 's) World \<Rightarrow> panic + ('b, 's) World" where
  "deliverDirect ctxDone c data w = (if ctxDone then Inr w else on_board (Direct c data) w)"

definition sendSnapshot :: "'b Broker \<Rightarrow> bool \<Rightarrow> nat \<Rightarrow> ('b, 's) World \<Rightarrow> panic + ('b, 's) World" where
  "sendSnapshot B ctxDone c w =
     (case br_Snapshot B (w_broker w) (c_boardID (client_of c w)) of
        (Inl err, b) \<Rightarrow> Inr (w\<lparr>w_broker := b\<rparr>)
      | (Inr snap, b) \<Rightarrow>
          (case Marshal TypeSnapshot 0 (marshal_Snapshot snap) of
             Inl err \<Rightarrow> Inr (w\<lparr>w_broker := b\<rparr>)
           | Inr data \<Rightarrow> deliverDirect ctxDone c data (w\<lparr>w_broker := b\<rparr>)))"

definition sendPresenceState :: "'b Broker \<Rightarrow> bool \<Rightarrow> nat \<Rightarrow> ('b, 's) World \<Rightarrow> panic + ('b, 's) World" where
  "sendPresenceState B ctxDone c w =
     (let x = client_of c w in
      case br_Presence B (w_broker w) (c_boardID x) of
        (Inl err, b) \<Rightarrow> Inr (w\<lparr>w_broker := b\<rparr>)
      | (Inr roster, b) \<Rightarrow>
          (case Marshal TypePresenceState 0 (marshal_PresenceState
             \<lparr>ps_Self = presence x, ps_Others = filter (\<lambda>p. p_ClientID p \<noteq> c_id x) roster\<rparr>) of
             Inl err \<Rightarrow> Inr (w\<lparr>w_broker := b\<rparr>)
           | Inr data \<Rightarrow> deliverDirect ctxDone c data (w\<lparr>w_broker := b\<rparr>)))"

text \<open>One inbound frame of \<^verbatim>\<open>readPump\<close>; frames are handled until a read fails.\<close>

definition readPump_step :: "'b Broker \<Rightarrow> nat \<Rightarrow> bytes \<Rightarrow> ('b, 's) World \<Rightarrow> ('b, 's) World" where
  "readPump_step B c data w =
     (case unmarshal_Envelope data of
        (Some err, env) \<Rightarrow> w
      | (None, env) \<Rightarrow>
          let w1 = w\<lparr>w_board := emit MessageReceived (w_board w)\<rparr> in
          if env_Type env \<in> {TypeShapeCreate, TypeShapeUpdate, TypeShapeDelete} then applyShapeOp B c env w1
          else if env_Type env = TypeCursor then publishCursor B c env w1
          else w1)"

fun readPump :: "'b Broker \<Rightarrow> nat \<Rightarrow> bytes option list \<Rightarrow> ('b, 's) World \<Rightarrow> ('b, 's) World" where
  "readPump B c [] w = w"
| "readPump B c (None # fs) w = w"
| "readPump B c (Some data # fs) w = readPump B c fs (readPump_step B c data w)"

text \<open>
  One turn of \<^verbatim>\<open>writePump\<close>: whether it goes on, and the client. A channel that is
  closed still hands out what it holds; an empty open one blocks.
\<close>

datatype pump_case = SendReady bool | Tick bool | CtxDone
  \<comment> \<open>the argument says whether the write or the ping succeeds\<close>

definition writePump_step :: "pump_case \<Rightarrow> Client \<Rightarrow> bool \<times> Client" where
  "writePump_step e x =
     (case e of
        SendReady ok \<Rightarrow>
          (case ch_buf (c_send x) of
             d # q \<Rightarrow> (ok, x\<lparr>c_send := (c_send x)\<lparr>ch_buf := q\<rparr>, c_written := c_written x @ [d]\<rparr>)
           | [] \<Rightarrow> (\<not> ch_closed (c_send x), x))
      | Tick ok \<Rightarrow> (ok, x)
      | CtxDone \<Rightarrow> (False, x))"

fun writePump :: "pump_case list \<Rightarrow> Client \<Rightarrow> bool \<times> Client" where
  "writePump [] x = (True, x)"
| "writePump (e # es) x = (case writePump_step e x of (go, y) \<Rightarrow> if go then writePump es y else (False, y))"

text \<open>\<^verbatim>\<open>Serve\<close> from the registration to the start of the pumps.\<close>

definition onboard :: "'b Broker \<Rightarrow> bool \<Rightarrow> nat \<Rightarrow> ('b, 's) World \<Rightarrow> panic + ('b, 's) World" where
  "onboard B ctxDone c w =
     bind_result (on_board (Register c) w) (\<lambda>w1.
     bind_result (sendSnapshot B ctxDone c (joinPresence B c w1)) (\<lambda>w2.
     sendPresenceState B ctxDone c w2))"

end
