(* ===== verification/ClientLaws.thy ===== *)
theory ClientLaws
  imports Client
begin

text \<open>
  Laws of one connection: identities, the path of a shape operation and of a cursor
  from the socket of one client to the queues of all, the roster, onboarding, and
  the write pump.
\<close>

section \<open>Identities\<close>

lemma fnv32a_vectors:
  "fnv32a [] = 0x811c9dc5" "fnv32a ''a'' = 0xe40c292c" "fnv32a ''foobar'' = 0xbf9cf968"
  by code_simp+

lemma defaultColor_cases:
  obtains col where "defaultColor color cid = Some col" "color \<noteq> [] \<and> col = color \<or> color = [] \<and> col \<in> set palette"
proof (cases "color = []")
  case True
  have "unat (fnv32a cid mod of_nat (length palette)) < length palette"
    by (simp add: unat_mod_distrib palette_def)
  with True show thesis
    by (intro that [of "palette ! unat (fnv32a cid mod of_nat (length palette))"])
      (simp_all add: defaultColor_def Let_def)
next
  case False
  then show thesis by (intro that [of color]) (simp_all add: defaultColor_def)
qed

lemma of_hex_char: "0 \<le> n \<Longrightarrow> n < 16 \<Longrightarrow> (of_char (hex_char n) :: int) = (if n < 10 then 48 + n else 87 + n)"
  by (simp add: hex_char_def of_char_of)

lemma hex_char_inj:
  assumes "0 \<le> m" "m < 16" "0 \<le> n" "n < 16" "hex_char m = hex_char n"
  shows "m = n"
proof -
  have "(if m < 10 then 48 + m else 87 + m) = (if n < 10 then 48 + n else 87 + n)"
    using of_hex_char [OF assms(1,2)] of_hex_char [OF assms(3,4)] assms(5) by metis
  then show ?thesis by (simp split: if_splits)
qed

lemma newID_length: "length (newID b) = 2 * length b"
  by (induction b) (simp_all add: newID_def)

lemma newID_inj: "newID b = newID b' \<Longrightarrow> b = b'"
proof (induction b arbitrary: b')
  case Nil
  then show ?case by (cases b') (simp_all add: newID_def)
next
  case (Cons c b)
  then obtain d e where b': "b' = d # e" by (cases b') (auto simp: newID_def)
  have bounds: "0 \<le> (of_char x :: int)" "(of_char x :: int) < 256" for x
    using code_bounds by auto
  have "(of_char c :: int) div 16 = of_char d div 16" "(of_char c :: int) mod 16 = of_char d mod 16"
    using Cons.prems bounds [of c] bounds [of d]
    by (auto simp: b' newID_def intro!: hex_char_inj pos_imp_zdiv_nonneg_iff [THEN iffD2])
  then have "(of_char c :: int) = of_char d" by (metis div_mult_mod_eq)
  then have "c = d" by (simp add: of_char_eq_iff)
  moreover have "b = e" using Cons.IH [of e] Cons.prems by (simp add: b' newID_def)
  ultimately show ?case by (simp add: b')
qed

lemma newClient_fresh:
  obtains x where "newClient rnd bid info = Some x" "c_id x = newID rnd" "c_boardID x = bid"
    "\<not> c_present x" "\<not> shut x" "got x = []" "ch_cap (c_send x) = 256" "c_name x \<noteq> []" "c_color x \<noteq> []"
proof -
  obtain col where col: "defaultColor (info_Color info) (newID rnd) = Some col"
    "info_Color info \<noteq> [] \<and> col = info_Color info \<or> info_Color info = [] \<and> col \<in> set palette"
    by (rule defaultColor_cases)
  have "col \<noteq> []"
    using col(2) by (auto simp: palette_def)
  with col(1) show thesis
    by (intro that) (auto simp: newClient_def Let_def shut_def got_def sendBuffer_def defaultName_def split: if_splits)
qed

section \<open>The write pump\<close>

lemma writePump_drains:
  "writePump (replicate (length (ch_buf (c_send x))) (SendReady True)) x =
    (True, x\<lparr>c_send := (c_send x)\<lparr>ch_buf := []\<rparr>, c_written := got x\<rparr>)"
proof (induction "ch_buf (c_send x)" arbitrary: x)
  case Nil
  then show ?case by (simp add: got_def)
next
  case (Cons d q)
  let ?y = "x\<lparr>c_send := (c_send x)\<lparr>ch_buf := q\<rparr>, c_written := c_written x @ [d]\<rparr>"
  have "writePump (replicate (length q) (SendReady True)) ?y =
      (True, ?y\<lparr>c_send := (c_send ?y)\<lparr>ch_buf := []\<rparr>, c_written := got ?y\<rparr>)"
    using Cons.hyps(1) [of ?y] by simp
  then show ?case
    using Cons.hyps(2) [symmetric] by (simp add: writePump_step_def got_def)
qed

lemma writePump_append:
  "writePump (es @ fs) x = (case writePump es x of (go, y) \<Rightarrow> if go then writePump fs y else (False, y))"
  by (induction es arbitrary: x) (auto split: prod.splits)

lemma writePump_stops:
  assumes "shut x"
  shows "writePump (replicate (length (ch_buf (c_send x))) (SendReady True) @ [SendReady True]) x =
    (False, x\<lparr>c_send := (c_send x)\<lparr>ch_buf := []\<rparr>, c_written := got x\<rparr>)"
  using assms by (simp add: writePump_append writePump_drains writePump_step_def shut_def)

section \<open>Messages a client sends\<close>

lemma decoded_shape_valid:
  assumes "DecodePayload env set_ShapeOp zero_ShapeOp = (e, op)"
  shows "op_Shape op = None \<or> (\<exists>s. op_Shape op = Some s \<and> json_valid s)"
proof -
  let ?P = "\<lambda>op. op_Shape op = None \<or> (\<exists>s. op_Shape op = Some s \<and> json_valid s)"
  have "?P (snd (set_ShapeOp k v y))" if "json_valid v" "?P y" for k v y
    using that by (auto simp: set_ShapeOp_def split: prod.splits)
  then have "?P (snd (unmarshal set_ShapeOp s zero_ShapeOp))" for s
    by (rule unmarshal_inv [where P = ?P]) (simp_all add: zero_ShapeOp_def)
  with assms show ?thesis
    unfolding DecodePayload_def by (metis snd_conv zero_ShapeOp_def ShapeOp.select_convs(2))
qed

lemma decoded_cursor_numbers:
  assumes "DecodePayload env set_Cursor zero_Cursor = (e, cur)"
  shows "scan_number (cur_X cur) = Some [] \<and> scan_number (cur_Y cur) = Some []"
proof -
  let ?P = "\<lambda>cur. scan_number (cur_X cur) = Some [] \<and> scan_number (cur_Y cur) = Some []"
  have z: "?P zero_Cursor" by (simp add: zero_Cursor_def) code_simp
  have "?P (snd (set_Cursor k v y))" if "json_valid v" "?P y" for k v y
    using that by (auto simp: set_Cursor_def get_number_def split: prod.splits)
  then have "?P (snd (unmarshal set_Cursor s zero_Cursor))" for s
    using z by (rule unmarshal_inv [where P = ?P])
  with assms z show ?thesis
    unfolding DecodePayload_def by (metis snd_conv)
qed

text \<open>The message published for an operation that was accepted.\<close>

lemma shape_message:
  assumes "DecodePayload env set_ShapeOp zero_ShapeOp = (None, op)"
  obtains msg env' where "Marshal t seq (marshal_ShapeOp op) = Inr msg" "unmarshal_Envelope msg = (None, env')"
    "env_Type env' = t" "env_Seq env' = seq"
    "DecodePayload env' set_ShapeOp zero_ShapeOp = (None, op\<lparr>op_Shape := map_option (compact False) (op_Shape op)\<rparr>)"
proof -
  obtain ms where ms: "marshal_ShapeOp op = Inr (json_object ms)" "list_all (canonical \<circ> snd) ms"
    "set_fields set_ShapeOp ms (None, zero_ShapeOp) = (None, op\<lparr>op_Shape := map_option (compact False) (op_Shape op)\<rparr>)"
    using marshal_ShapeOp_cases [OF decoded_shape_valid [OF assms]] by metis
  show thesis
  proof (rule envelope_roundtrip [OF canonical_object [OF ms(2)]])
    fix data
    assume "Marshal t seq (Inr (json_object ms)) = Inr data"
      "unmarshal_Envelope data = (None, \<lparr>env_Type = t, env_Seq = seq, env_Payload = Some (json_object ms)\<rparr>)"
    then show thesis
      using ms by (intro that [of data]) (auto simp: decode_payload_object)
  qed
qed

text \<open>The message published for a cursor carries the sender's own id, whatever it claimed.\<close>

lemma cursor_message:
  assumes "DecodePayload env set_Cursor zero_Cursor = (None, cur)"
  obtains msg where "Marshal TypeCursor 0 (marshal_Cursor (cur\<lparr>cur_ClientID := i\<rparr>)) = Inr msg"
    "is_cursor msg" "cursor_origin msg = i"
    "DecodePayload (snd (unmarshal_Envelope msg)) set_Cursor zero_Cursor = (None, cur\<lparr>cur_ClientID := i\<rparr>)"
proof -
  let ?ms = "[(''clientId'', marshal_string i), (''x'', cur_X cur), (''y'', cur_Y cur)]"
  have n: "scan_number (cur_X cur) = Some []" "scan_number (cur_Y cur) = Some []"
    using decoded_cursor_numbers [OF assms] by auto
  have nn: "v \<noteq> json_null" if "scan_number v = Some []" for v
  proof
    assume "v = json_null"
    with that have "scan_number json_null = Some []" by simp
    moreover have "scan_number json_null \<noteq> Some []" by code_simp
    ultimately show False by simp
  qed
  have c: "list_all (canonical \<circ> snd) ?ms" using n by (simp add: canonical_string canonical_number)
  have s: "set_fields set_Cursor ?ms (None, zero_Cursor) = (None, cur\<lparr>cur_ClientID := i\<rparr>)"
    using n nn by (simp add: set_Cursor_def key_eval get_number_def zero_Cursor_def)
  show thesis
  proof (rule envelope_roundtrip [OF canonical_object [OF c]])
    fix data
    assume "Marshal TypeCursor 0 (Inr (json_object ?ms)) = Inr data"
      "unmarshal_Envelope data = (None, \<lparr>env_Type = TypeCursor, env_Seq = 0, env_Payload = Some (json_object ?ms)\<rparr>)"
    then show thesis
      using c s by (intro that [of data])
        (auto simp: marshal_Cursor_def is_cursor_def cursor_origin_def decode_payload_object)
  qed
qed

section \<open>Laws for every broker that keeps its contract\<close>

context broker_contract
begin

lemma publish_kept:
  assumes "inv (w_broker w)"
  shows "inv (w_broker (publish B bid r w)) \<and> doc (w_broker (publish B bid r w)) = doc (w_broker w) \<and>
    roster (w_broker (publish B bid r w)) = roster (w_broker w) \<and> w_board (publish B bid r w) = w_board w"
proof (cases r)
  case (Inr msg)
  with publish_law [OF assms, of bid msg "fst (br_Publish B (w_broker w) bid msg)"
      "snd (br_Publish B (w_broker w) bid msg)"]
  show ?thesis by (simp add: publish_def)
qed (use assms in \<open>simp add: publish_def\<close>)

lemma applyShapeOp_doc:
  assumes "inv (w_broker w)" "c_boardID (client_of c w) = bid" "d_seq (doc (w_broker w) bid) < cap"
    "DecodePayload env set_ShapeOp zero_ShapeOp = (None, op)" "op_ID op \<noteq> []"
    "br_ApplyShape B (w_broker w) bid (op_ID op) (op_Shape op) (env_Type env = TypeShapeDelete) = (Inr seq, b)"
  shows "seq = d_seq (doc (w_broker w) bid) + 1"
    "inv (w_broker (applyShapeOp B c env w))"
    "doc (w_broker (applyShapeOp B c env w)) =
      (doc (w_broker w))(bid := doc_apply (op_ID op) (slice_bytes (op_Shape op)) (env_Type env = TypeShapeDelete)
        (doc (w_broker w) bid))"
    "w_board (applyShapeOp B c env w) = w_board w"
proof -
  note a = apply_law [OF assms(1,3,6)]
  have "inv (w_broker (w\<lparr>w_broker := b\<rparr>))" using a by simp
  note p = publish_kept [OF this, of bid "Marshal (env_Type env) seq (marshal_ShapeOp op)"]
  have eq: "applyShapeOp B c env w = publish B bid (Marshal (env_Type env) seq (marshal_ShapeOp op)) (w\<lparr>w_broker := b\<rparr>)"
    using assms(2,4-6) by (simp add: applyShapeOp_def Let_def)
  show "seq = d_seq (doc (w_broker w) bid) + 1" using a by simp
  show "inv (w_broker (applyShapeOp B c env w))"
    "doc (w_broker (applyShapeOp B c env w)) =
      (doc (w_broker w))(bid := doc_apply (op_ID op) (slice_bytes (op_Shape op)) (env_Type env = TypeShapeDelete)
        (doc (w_broker w) bid))"
    "w_board (applyShapeOp B c env w) = w_board w"
    using p a unfolding eq by simp_all
qed

text \<open>A cursor never touches the document or the roster.\<close>

lemma publishCursor_kept:
  assumes "inv (w_broker w)"
  shows "inv (w_broker (publishCursor B c env w)) \<and> doc (w_broker (publishCursor B c env w)) = doc (w_broker w) \<and>
    roster (w_broker (publishCursor B c env w)) = roster (w_broker w)"
  using publish_kept [OF assms, of "c_boardID (client_of c w)"] assms
  by (auto simp: publishCursor_def split: prod.splits)

end

text \<open>Presence, for brokers whose roster operations do not fail.\<close>

locale presence_contract = broker_contract +
  assumes set_presence_ok: "inv s \<Longrightarrow> \<exists>s'. br_SetPresence B s b c p = (Inr (), s')"
    and remove_presence_ok: "inv s \<Longrightarrow> \<exists>s'. br_RemovePresence B s b c = (Inr (), s')"
begin

lemma joinPresence_roster:
  assumes "inv (w_broker w)"
  shows "inv (w_broker (joinPresence B c w))" "doc (w_broker (joinPresence B c w)) = doc (w_broker w)"
    "roster (w_broker (joinPresence B c w)) = (roster (w_broker w))(c_boardID (client_of c w) :=
      (roster (w_broker w) (c_boardID (client_of c w)))(c_id (client_of c w) \<mapsto> presence_object (presence (client_of c w))))"
    "w_board (joinPresence B c w) = w_board w"
proof -
  let ?x = "client_of c w"
  obtain s where s: "br_SetPresence B (w_broker w) (c_boardID ?x) (c_id ?x) (Some (presence_object (presence ?x))) = (Inr (), s)"
    using set_presence_ok [OF assms] by blast
  note l = set_presence_law [OF assms s]
  then have "inv (w_broker (w\<lparr>w_broker := s\<rparr>))" by simp
  note p = publish_kept [OF this, of "c_boardID ?x" "Marshal TypePresenceJoin 0 (marshal_Presence (presence ?x))"]
  have eq: "joinPresence B c w =
      publish B (c_boardID ?x) (Marshal TypePresenceJoin 0 (marshal_Presence (presence ?x))) (w\<lparr>w_broker := s\<rparr>)"
    using s by (simp add: joinPresence_def Let_def marshal_Presence_def)
  show "inv (w_broker (joinPresence B c w))" "doc (w_broker (joinPresence B c w)) = doc (w_broker w)"
    "roster (w_broker (joinPresence B c w)) = (roster (w_broker w))(c_boardID (client_of c w) :=
      (roster (w_broker w) (c_boardID (client_of c w)))(c_id (client_of c w) \<mapsto> presence_object (presence (client_of c w))))"
    "w_board (joinPresence B c w) = w_board w"
    using p l unfolding eq by simp_all
qed

lemma leavePresence_roster:
  assumes "inv (w_broker w)"
  shows "inv (w_broker (leavePresence B c w))" "doc (w_broker (leavePresence B c w)) = doc (w_broker w)"
    "roster (w_broker (leavePresence B c w)) = (roster (w_broker w))(c_boardID (client_of c w) :=
      (roster (w_broker w) (c_boardID (client_of c w)))(c_id (client_of c w) := None))"
proof -
  let ?x = "client_of c w"
  obtain s where s: "br_RemovePresence B (w_broker w) (c_boardID ?x) (c_id ?x) = (Inr (), s)"
    using remove_presence_ok [OF assms] by blast
  note l = remove_presence_law [OF assms s]
  let ?m = "Marshal TypePresenceLeave 0 (marshal_Presence (zero_Presence\<lparr>p_ClientID := c_id ?x\<rparr>))"
  have "inv (w_broker (w\<lparr>w_broker := s\<rparr>))" using l by simp
  note p = publish_kept [OF this, of "c_boardID ?x" ?m]
  have eq: "leavePresence B c w = publish B (c_boardID ?x) ?m (w\<lparr>w_broker := s\<rparr>)"
    using s by (simp add: leavePresence_def Let_def)
  show "inv (w_broker (leavePresence B c w))" "doc (w_broker (leavePresence B c w)) = doc (w_broker w)"
    "roster (w_broker (leavePresence B c w)) = (roster (w_broker w))(c_boardID (client_of c w) :=
      (roster (w_broker w) (c_boardID (client_of c w)))(c_id (client_of c w) := None))"
    using p l unfolding eq by simp_all
qed

end

interpretation memp: presence_contract memory_broker Memory_ok mem_doc mem_roster "- 1"
  by unfold_locales (auto simp: memory_broker_def mem_SetPresence_def mem_RemovePresence_def split: prod.splits)

section \<open>Properties\<close>

text \<open>(C40)
  A new client is well formed, whatever it asked for: choosing its colour never indexes the
  palette out of range, its name and colour are not empty, its queue is open, empty and of
  capacity 256, and its id tells exactly which random bytes it was made of, so two clients share
  an id only if the random source repeated itself.
\<close>

theorem new_client_wellformed:
  "\<exists>x. newClient rnd bid info = Some x \<and> c_boardID x = bid \<and> c_name x \<noteq> [] \<and> c_color x \<noteq> [] \<and>
    (if info_Color info = [] then c_color x \<in> set palette else c_color x = info_Color info) \<and>
    \<not> c_present x \<and> \<not> shut x \<and> got x = [] \<and> ch_cap (c_send x) = 256 \<and>
    length (c_id x) = 2 * length rnd \<and> (\<forall>rnd'. newID rnd' = c_id x \<longleftrightarrow> rnd' = rnd)"
proof -
  obtain col where col: "defaultColor (info_Color info) (newID rnd) = Some col"
    "info_Color info \<noteq> [] \<and> col = info_Color info \<or> info_Color info = [] \<and> col \<in> set palette"
    by (rule defaultColor_cases)
  obtain x where x: "newClient rnd bid info = Some x" "c_id x = newID rnd" "c_boardID x = bid"
    "\<not> c_present x" "\<not> shut x" "got x = []" "ch_cap (c_send x) = 256" "c_name x \<noteq> []" "c_color x \<noteq> []"
    by (rule newClient_fresh)
  have "c_color x = col" using x(1) col(1) by (auto simp: newClient_def Let_def)
  then show ?thesis using x col(2) newID_length newID_inj by auto
qed



text \<open>
  Joining puts exactly the client's own encoded presence in the board's roster, leaving takes
  exactly it out; no document, no other board and no other client's entry is touched.
\<close>

lemma presence_join_leave:
  assumes "Memory_ok (w_broker w)" "c_boardID (client_of c w) = bid" "c_id (client_of c w) = i"
  shows "mem_roster (w_broker (joinPresence memory_broker c w)) =
      (mem_roster (w_broker w))(bid := (mem_roster (w_broker w) bid)(i \<mapsto> presence_object (presence (client_of c w)))) \<and>
    mem_roster (w_broker (leavePresence memory_broker c (joinPresence memory_broker c w))) =
      (mem_roster (w_broker w))(bid := (mem_roster (w_broker w) bid)(i := None)) \<and>
    mem_doc (w_broker (leavePresence memory_broker c (joinPresence memory_broker c w))) = mem_doc (w_broker w)"
proof -
  note j = memp.joinPresence_roster [OF assms(1), of c]
  note l = memp.leavePresence_roster [OF j(1), of c]
  show ?thesis using j l assms(2,3) by simp
qed

text \<open>
  Frames a client must not send are dropped and the connection goes on: text that is no envelope
  changes nothing at all, a message of a type clients do not send (a forged presence event or
  snapshot, say) never reaches the broker, and a shape operation that does not decode or has no id
  is not applied.
\<close>

lemma read_pump_drops:
  "(\<forall>err env. unmarshal_Envelope data = (Some err, env) \<longrightarrow> readPump_step B c data w = w) \<and>
    (\<forall>env. unmarshal_Envelope data = (None, env) \<longrightarrow>
      env_Type env \<notin> {TypeShapeCreate, TypeShapeUpdate, TypeShapeDelete, TypeCursor} \<longrightarrow>
      w_broker (readPump_step B c data w) = w_broker w) \<and>
    (\<forall>env e op. unmarshal_Envelope data = (None, env) \<longrightarrow>
      env_Type env \<in> {TypeShapeCreate, TypeShapeUpdate, TypeShapeDelete} \<longrightarrow>
      DecodePayload env set_ShapeOp zero_ShapeOp = (e, op) \<longrightarrow> e \<noteq> None \<or> op_ID op = [] \<longrightarrow>
      w_broker (readPump_step B c data w) = w_broker w)"
  by (auto simp: readPump_step_def Let_def applyShapeOp_def type_tags)

end
