(* ===== verification/Session.thy ===== *)
theory Session
  imports ClientLaws
begin

text \<open>
  The whole path through one instance on the in-process broker: what a client
  writes to its socket, sequenced and published, read back from the board's
  subscription and queued for every client; and what a new client is told first.
\<close>

section \<open>A board in operation\<close>

definition world_ok :: "bytes \<Rightarrow> (Memory, 's) World \<Rightarrow> bool" where
  "world_ok bid w \<longleftrightarrow>
     Memory_ok (w_broker w) \<and> Subs_ok (w_broker w) \<and> board_ok (w_board w) \<and> queues_ok (w_board w) \<and>
     b_msgs (w_board w) \<and> \<not> b_done (w_board w) \<and>
     (case w_msgs w of None \<Rightarrow> False | Some ch \<Rightarrow> ch \<in> set (subs_of (w_broker w) bid))"

text \<open>What the board has yet to read from its subscription.\<close>

definition backlog :: "(Memory, 's) World \<Rightarrow> bytes list" where
  "backlog w =
     (case w_msgs w of
        None \<Rightarrow> []
      | Some ch \<Rightarrow> (case gomap_get (mem_chans (w_broker w)) ch of None \<Rightarrow> [] | Some q \<Rightarrow> q))"

lemma world_ok_channel:
  assumes "world_ok bid w"
  obtains ch where "w_msgs w = Some ch" "ch \<in> set (subs_of (w_broker w) bid)"
    "gomap_get (mem_chans (w_broker w)) ch = Some (backlog w)"
proof -
  obtain ch where ch: "w_msgs w = Some ch" "ch \<in> set (subs_of (w_broker w) bid)"
    using assms by (auto simp: world_ok_def split: option.splits)
  moreover have "gomap_get (mem_chans (w_broker w)) ch \<noteq> None"
    using assms ch(2) unfolding world_ok_def Subs_ok_def subs_ok_def by blast
  ultimately show thesis by (intro that) (auto simp: backlog_def)
qed

lemma world_ok_same_bus:
  assumes "world_ok bid w" "same_bus (w_broker w) m" "Memory_ok m"
  shows "world_ok bid (w\<lparr>w_broker := m\<rparr>)" "backlog (w\<lparr>w_broker := m\<rparr>) = backlog w"
  using assms Subs_ok_same_bus [OF assms(2)]
  by (auto simp: world_ok_def backlog_def same_bus_def fun_eq_iff split: option.splits)

lemma world_ok_emit [simp]:
  "world_ok bid (w\<lparr>w_board := emit e (w_board w)\<rparr>) = world_ok bid w"
  "backlog (w\<lparr>w_board := s\<rparr>) = backlog w"
  by (simp_all add: world_ok_def backlog_def split: option.splits)

text \<open>A published message is the next one the board reads, once it has caught up.\<close>

lemma publish_run_msg:
  assumes "world_ok bid w" "backlog w = []"
  obtains m t where
    "run_msg memory_broker (publish memory_broker bid (Inr msg) w) = Inr (w\<lparr>w_broker := m, w_board := t\<rparr>)"
    "run_step (Msg msg) (w_board w) = Inr t" "the_board m = the_board (w_broker w)"
    "world_ok bid (w\<lparr>w_broker := m, w_board := t\<rparr>)" "backlog (w\<lparr>w_broker := m, w_board := t\<rparr>) = []"
proof -
  let ?b = "w_broker w"
  obtain ch where ch: "w_msgs w = Some ch" "ch \<in> set (subs_of ?b bid)" "gomap_get (mem_chans ?b) ch = Some []"
    using world_ok_channel [OF assms(1)] assms(2) by metis
  have ok: "Memory_ok ?b" "Subs_ok ?b" "board_ok (w_board w)" "queues_ok (w_board w)"
    "b_msgs (w_board w)" "\<not> b_done (w_board w)"
    using assms(1) by (simp_all add: world_ok_def)
  obtain r p where p: "mem_Publish ?b bid msg = (r, p)" by fastforce
  note pl = mem_Publish_law [OF ok(1) p] and ps = mem_Publish_Subs [OF ok(1,2) p]
  have q: "gomap_get (mem_chans p) ch = Some [msg]"
    using ps(2) [of ch] ch by (simp add: offer_def sub_buffer_def)
  let ?m = "p\<lparr>mem_chans := gomap_put ch [] (mem_chans p)\<rparr>"
  have recv: "mem_recv p ch = (Some msg, ?m)" using q by (simp add: mem_recv_def)
  have m: "Memory_ok ?m" "Subs_ok ?m" "the_board ?m = the_board ?b"
    using mem_recv_Subs [OF pl(2) ps(1), of ch] pl(3) by (simp_all add: recv)
  have adm: "admissible (Msg msg) (w_board w)" by (simp add: admissible_def)
  obtain t where t: "run_step (Msg msg) (w_board w) = Inr t" "board_ok t"
    using run_step_ok [OF ok(3) adm] by blast
  have flags: "b_msgs t" "\<not> b_done t" using step_flags [OF ok(3) t(1)] ok(5,6) by simp_all
  have qs: "queues_ok t" using queues_ok_step [OF ok(3,4) t(1)] .
  show thesis
  proof (rule that)
    show "run_msg memory_broker (publish memory_broker bid (Inr msg) w) = Inr (w\<lparr>w_broker := ?m, w_board := t\<rparr>)"
      using ch(1) ok(6) p recv t(1)
      by (simp add: run_msg_def publish_def memory_broker_def on_board_def live_event_def)
    show "world_ok bid (w\<lparr>w_broker := ?m, w_board := t\<rparr>)"
      using m t(2) flags qs ch by (simp add: world_ok_def)
    show "backlog (w\<lparr>w_broker := ?m, w_board := t\<rparr>) = []" using ch(1) by (simp add: backlog_def)
  qed (use m t in simp_all)
qed

section \<open>A shape operation, from socket to queues\<close>

lemma shape_op_fanout:
  assumes "world_ok bid w" "backlog w = []" "c_boardID (client_of c w) = bid"
    "d_seq (mem_doc (w_broker w) bid) \<noteq> - 1"
    "unmarshal_Envelope data = (None, env)" "env_Type env \<in> {TypeShapeCreate, TypeShapeUpdate, TypeShapeDelete}"
    "DecodePayload env set_ShapeOp zero_ShapeOp = (None, op)" "op_ID op \<noteq> []"
  obtains w' msg env' where
    "run_msg memory_broker (readPump_step memory_broker c data w) = Inr w'" "world_ok bid w'" "backlog w' = []"
    "mem_doc (w_broker w') = (mem_doc (w_broker w))(bid :=
       doc_apply (op_ID op) (slice_bytes (op_Shape op)) (env_Type env = TypeShapeDelete) (mem_doc (w_broker w) bid))"
    "unmarshal_Envelope msg = (None, env')" "env_Type env' = env_Type env"
    "env_Seq env' = d_seq (mem_doc (w_broker w) bid) + 1"
    "DecodePayload env' set_ShapeOp zero_ShapeOp = (None, op\<lparr>op_Shape := map_option (compact False) (op_Shape op)\<rparr>)"
    "\<And>d. client_of d w' = reliable_effect msg None (w_board w) d"
proof -
  let ?b = "w_broker w" and ?del = "env_Type env = TypeShapeDelete"
  let ?w1 = "w\<lparr>w_board := emit MessageReceived (w_board w)\<rparr>"
  have ok: "Memory_ok ?b" using assms(1) by (simp add: world_ok_def)
  have ne: "mb_seq (the_board ?b bid) \<noteq> - 1" using assms(4) by (simp add: mem_doc_def memBoard_doc_def)
  obtain m where a: "mem_ApplyShape ?b bid (op_ID op) (op_Shape op) ?del = (Inr (d_seq (mem_doc ?b bid) + 1), m)"
    "Memory_ok m" "mem_doc m = (mem_doc ?b)(bid := doc_apply (op_ID op) (slice_bytes (op_Shape op)) ?del (mem_doc ?b bid))"
    using mem_ApplyShape_law [OF ok ne surjective_pairing] by (metis prod.collapse)
  have bus: "same_bus ?b m" using mem_same_bus(1) [OF ok, of bid "op_ID op" "op_Shape op" ?del] a(1) by simp
  obtain msg env' where msg: "Marshal (env_Type env) (d_seq (mem_doc ?b bid) + 1) (marshal_ShapeOp op) = Inr msg"
    "unmarshal_Envelope msg = (None, env')" "env_Type env' = env_Type env" "env_Seq env' = d_seq (mem_doc ?b bid) + 1"
    "DecodePayload env' set_ShapeOp zero_ShapeOp = (None, op\<lparr>op_Shape := map_option (compact False) (op_Shape op)\<rparr>)"
    using shape_message [OF assms(7)] by metis
  have nc: "\<not> is_cursor msg" using assms(6) msg(2,3) by (auto simp: is_cursor_def type_tags)
  let ?w2 = "?w1\<lparr>w_broker := m\<rparr>"
  have rd: "readPump_step memory_broker c data w = publish memory_broker bid (Inr msg) ?w2"
    using assms(3,5-8) a(1) msg(1)
    by (simp add: readPump_step_def applyShapeOp_def Let_def memory_broker_def)
  have w2: "world_ok bid ?w2" "backlog ?w2 = []"
    using world_ok_same_bus [of bid ?w1 m] assms(1,2) bus a(2) by simp_all
  have bo: "board_ok (w_board ?w2)" "b_msgs (w_board ?w2)" using w2(1) by (simp_all add: world_ok_def)
  show thesis
  proof (rule publish_run_msg [OF w2, of msg])
    fix n t
    let ?w' = "?w2\<lparr>w_broker := n, w_board := t\<rparr>"
    assume n: "run_msg memory_broker (publish memory_broker bid (Inr msg) ?w2) = Inr ?w'"
      "run_step (Msg msg) (w_board ?w2) = Inr t" "the_board n = the_board (w_broker ?w2)"
      "world_ok bid ?w'" "backlog ?w' = []"
    have "client_of d ?w' = reliable_effect msg None (w_board w) d" for d
      using Msg_client(1) [OF bo(1) n(2), of d] bo(2) nc by (simp add: reliable_effect_def)
    moreover have "mem_doc (w_broker ?w') = (mem_doc ?b)(bid :=
       doc_apply (op_ID op) (slice_bytes (op_Shape op)) ?del (mem_doc ?b bid))"
      using same_boards [OF n(3)] a(3) by simp
    moreover have "run_msg memory_broker (readPump_step memory_broker c data w) = Inr ?w'"
      using n(1) by (simp only: rd)
    ultimately show thesis using that [of ?w' msg env'] n(4,5) msg(2-5) by blast
  qed
qed

section \<open>A cursor, from socket to queues\<close>

text \<open>
  Whatever id the sender wrote, the others see its own, the sender gets nothing
  back, nobody is kicked, and the document stays as it is.
\<close>

lemma cursor_fanout:
  assumes "world_ok bid w" "backlog w = []" "c_boardID (client_of c w) = bid" "c \<in> set (b_clients (w_board w))"
    "unmarshal_Envelope data = (None, env)" "env_Type env = TypeCursor"
    "DecodePayload env set_Cursor zero_Cursor = (None, cur)"
  obtains w' msg where
    "run_msg memory_broker (readPump_step memory_broker c data w) = Inr w'" "world_ok bid w'" "backlog w' = []"
    "mem_doc (w_broker w') = mem_doc (w_broker w)" "b_clients (w_board w') = b_clients (w_board w)"
    "DecodePayload (snd (unmarshal_Envelope msg)) set_Cursor zero_Cursor =
      (None, cur\<lparr>cur_ClientID := c_id (client_of c w)\<rparr>)"
    "client_of c w' = client_of c w"
    "\<And>d. client_of d w' = best_effort_effect msg (Some c) (w_board w) d"
proof -
  let ?w1 = "w\<lparr>w_board := emit MessageReceived (w_board w)\<rparr>"
  obtain msg where msg: "Marshal TypeCursor 0 (marshal_Cursor (cur\<lparr>cur_ClientID := c_id (client_of c w)\<rparr>)) = Inr msg"
    "is_cursor msg" "cursor_origin msg = c_id (client_of c w)"
    "DecodePayload (snd (unmarshal_Envelope msg)) set_Cursor zero_Cursor =
      (None, cur\<lparr>cur_ClientID := c_id (client_of c w)\<rparr>)"
    using cursor_message [OF assms(7)] by metis
  have rd: "readPump_step memory_broker c data w = publish memory_broker bid (Inr msg) ?w1"
    using assms(3,5-7) msg(1) by (simp add: readPump_step_def publishCursor_def type_tags)
  have w1: "world_ok bid ?w1" "backlog ?w1 = []" using assms(1,2) by simp_all
  have bo: "board_ok (w_board ?w1)" "b_msgs (w_board ?w1)" using w1(1) by (simp_all add: world_ok_def)
  have origin: "gomap_get (b_byID (w_board w)) (c_id (client_of c w)) = Some c"
    using bo(1) assms(4) unfolding board_ok_def by simp
  show thesis
  proof (rule publish_run_msg [OF w1, of msg])
    fix n t
    let ?w' = "?w1\<lparr>w_broker := n, w_board := t\<rparr>"
    assume n: "run_msg memory_broker (publish memory_broker bid (Inr msg) ?w1) = Inr ?w'"
      "run_step (Msg msg) (w_board ?w1) = Inr t" "the_board n = the_board (w_broker ?w1)"
      "world_ok bid ?w'" "backlog ?w' = []"
    have t: "t = emit (MessagesDelivered (length (filter (gets (Some c) (b_heap (w_board w))) (b_clients (w_board w)))))
        ((w_board ?w1)\<lparr>b_heap := best_effort_effect msg (Some c) (w_board ?w1)\<rparr>)"
      using n(2) bo msg(2,3) origin by (simp add: dispatch_eq deliverBestEffort_eq)
    have all: "client_of d ?w' = best_effort_effect msg (Some c) (w_board w) d" for d
      by (simp add: t best_effort_effect_def)
    moreover have "client_of c ?w' = client_of c w"
      using all [of c] by (simp add: best_effort_effect_def Let_def)
    moreover have "mem_doc (w_broker ?w') = mem_doc (w_broker w)"
      using same_boards [OF n(3)] by simp
    moreover have "b_clients (w_board ?w') = b_clients (w_board w)" by (simp add: t)
    moreover have "run_msg memory_broker (readPump_step memory_broker c data w) = Inr ?w'"
      using n(1) by (simp only: rd)
    ultimately show thesis using that [of ?w' msg] n(4,5) msg(4) by blast
  qed
qed

section \<open>The roster a client is shown\<close>

text \<open>Every entry is the encoded presence of the client it is filed under.\<close>

definition roster_ok :: "(bytes \<rightharpoonup> bytes) \<Rightarrow> bool" where
  "roster_ok r \<longleftrightarrow> (\<forall>i v. r i = Some v \<longrightarrow> (\<exists>p. v = presence_object p \<and> p_ClientID p = i))"

lemma presence_object_inj: "presence_object p = presence_object q \<longleftrightarrow> p = q"
  by (metis prod.inject unmarshal_presence_object)

lemma decode_roster_simps [simp]:
  "decode_roster [] = []"
  "decode_roster (r # rs) =
    (case unmarshal_Presence (slice_bytes r) of (e, p) \<Rightarrow> if e = None then p # decode_roster rs else decode_roster rs)"
  by (simp_all add: decode_roster_def split: prod.splits)

lemma decode_roster_objects:
  "list_all (\<lambda>(i, r). \<exists>p. slice_bytes r = presence_object p \<and> p_ClientID p = i) m \<Longrightarrow>
    map p_ClientID (decode_roster (map snd m)) = map fst m \<and>
    set (decode_roster (map snd m)) = {p. \<exists>(i, r) \<in> set m. slice_bytes r = presence_object p}"
proof (induction m)
  case (Cons x m)
  then obtain i r p where x: "x = (i, r)" "slice_bytes r = presence_object p" "p_ClientID p = i" by auto
  then have "decode_roster (map snd (x # m)) = p # decode_roster (map snd m)"
    by (simp add: unmarshal_presence_object)
  with x Cons show ?case by (auto simp: presence_object_inj simp del: decode_roster_simps)
qed simp

lemma mem_Presence_roster:
  assumes "Memory_ok m" "roster_ok (mem_roster m b)"
  obtains ps m' where "mem_Presence m b = (Inr ps, m')" "sorted_wrt (<) (map p_ClientID ps)"
    "the_board m' = the_board m" "Memory_ok m'"
    "\<And>p. p \<in> set ps \<longleftrightarrow> mem_roster m b (p_ClientID p) = Some (presence_object p)"
proof -
  let ?e = "mb_presence (the_board m b)"
  let ?ps = "decode_roster (map snd ?e)"
  obtain m1 where m1: "mem_board m b = (the_board m b, m1)" "the_board m1 = the_board m" "Memory_ok m1"
    using mem_board_cases [OF assms(1)] by metis
  have g: "gomap_ok ?e" using the_board_ok [OF assms(1), of b] by (simp add: memBoard_ok_def)
  have e: "list_all (\<lambda>(i, r). \<exists>p. slice_bytes r = presence_object p \<and> p_ClientID p = i) ?e"
    unfolding list_all_iff
  proof clarify
    fix i r assume "(i, r) \<in> set ?e"
    then have "mem_roster m b i = Some (slice_bytes r)" using g by (simp add: mem_roster_def gomap_get_iff [symmetric])
    then show "\<exists>p. slice_bytes r = presence_object p \<and> p_ClientID p = i"
      using assms(2) unfolding roster_ok_def by blast
  qed
  note d = decode_roster_objects [OF e]
  have dist: "distinct (map p_ClientID ?ps)" using d g by (simp add: gomap_ok_def)
  have mem: "p \<in> set ?ps \<longleftrightarrow> mem_roster m b (p_ClientID p) = Some (presence_object p)" for p
  proof -
    have "p \<in> set ?ps \<longleftrightarrow> (\<exists>(i, r) \<in> set ?e. slice_bytes r = presence_object p)" using d by blast
    also have "\<dots> \<longleftrightarrow> (\<exists>r. (p_ClientID p, r) \<in> set ?e \<and> slice_bytes r = presence_object p)"
      using e unfolding list_all_iff by (fastforce simp: presence_object_inj)
    also have "\<dots> \<longleftrightarrow> mem_roster m b (p_ClientID p) = Some (presence_object p)"
      using g by (auto simp: mem_roster_def gomap_get_iff [symmetric])
    finally show ?thesis .
  qed
  show thesis
    using m1 mem distinct_sort_key_strict [OF dist]
    by (intro that [of "sort_key p_ClientID ?ps" m1]) (simp_all add: mem_Presence_def)
qed

section \<open>Onboarding\<close>

lemma map_result_ok: "\<forall>x \<in> set xs. \<nexists>e. f x = Inl e \<Longrightarrow> \<exists>ys. map_result f xs = Inr ys"
  using map_result_Inl_iff [of f xs] by (cases "map_result f xs") auto

lemma mem_snapshot_marshals:
  assumes "Memory_ok m" "mem_Snapshot m b = (Inr snap, m')"
    "\<And>i q v. d_shapes (mem_doc m b) i = Some (q, v) \<Longrightarrow> v = [] \<or> json_valid v"
  obtains raw where "marshal_Snapshot snap = Inr raw" "canonical raw"
proof -
  obtain m1 where m1: "mem_board m b = (the_board m b, m1)" using mem_board_cases [OF assms(1)] by metis
  have g: "gomap_ok (mb_shapes (the_board m b))" using the_board_ok [OF assms(1), of b] by (simp add: memBoard_ok_def)
  have snap: "snap_Shapes snap = sort_key ss_Seq (map mem_snapshot_shape (mb_shapes (the_board m b)))"
    using assms(2) m1 by (auto simp: mem_Snapshot_def)
  have "json_valid r" if x: "x \<in> set (snap_Shapes snap)" "ss_Shape x = Some r" for x r
  proof -
    obtain i s where s: "(i, s) \<in> set (mb_shapes (the_board m b))" "x = mem_snapshot_shape (i, s)"
      using x(1) by (auto simp: snap)
    then have "d_shapes (mem_doc m b) i = Some (ms_seq s, slice_bytes (ms_shape s))"
      using g by (simp add: mem_doc_def memBoard_doc_def gomap_get_iff [symmetric])
    with assms(3) s(2) x(2) show ?thesis
      by (auto simp: mem_snapshot_shape_def slice_clone_def split: if_splits)
  qed
  then have "\<forall>x \<in> set (snap_Shapes snap). \<nexists>e. marshal_SnapshotShape x = Inl e"
    by (auto simp: marshal_SnapshotShape_Inl_iff)
  from map_result_ok [OF this] obtain vs where "map_result marshal_SnapshotShape (snap_Shapes snap) = Inr vs" ..
  then have "\<exists>raw. marshal_Snapshot snap = Inr raw" by (simp add: marshal_Snapshot_def)
  then show thesis using that marshal_Snapshot_canonical by blast
qed

lemma deliverDirect_room:
  assumes "board_ok (w_board w)" "\<not> b_done (w_board w)" "c \<in> set (b_clients (w_board w))" "room (client_of c w)"
  obtains s where "deliverDirect False c data w = Inr (w\<lparr>w_board := s\<rparr>)" "board_ok s" "\<not> b_done s"
    "b_clients s = b_clients (w_board w)" "b_heap s c = enqueue data (client_of c w)"
proof -
  let ?s = "emit (MessagesDelivered 1) ((w_board w)\<lparr>b_heap := (b_heap (w_board w))(c := enqueue data (client_of c w))\<rparr>)"
  have "c_present (client_of c w)" using assms(1,3) by (simp add: board_ok_def)
  then have step: "run_step (Direct c data) (w_board w) = Inr ?s"
    using push_eq [OF assms(1,3), of data] assms(4) by simp
  have "admissible (Direct c data) (w_board w)" by (simp add: admissible_def)
  from run_step_ok [OF assms(1) this] have "board_ok ?s" using step by auto
  with step assms(2) show thesis
    by (intro that [of ?s]) (simp_all add: deliverDirect_def on_board_def live_event_def)
qed

lemma sendSnapshot_mem:
  assumes "Memory_ok (w_broker w)" "board_ok (w_board w)" "\<not> b_done (w_board w)" "c \<in> set (b_clients (w_board w))"
    "room (client_of c w)" "c_boardID (client_of c w) = bid"
    "\<And>i q v. d_shapes (mem_doc (w_broker w) bid) i = Some (q, v) \<Longrightarrow> v = [] \<or> json_valid v"
  obtains m s snap d where "sendSnapshot memory_broker False c w = Inr (w\<lparr>w_broker := m, w_board := s\<rparr>)"
    "Memory_ok m" "the_board m = the_board (w_broker w)" "board_ok s" "\<not> b_done s"
    "b_clients s = b_clients (w_board w)" "b_heap s c = enqueue d (client_of c w)"
    "Marshal TypeSnapshot 0 (marshal_Snapshot snap) = Inr d" "snapshot_of (mem_doc (w_broker w) bid) snap"
proof -
  obtain r m where sn: "mem_Snapshot (w_broker w) bid = (r, m)" by fastforce
  obtain snap where snap: "r = Inr snap" "snapshot_of (mem_doc (w_broker w) bid) snap"
    using mem_Snapshot_law(3) [OF assms(1) sn] by auto
  obtain raw where "marshal_Snapshot snap = Inr raw" "canonical raw"
    by (rule mem_snapshot_marshals [OF assms(1) sn [unfolded snap(1)]]) (use assms(7) in auto)
  then obtain d where d: "Marshal TypeSnapshot 0 (marshal_Snapshot snap) = Inr d"
    by (metis envelope_roundtrip)
  let ?w = "w\<lparr>w_broker := m\<rparr>"
  show thesis
  proof (rule deliverDirect_room [of ?w c d])
    fix s
    assume s: "deliverDirect False c d ?w = Inr (?w\<lparr>w_board := s\<rparr>)" "board_ok s" "\<not> b_done s"
      "b_clients s = b_clients (w_board ?w)" "b_heap s c = enqueue d (client_of c ?w)"
    have "sendSnapshot memory_broker False c w = Inr (w\<lparr>w_broker := m, w_board := s\<rparr>)"
      using sn snap(1) d s(1) assms(6) by (simp add: sendSnapshot_def memory_broker_def)
    then show thesis
      using that [where m = m and s = s and d = d and snap = snap] mem_Snapshot_law(1,2) [OF assms(1) sn] s(2-5) d snap(2) by simp
  qed (use assms in simp_all)
qed

lemma marshal_PresenceState_ok:
  obtains d where "Marshal TypePresenceState 0 (marshal_PresenceState st) = Inr d"
proof -
  have "canonical (json_object [(''self'', presence_object (ps_Self st)),
      (''others'', json_array (map presence_object (ps_Others st)))])"
    by (rule canonical_object) (simp add: canonical_presence canonical_array list_all_iff)
  then show thesis using that envelope_roundtrip by (metis marshal_PresenceState_def)
qed

lemma sendPresenceState_mem:
  assumes "Memory_ok (w_broker w)" "board_ok (w_board w)" "\<not> b_done (w_board w)" "c \<in> set (b_clients (w_board w))"
    "room (client_of c w)" "c_boardID (client_of c w) = bid" "roster_ok (mem_roster (w_broker w) bid)"
  obtains m s others d where "sendPresenceState memory_broker False c w = Inr (w\<lparr>w_broker := m, w_board := s\<rparr>)"
    "the_board m = the_board (w_broker w)" "b_clients s = b_clients (w_board w)"
    "b_heap s c = enqueue d (client_of c w)"
    "Marshal TypePresenceState 0 (marshal_PresenceState
       \<lparr>ps_Self = presence (client_of c w), ps_Others = others\<rparr>) = Inr d"
    "\<And>p. p \<in> set others \<longleftrightarrow> p_ClientID p \<noteq> c_id (client_of c w) \<and>
       mem_roster (w_broker w) bid (p_ClientID p) = Some (presence_object p)"
proof -
  let ?x = "client_of c w"
  obtain ps m where ps: "mem_Presence (w_broker w) bid = (Inr ps, m)" "the_board m = the_board (w_broker w)"
    "\<And>p. p \<in> set ps \<longleftrightarrow> mem_roster (w_broker w) bid (p_ClientID p) = Some (presence_object p)"
    using mem_Presence_roster [OF assms(1,7)] by metis
  let ?others = "filter (\<lambda>p. p_ClientID p \<noteq> c_id ?x) ps"
  obtain d where d: "Marshal TypePresenceState 0 (marshal_PresenceState
       \<lparr>ps_Self = presence ?x, ps_Others = ?others\<rparr>) = Inr d"
    by (rule marshal_PresenceState_ok)
  let ?w = "w\<lparr>w_broker := m\<rparr>"
  show thesis
  proof (rule deliverDirect_room [of ?w c d])
    fix s
    assume s: "deliverDirect False c d ?w = Inr (?w\<lparr>w_board := s\<rparr>)"
      "b_clients s = b_clients (w_board ?w)" "b_heap s c = enqueue d (client_of c ?w)"
    have "sendPresenceState memory_broker False c w = Inr (w\<lparr>w_broker := m, w_board := s\<rparr>)"
      using ps(1) d s(1) assms(6) by (simp add: sendPresenceState_def memory_broker_def Let_def)
    then show thesis
      using that [where m = m and s = s and d = d and others = ?others] ps(2,3) s(2,3) d by (simp add: conj_commute)
  qed (use assms in simp_all)
qed

lemma roster_ok_put: "roster_ok r \<Longrightarrow> p_ClientID p = i \<Longrightarrow> roster_ok (r(i \<mapsto> presence_object p))"
  by (auto simp: roster_ok_def)

text \<open>
  A client that connects is queued, before anything the pumps do, the whole document
  and the roster without itself.
\<close>

lemma onboard_first_messages:
  assumes "Memory_ok (w_broker w)" "board_ok (w_board w)" "\<not> b_done (w_board w)" "may_register c (w_board w)"
    "c_boardID (client_of c w) = bid" "got (client_of c w) = []" "1 < ch_cap (c_send (client_of c w))"
    "roster_ok (mem_roster (w_broker w) bid)"
    "\<And>i q v. d_shapes (mem_doc (w_broker w) bid) i = Some (q, v) \<Longrightarrow> v = [] \<or> json_valid v"
  obtains w' snap others m1 m2 where
    "onboard memory_broker False c w = Inr w'" "c \<in> set (b_clients (w_board w'))"
    "got (client_of c w') = [m1, m2]" "mem_doc (w_broker w') = mem_doc (w_broker w)"
    "Marshal TypeSnapshot 0 (marshal_Snapshot snap) = Inr m1" "snapshot_of (mem_doc (w_broker w) bid) snap"
    "Marshal TypePresenceState 0 (marshal_PresenceState
       \<lparr>ps_Self = presence (client_of c w), ps_Others = others\<rparr>) = Inr m2"
    "\<And>p. p \<in> set others \<longleftrightarrow> p_ClientID p \<noteq> c_id (client_of c w) \<and>
       mem_roster (w_broker w) bid (p_ClientID p) = Some (presence_object p)"
proof -
  let ?x = "client_of c w" and ?j = "join c (w_board w)"
  let ?w1 = "w\<lparr>w_board := ?j\<rparr>"
  let ?w2 = "joinPresence memory_broker c ?w1"
  have x1: "b_heap ?j c = ?x\<lparr>c_present := True\<rparr>" by (simp add: join_def)
  have pr: "presence (b_heap ?j c) = presence ?x" by (simp add: x1 presence_def)
  have reg: "on_board (Register c) w = Inr ?w1" using assms(3) by (simp add: on_board_def live_event_def)
  have b1: "board_ok ?j" "c \<in> set (b_clients ?j)" "\<not> b_done ?j"
    using board_ok_join [OF assms(2,4)] assms(3) by (simp_all add: join_def)
  have w2: "Memory_ok (w_broker ?w2)" "mem_doc (w_broker ?w2) = mem_doc (w_broker w)" "w_board ?w2 = ?j"
    "mem_roster (w_broker ?w2) bid = (mem_roster (w_broker w) bid)(c_id ?x \<mapsto> presence_object (presence ?x))"
    using memp.joinPresence_roster [of ?w1 c] assms(1,5) pr by (simp_all add: x1)
  have r2: "roster_ok (mem_roster (w_broker ?w2) bid)"
    using roster_ok_put [OF assms(8), of "presence ?x" "c_id ?x"] by (simp add: w2(4) presence_def)
  show thesis
  proof (rule sendSnapshot_mem [of ?w2 c bid])
    fix m s snap d
    let ?w3 = "?w2\<lparr>w_broker := m, w_board := s\<rparr>"
    assume s: "sendSnapshot memory_broker False c ?w2 = Inr ?w3" "Memory_ok m" "the_board m = the_board (w_broker ?w2)"
      "board_ok s" "\<not> b_done s" "b_clients s = b_clients (w_board ?w2)" "b_heap s c = enqueue d (client_of c ?w2)"
      "Marshal TypeSnapshot 0 (marshal_Snapshot snap) = Inr d" "snapshot_of (mem_doc (w_broker ?w2) bid) snap"
    have cl: "b_heap s c = enqueue d (?x\<lparr>c_present := True\<rparr>)" using s(7) w2(3) x1 by simp
    have m: "mem_doc m = mem_doc (w_broker w)" "mem_roster m = mem_roster (w_broker ?w2)"
      using same_boards [OF s(3)] w2(2) by simp_all
    show thesis
    proof (rule sendPresenceState_mem [of ?w3 c bid])
      fix n u others e
      let ?w4 = "?w3\<lparr>w_broker := n, w_board := u\<rparr>"
      assume u: "sendPresenceState memory_broker False c ?w3 = Inr ?w4" "the_board n = the_board (w_broker ?w3)"
        "b_clients u = b_clients (w_board ?w3)" "b_heap u c = enqueue e (client_of c ?w3)"
        "Marshal TypePresenceState 0 (marshal_PresenceState
           \<lparr>ps_Self = presence (client_of c ?w3), ps_Others = others\<rparr>) = Inr e"
        "\<And>p. p \<in> set others \<longleftrightarrow> p_ClientID p \<noteq> c_id (client_of c ?w3) \<and>
           mem_roster (w_broker ?w3) bid (p_ClientID p) = Some (presence_object p)"
      have p3: "presence (client_of c ?w3) = presence ?x" by (simp add: cl presence_def enqueue_def)
      show thesis
      proof (rule that)
        show "onboard memory_broker False c w = Inr ?w4"
          unfolding onboard_def reg bind_result_simps s(1) u(1) ..
        show "c \<in> set (b_clients (w_board ?w4))" using u(3) s(6) w2(3) b1(2) by simp
        show "got (client_of c ?w4) = [d, e]" using u(4) cl assms(6) by simp
        show "mem_doc (w_broker ?w4) = mem_doc (w_broker w)" using same_boards [OF u(2)] m(1) by simp
        show "Marshal TypePresenceState 0 (marshal_PresenceState \<lparr>ps_Self = presence ?x, ps_Others = others\<rparr>) = Inr e"
          using u(5) p3 by simp
        show "p \<in> set others \<longleftrightarrow> p_ClientID p \<noteq> c_id ?x \<and>
           mem_roster (w_broker w) bid (p_ClientID p) = Some (presence_object p)" for p
          using u(6) [of p] cl m(2) w2(4) by auto
      qed (use s(8,9) w2(2) in simp_all)
    next
      show "room (client_of c ?w3)" using assms(6,7) by (simp add: cl room_def got_def)
    qed (use s(2,4-6) b1(2) w2(3) cl assms(5) m(2) r2 in \<open>simp_all add: enqueue_def\<close>)
  next
    show "room (client_of c ?w2)" using assms(6,7) x1 w2(3) by (simp add: room_def got_def)
  qed (use b1 w2 x1 assms(5,9) in \<open>simp_all\<close>)
qed

section \<open>Stop and restart\<close>

lemma run_quit_store:
  assumes "board_ok (w_board w)" "\<not> b_done (w_board w)"
  obtains w' where "run_quit memory_broker (Some memory_store) bid w = Inr w'"
    "w_store w' = snd (save memory_broker memory_store (w_broker w, w_store w) bid)"
proof -
  obtain t where t: "run_step Quit (w_board w) = Inr t" using shutdown_eq [OF assms(1)] by auto
  show thesis
    by (rule that)
      (use t assms(2) in \<open>auto simp: run_quit_def on_board_def live_event_def persistOnClose_def Let_def
        split: prod.splits option.splits\<close>)
qed

lemma hydrate_memory:
  assumes "Memory_ok m" "Subs_ok m" "gomap_ok (sm_snaps s)" "\<And>snap. gomap_get (sm_snaps s) b = Some snap \<Longrightarrow> snap_ok snap"
  shows "Memory_ok (fst (hydrate memory_broker memory_store (m, s) b))"
    "Subs_ok (fst (hydrate memory_broker memory_store (m, s) b))"
proof -
  have "fst (hydrate memory_broker memory_store (m, s) b) =
      (case gomap_get (sm_snaps s) b of None \<Rightarrow> m | Some snap \<Rightarrow> snd (mem_Hydrate m b snap))"
    by (simp add: hydrate_def memory_store_def sm_LoadSnapshot_def memory_broker_def split: option.splits)
  then show "Memory_ok (fst (hydrate memory_broker memory_store (m, s) b))"
    "Subs_ok (fst (hydrate memory_broker memory_store (m, s) b))"
    using assms mem_Hydrate_law(2) [OF assms(1) _ surjective_pairing] bus_kept(3) [OF assms(1,2)]
    by (auto split: option.splits)
qed

section \<open>Properties\<close>

text \<open>A board with two clients and an empty document, for the examples.\<close>

definition example_world :: "(Memory, MemStore) World" where
  "example_world =
     \<lparr>w_broker = snd (mem_Subscribe NewMemory ''x''), w_store = NewMemStore, w_board = two_clients, w_msgs = Some 0\<rparr>"

lemma example_world_ok:
  "world_ok ''x'' example_world" "backlog example_world = []"
  "mem_doc (w_broker example_world) ''x'' = empty_doc" "mem_roster (w_broker example_world) ''x'' = Map.empty"
  "c_boardID (client_of 0 example_world) = ''x''" "w_board example_world = two_clients"
proof -
  let ?m = "snd (mem_Subscribe NewMemory ''x'')"
  note s = mem_Subscribe_Subs [OF NewMemory_ok NewMemory_Subs_ok surjective_pairing, of "''x''"]
  have "subs_of ?m ''x'' = subs_of NewMemory ''x'' @ [0]" using s(6) by (simp add: NewMemory_def)
  then show "world_ok ''x'' example_world"
    using s(2,3) two_clients_ok by (simp add: world_ok_def example_world_def two_clients_fields)
  show "backlog example_world = []"
    by (simp add: backlog_def example_world_def mem_Subscribe_def Let_def mem_board_def NewMemory_def put_board_def)
  show "mem_doc (w_broker example_world) ''x'' = empty_doc" "mem_roster (w_broker example_world) ''x'' = Map.empty"
    using s(4,5) by (simp_all add: example_world_def mem_doc_def mem_roster_def the_board_get NewMemory_def new_memBoard_def fun_eq_iff)
      (simp_all add: new_memBoard_def memBoard_doc_new [unfolded new_memBoard_def])
  show "c_boardID (client_of 0 example_world) = ''x''" "w_board example_world = two_clients"
    by (simp_all add: example_world_def) code_simp
qed





text \<open>(C34)
  Onboarding: a client that registers on a running board, with no other message relayed in
  between, is queued exactly two messages: a snapshot of the whole current document, and the
  roster with itself as self and every other present client, and nobody else, as others.
\<close>

theorem onboarding_sends_everything:
  assumes "Memory_ok (w_broker w)" "board_ok (w_board w)" "\<not> b_done (w_board w)" "may_register c (w_board w)"
    "c_boardID (client_of c w) = bid" "got (client_of c w) = []" "1 < ch_cap (c_send (client_of c w))"
    "roster_ok (mem_roster (w_broker w) bid)"
    "\<forall>i q v. d_shapes (mem_doc (w_broker w) bid) i = Some (q, v) \<longrightarrow> v = [] \<or> json_valid v"
  shows "\<exists>w' snap others m1 m2. onboard memory_broker False c w = Inr w' \<and> c \<in> set (b_clients (w_board w')) \<and>
    got (client_of c w') = [m1, m2] \<and>
    Marshal TypeSnapshot 0 (marshal_Snapshot snap) = Inr m1 \<and> snapshot_of (mem_doc (w_broker w) bid) snap \<and>
    Marshal TypePresenceState 0 (marshal_PresenceState
      \<lparr>ps_Self = presence (client_of c w), ps_Others = others\<rparr>) = Inr m2 \<and>
    (\<forall>p. p \<in> set others \<longleftrightarrow> p_ClientID p \<noteq> c_id (client_of c w) \<and>
      mem_roster (w_broker w) bid (p_ClientID p) = Some (presence_object p))"
proof (rule onboard_first_messages [OF assms(1-8)])
  show "v = [] \<or> json_valid v" if "d_shapes (mem_doc (w_broker w) bid) i = Some (q, v)" for i q v
    using assms(9) that by blast
qed blast

theorem onboarding_sends_everything_witness:
  "\<exists>w' m1 m2. onboard memory_broker False 2 example_world = Inr w' \<and> got (client_of 2 w') = [m1, m2]"
proof -
  have ok: "Memory_ok (w_broker example_world)" "board_ok (w_board example_world)" "\<not> b_done (w_board example_world)"
    using example_world_ok(1) by (simp_all add: world_ok_def)
  have c: "may_register 2 (w_board example_world)" "c_boardID (client_of 2 example_world) = ''x''"
    "got (client_of 2 example_world) = []" "1 < ch_cap (c_send (client_of 2 example_world))"
    unfolding example_world_ok by code_simp+
  have "roster_ok (mem_roster (w_broker example_world) ''x'')"
    "\<forall>i q v. d_shapes (mem_doc (w_broker example_world) ''x'') i = Some (q, v) \<longrightarrow> v = [] \<or> json_valid v"
    by (simp_all add: example_world_ok roster_ok_def empty_doc_def)
  from onboarding_sends_everything [OF ok c this] show ?thesis by blast
qed

text \<open>
  The roster a client is shown lists every present client once, in the order of their ids, and
  nobody else, whatever order the map is visited in.
\<close>

lemma roster_lists_present_clients:
  assumes "Memory_ok m" "roster_ok (mem_roster m b)"
  shows "\<exists>ps m'. mem_Presence m b = (Inr ps, m') \<and> mem_roster m' = mem_roster m \<and>
    sorted_wrt (<) (map p_ClientID ps) \<and>
    (\<forall>p. p \<in> set ps \<longleftrightarrow> mem_roster m b (p_ClientID p) = Some (presence_object p))"
proof -
  obtain ps m' where "mem_Presence m b = (Inr ps, m')" "sorted_wrt (<) (map p_ClientID ps)"
    "the_board m' = the_board m" "\<And>p. p \<in> set ps \<longleftrightarrow> mem_roster m b (p_ClientID p) = Some (presence_object p)"
    using mem_Presence_roster [OF assms] by metis
  with same_boards [of m' m] show ?thesis by auto
qed

text \<open>
  A board that stops and starts again in a fresh process keeps its document: the final checkpoint
  of the stopping board, loaded by the starting one before it serves its first client, restores
  every shape with its blob and sequence number, provided the store had no newer snapshot.
\<close>

lemma board_restart_restores:
  assumes "Memory_ok (w_broker w)" "board_ok (w_board w)" "\<not> b_done (w_board w)" "gomap_ok (sm_snaps (w_store w))"
    "\<forall>y. gomap_get (sm_snaps (w_store w)) bid = Some y \<longrightarrow> snap_ok y \<and> snap_Seq y \<le> d_seq (mem_doc (w_broker w) bid)"
  shows "\<exists>w'. run_quit memory_broker (Some memory_store) bid w = Inr w' \<and>
    mem_doc (w_broker (run_start memory_broker (Some memory_store) bid (w'\<lparr>w_broker := NewMemory\<rparr>))) bid =
      mem_doc (w_broker w) bid"
proof -
  obtain w' where w': "run_quit memory_broker (Some memory_store) bid w = Inr w'"
    "w_store w' = snd (save memory_broker memory_store (w_broker w, w_store w) bid)"
    using run_quit_store [OF assms(2,3)] by metis
  let ?s = "w_store w'" and ?h = "hydrate memory_broker memory_store (NewMemory, w_store w') bid"
  obtain bs' ss' snap where "save memory_broker memory_store (w_broker w, w_store w) bid = (bs', ss')"
    "gomap_ok (sm_snaps ss')" "snapshot_of (mem_doc (w_broker w) bid) snap"
    "gomap_get (sm_snaps ss') = (if stale (gomap_get (sm_snaps (w_store w)) bid) snap then gomap_get (sm_snaps (w_store w))
       else (gomap_get (sm_snaps (w_store w)))(bid \<mapsto> snap))"
    using mm.save_stores [OF assms(1,4), of bid, OF TrueI] by metis
  then have s: "gomap_ok (sm_snaps ?s)" "\<And>y. gomap_get (sm_snaps ?s) bid = Some y \<Longrightarrow> snap_ok y"
    using w'(2) assms(5) by (auto simp: snapshot_of_def split: if_splits)
  have doc: "mem_doc (fst ?h) bid = mem_doc (w_broker w) bid"
    unfolding w'(2) using assms by (intro mem_restart) auto
  have "Memory_ok (fst ?h)" "Subs_ok (fst ?h)"
    by (rule hydrate_memory [OF NewMemory_ok NewMemory_Subs_ok s], assumption)+
  from mem_Subscribe_Subs(4) [OF this surjective_pairing, of bid]
  have "mem_doc (w_broker (run_start memory_broker (Some memory_store) bid (w'\<lparr>w_broker := NewMemory\<rparr>))) = mem_doc (fst ?h)"
    by (auto simp: run_start_def board_hydrate_def memory_broker_def Let_def split: prod.splits sum.splits)
  with doc w'(1) show ?thesis by auto
qed

end
