(* ===== verification/Instance.thy ===== *)
theory Instance
  imports Session
begin

text \<open>
  One instance at work on one board: all its sessions, the board's loop and the broker, as a
  sequence of steps in any order. Whatever the order, the instance is an implementation of a
  very small machine: a document that takes the valid shape operations of the frames in the
  order they are read, and a roster that clients enter and leave.
\<close>

section \<open>Steps of an instance\<close>

datatype instance_event =
    Frame nat bytes           \<comment> \<open>the read pump of a client handles a frame\<close>
  | Relay                     \<comment> \<open>the board's loop takes the next message of its subscription\<close>
  | Loop board_event          \<comment> \<open>another case of the board's loop, or a write pump\<close>
  | JoinRoster nat
  | TellSnapshot nat bool
  | TellRoster nat bool
  | LeaveRoster nat

fun instance_step :: "'b Broker \<Rightarrow> instance_event \<Rightarrow> ('b, 's) World \<Rightarrow> panic + ('b, 's) World" where
  "instance_step B (Frame c data) w = Inr (readPump_step B c data w)"
| "instance_step B Relay w = run_msg B w"
| "instance_step B (Loop e) w = on_board e w"
| "instance_step B (JoinRoster c) w = Inr (joinPresence B c w)"
| "instance_step B (TellSnapshot c ctxDone) w = sendSnapshot B ctxDone c w"
| "instance_step B (TellRoster c ctxDone) w = sendPresenceState B ctxDone c w"
| "instance_step B (LeaveRoster c) w = Inr (leavePresence B c w)"

fun instance_run :: "'b Broker \<Rightarrow> instance_event list \<Rightarrow> ('b, 's) World \<Rightarrow> panic + ('b, 's) World" where
  "instance_run B [] w = Inr w"
| "instance_run B (e # es) w = bind_result (instance_step B e w) (instance_run B es)"

text \<open>A client registers once and under an id that is not in use; everything else may happen any time.\<close>

definition event_ok :: "instance_event \<Rightarrow> ('b, 's) World \<Rightarrow> bool" where
  "event_ok e w = (case e of Loop (Register c) \<Rightarrow> may_register c (w_board w) | _ \<Rightarrow> True)"

fun events_ok :: "'b Broker \<Rightarrow> instance_event list \<Rightarrow> ('b, 's) World \<Rightarrow> bool" where
  "events_ok B [] w = True"
| "events_ok B (e # es) w =
     (event_ok e w \<and> (case instance_step B e w of Inl p \<Rightarrow> True | Inr w1 \<Rightarrow> events_ok B es w1))"

section \<open>The abstract machine\<close>

record board_view =
  bv_doc :: doc
  bv_roster :: "bytes \<rightharpoonup> bytes"

text \<open>The operation a frame carries, if it carries a valid one.\<close>

definition frame_write :: "bytes \<Rightarrow> shape_write option" where
  "frame_write data =
     (case unmarshal_Envelope data of
        (Some err, env) \<Rightarrow> None
      | (None, env) \<Rightarrow>
          if env_Type env \<notin> {TypeShapeCreate, TypeShapeUpdate, TypeShapeDelete} then None
          else (case DecodePayload env set_ShapeOp zero_ShapeOp of (err, op) \<Rightarrow>
            if err \<noteq> None \<or> op_ID op = [] then None
            else Some (op_ID op, slice_bytes (op_Shape op), env_Type env = TypeShapeDelete)))"

fun view_step :: "(nat \<Rightarrow> Presence) \<Rightarrow> instance_event \<Rightarrow> board_view \<Rightarrow> board_view" where
  "view_step who (Frame c data) v =
     (case frame_write data of None \<Rightarrow> v | Some (i, blob, del) \<Rightarrow> v\<lparr>bv_doc := doc_apply i blob del (bv_doc v)\<rparr>)"
| "view_step who (JoinRoster c) v = v\<lparr>bv_roster := (bv_roster v)(p_ClientID (who c) \<mapsto> presence_object (who c))\<rparr>"
| "view_step who (LeaveRoster c) v = v\<lparr>bv_roster := (bv_roster v)(p_ClientID (who c) := None)\<rparr>"
| "view_step who _ v = v"

section \<open>Identities do not change\<close>

definition ident :: "Client \<Rightarrow> bytes \<times> Presence" where
  "ident x = (c_boardID x, presence x)"

lemma ident_simps [simp]:
  "ident (x\<lparr>c_present := p\<rparr>) = ident x" "ident (x\<lparr>c_send := ch\<rparr>) = ident x" "ident (x\<lparr>c_closed := k\<rparr>) = ident x"
  "ident (x\<lparr>c_written := ws\<rparr>) = ident x" "ident (enqueue d x) = ident x" "ident (detached k x) = ident x"
  by (simp_all add: ident_def presence_def enqueue_def detached_def)

lemma ident_detach: "detach c k s = Inr t \<Longrightarrow> ident (b_heap t d) = ident (b_heap s d)"
  by (auto simp: detach_def bind_result_Inr split: if_splits)

lemma ident_send_loop: "send_loop data ex cs heap = Inr (h, n, slow) \<Longrightarrow> ident (h d) = ident (heap d)"
  by (induction data ex cs heap arbitrary: h n slow rule: send_loop.induct)
    (fastforce simp: bind_result_Inr split: if_splits option.splits)+

lemma ident_kick_loop: "kick_loop cs s = Inr t \<Longrightarrow> ident (b_heap t d) = ident (b_heap s d)"
  by (induction cs arbitrary: s) (auto simp: bind_result_Inr dest!: ident_detach)

lemma ident_deliver:
  "deliverReliable data ex s = Inr t \<Longrightarrow> ident (b_heap t d) = ident (b_heap s d)"
  "deliverBestEffort data ex s = Inr t \<Longrightarrow> ident (b_heap t d) = ident (b_heap s d)"
  by (auto simp: deliverReliable_def deliverBestEffort_def bind_result_Inr
      dest!: ident_kick_loop [where d = d] ident_send_loop [where d = d])

lemma ident_push: "push c data s = Inr (ok, t) \<Longrightarrow> ident (b_heap t d) = ident (b_heap s d)"
  by (auto simp: push_def bind_result_Inr split: option.splits dest!: ident_detach)

lemma ident_shutdown_loop: "shutdown_loop cs s = Inr t \<Longrightarrow> ident (b_heap t d) = ident (b_heap s d)"
  by (induction cs arbitrary: s) (fastforce simp: bind_result_Inr)+

lemma ident_run_step: "run_step e s = Inr t \<Longrightarrow> ident (b_heap t d) = ident (b_heap s d)"
  by (cases e) (auto simp: join_def dispatch_def shutdown_def take_written_def bind_result_Inr
      split: if_splits prod.splits option.splits list.splits
      dest: ident_detach ident_deliver ident_push ident_shutdown_loop)

lemma on_board_cases:
  assumes "board_ok (w_board w)" "admissible e (w_board w)"
  obtains s where "on_board e w = Inr (w\<lparr>w_board := s\<rparr>)" "board_ok s" "\<And>d. ident (b_heap s d) = ident (client_of d w)"
proof (cases "live_event e (w_board w)")
  case True
  from run_step_ok [OF assms] obtain s where "run_step e (w_board w) = Inr s" "board_ok s" by blast
  with True that show thesis by (auto simp: on_board_def dest: ident_run_step)
next
  case False
  with assms(1) that [of "w_board w"] show thesis by (simp add: on_board_def)
qed

lemma deliverDirect_cases:
  assumes "board_ok (w_board w)"
  obtains s where "deliverDirect k c data w = Inr (w\<lparr>w_board := s\<rparr>)" "board_ok s" "\<And>d. ident (b_heap s d) = ident (client_of d w)"
proof (cases k)
  case True
  with assms that [of "w_board w"] show thesis by (simp add: deliverDirect_def)
next
  case False
  show thesis
    by (rule on_board_cases [OF assms, of "Direct c data"]) (use False that in \<open>auto simp: admissible_def deliverDirect_def\<close>)
qed

section \<open>The refinement\<close>

text \<open>What everybody outside the instance can see of a board, and what a step keeps.\<close>

definition seen :: "('b \<Rightarrow> bytes \<Rightarrow> doc) \<Rightarrow> ('b \<Rightarrow> bytes \<Rightarrow> bytes \<rightharpoonup> bytes) \<Rightarrow> bytes \<Rightarrow> ('b, 's) World \<Rightarrow> board_view" where
  "seen doc roster b w = \<lparr>bv_doc = doc (w_broker w) b, bv_roster = roster (w_broker w) b\<rparr>"

definition stepped ::
  "('b \<Rightarrow> bool) \<Rightarrow> ('b \<Rightarrow> bytes \<Rightarrow> doc) \<Rightarrow> ('b \<Rightarrow> bytes \<Rightarrow> bytes \<rightharpoonup> bytes) \<Rightarrow>
   ('b, 's) World \<Rightarrow> bytes \<Rightarrow> board_view \<Rightarrow> ('b, 's) World \<Rightarrow> bool" where
  "stepped ok doc roster w bid v w' \<longleftrightarrow> ok (w_broker w') \<and> board_ok (w_board w') \<and>
     (\<forall>d. ident (client_of d w') = ident (client_of d w)) \<and>
     (\<forall>b. seen doc roster b w' = (if b = bid then v else seen doc roster b w))"

text \<open>A broker that is up: none of the calls a session makes fails.\<close>

locale steady_broker = presence_contract B inv doc roster cap
  for B :: "'b Broker" and inv doc roster cap +
  assumes apply_ok: "inv s \<Longrightarrow> d_seq (doc s b) < cap \<Longrightarrow> \<exists>n s'. br_ApplyShape B s b i sh del = (Inr n, s')"
    and snapshot_ok: "inv s \<Longrightarrow> \<exists>snap s'. br_Snapshot B s b = (Inr snap, s')"
    and presence_keeps: "inv s \<Longrightarrow> br_Presence B s b = (r, s') \<Longrightarrow> inv s' \<and> doc s' = doc s \<and> roster s' = roster s"
    and recv_keeps: "inv s \<Longrightarrow> br_recv B s ch = (m, s') \<Longrightarrow> inv s' \<and> doc s' = doc s \<and> roster s' = roster s"
begin

lemma stepped_board:
  assumes "inv (w_broker w)" "inv b" "doc b = doc (w_broker w)" "roster b = roster (w_broker w)"
    "board_ok s" "\<And>d. ident (b_heap s d) = ident (client_of d w)"
  shows "stepped inv doc roster w bid (seen doc roster bid w) (w\<lparr>w_broker := b, w_board := s\<rparr>)" "stepped inv doc roster w bid (seen doc roster bid w) (w\<lparr>w_board := s\<rparr>)"
  using assms by (auto simp: stepped_def seen_def)

lemma publish_step:
  assumes "stepped inv doc roster w bid v w1"
  shows "stepped inv doc roster w bid v (publish B b r w1)"
  using assms publish_kept [of w1 b r] by (auto simp: stepped_def seen_def)

lemma frame_step:
  assumes "inv (w_broker w)" "board_ok (w_board w)" "c_boardID (client_of c w) = bid" "d_seq (doc (w_broker w) bid) < cap"
  shows "stepped inv doc roster w bid (view_step who (Frame c data) (seen doc roster bid w)) (readPump_step B c data w)"
proof (cases "unmarshal_Envelope data")
  case (Pair err env)
  let ?w = "w\<lparr>w_board := emit MessageReceived (w_board w)\<rparr>"
  have same: "stepped inv doc roster w bid (seen doc roster bid w) w" "stepped inv doc roster w bid (seen doc roster bid w) ?w"
    using assms(1,2) by (auto simp: stepped_def seen_def)
  obtain e op where dec: "DecodePayload env set_ShapeOp zero_ShapeOp = (e, op)" by fastforce
  show ?thesis
  proof (cases "frame_write data")
    case None
    have "stepped inv doc roster w bid (seen doc roster bid w) (publishCursor B c env ?w)"
      using same(2) by (auto simp: publishCursor_def publish_step split: prod.splits)
    then show ?thesis
      using None Pair dec same by (auto simp: frame_write_def readPump_step_def applyShapeOp_def Let_def split: option.splits if_splits)
  next
    case (Some wr)
    then have env: "err = None" "env_Type env \<in> {TypeShapeCreate, TypeShapeUpdate, TypeShapeDelete}" "e = None" "op_ID op \<noteq> []"
      "wr = (op_ID op, slice_bytes (op_Shape op), env_Type env = TypeShapeDelete)"
      using Pair dec by (auto simp: frame_write_def split: option.splits if_splits)
    obtain n b where b: "br_ApplyShape B (w_broker w) bid (op_ID op) (op_Shape op) (env_Type env = TypeShapeDelete) = (Inr n, b)"
      using apply_ok [OF assms(1,4)] by blast
    note a = apply_law [OF assms(1,4) b]
    have "stepped inv doc roster w bid (view_step who (Frame c data) (seen doc roster bid w)) (?w\<lparr>w_broker := b\<rparr>)"
      using a assms(2) Some env(5) by (auto simp: stepped_def seen_def)
    from publish_step [OF this, of bid "Marshal (env_Type env) n (marshal_ShapeOp op)"] show ?thesis
      using Pair env dec b assms(3) by (simp add: readPump_step_def applyShapeOp_def Let_def)
  qed
qed

lemma direct_step:
  assumes "inv (w_broker w)" "board_ok (w_board w)" "inv b" "doc b = doc (w_broker w)" "roster b = roster (w_broker w)"
  shows "stepped inv doc roster w bid (seen doc roster bid w) (w\<lparr>w_broker := b\<rparr>)"
    "\<exists>w'. deliverDirect k c data (w\<lparr>w_broker := b\<rparr>) = Inr w' \<and> stepped inv doc roster w bid (seen doc roster bid w) w'"
proof -
  show "stepped inv doc roster w bid (seen doc roster bid w) (w\<lparr>w_broker := b\<rparr>)"
    using assms by (simp add: stepped_def seen_def)
  have "board_ok (w_board (w\<lparr>w_broker := b\<rparr>))" using assms(2) by simp
  then obtain s where "deliverDirect k c data (w\<lparr>w_broker := b\<rparr>) = Inr (w\<lparr>w_broker := b, w_board := s\<rparr>)" "board_ok s"
    "\<And>d. ident (b_heap s d) = ident (client_of d w)"
    using deliverDirect_cases [of "w\<lparr>w_broker := b\<rparr>" k c data] by auto
  with stepped_board(1) [OF assms(1,3-5)]
  show "\<exists>w'. deliverDirect k c data (w\<lparr>w_broker := b\<rparr>) = Inr w' \<and> stepped inv doc roster w bid (seen doc roster bid w) w'"
    by blast
qed

lemma snapshot_step:
  assumes "inv (w_broker w)" "board_ok (w_board w)"
  shows "\<exists>w'. sendSnapshot B k c w = Inr w' \<and> stepped inv doc roster w bid (seen doc roster bid w) w'"
proof -
  obtain snap b where b: "br_Snapshot B (w_broker w) (c_boardID (client_of c w)) = (Inr snap, b)"
    using snapshot_ok [OF assms(1)] by blast
  have l: "inv b" "doc b = doc (w_broker w)" "roster b = roster (w_broker w)"
    using snapshot_law [OF assms(1) b] by simp_all
  show ?thesis
  proof (cases "Marshal TypeSnapshot 0 (marshal_Snapshot snap)")
    case (Inl e)
    with b direct_step(1) [OF assms l] show ?thesis by (simp add: sendSnapshot_def)
  next
    case (Inr data)
    with b direct_step(2) [OF assms l, of k c data] show ?thesis by (simp add: sendSnapshot_def)
  qed
qed

lemma roster_step:
  assumes "inv (w_broker w)" "board_ok (w_board w)"
  shows "\<exists>w'. sendPresenceState B k c w = Inr w' \<and> stepped inv doc roster w bid (seen doc roster bid w) w'"
proof -
  obtain r b where b: "br_Presence B (w_broker w) (c_boardID (client_of c w)) = (r, b)" by fastforce
  have l: "inv b" "doc b = doc (w_broker w)" "roster b = roster (w_broker w)"
    using presence_keeps [OF assms(1) b] by simp_all
  note keep = direct_step(1) [OF assms l] and deliver = direct_step(2) [OF assms l, of k c]
  show ?thesis
  proof (cases r)
    case (Inl e)
    with b keep show ?thesis by (simp add: sendPresenceState_def Let_def)
  next
    case (Inr ps)
    let ?m = "Marshal TypePresenceState 0 (marshal_PresenceState
        \<lparr>ps_Self = presence (client_of c w), ps_Others = filter (\<lambda>p. p_ClientID p \<noteq> c_id (client_of c w)) ps\<rparr>)"
    have "sendPresenceState B k c w = (case ?m of Inl e \<Rightarrow> Inr (w\<lparr>w_broker := b\<rparr>) | Inr data \<Rightarrow> deliverDirect k c data (w\<lparr>w_broker := b\<rparr>))"
      using b Inr by (simp add: sendPresenceState_def Let_def)
    then show ?thesis using keep deliver by (cases ?m) simp_all
  qed
qed

lemma relay_step:
  assumes "inv (w_broker w)" "board_ok (w_board w)"
  shows "\<exists>w'. run_msg B w = Inr w' \<and> stepped inv doc roster w bid (seen doc roster bid w) w'"
proof -
  have same: "stepped inv doc roster w bid (seen doc roster bid w) w" using assms by (simp add: stepped_def seen_def)
  show ?thesis
  proof (cases "w_msgs w = None \<or> b_done (w_board w)")
    case True
    with same show ?thesis by (auto simp: run_msg_def split: option.split)
  next
    case False
    then obtain ch where ch: "w_msgs w = Some ch" by auto
    obtain m b where b: "br_recv B (w_broker w) ch = (m, b)" by fastforce
    have l: "inv b" "doc b = doc (w_broker w)" "roster b = roster (w_broker w)"
      using recv_keeps [OF assms(1) b] by simp_all
    show ?thesis
    proof (cases m)
      case None
      with ch b False direct_step(1) [OF assms l] show ?thesis by (simp add: run_msg_def)
    next
      case (Some x)
      have "board_ok (w_board (w\<lparr>w_broker := b\<rparr>))" using assms(2) by simp
      then obtain s where "on_board (Msg x) (w\<lparr>w_broker := b\<rparr>) = Inr (w\<lparr>w_broker := b, w_board := s\<rparr>)" "board_ok s"
        "\<And>d. ident (b_heap s d) = ident (client_of d w)"
        using on_board_cases [of "w\<lparr>w_broker := b\<rparr>" "Msg x"] by (auto simp: admissible_def)
      with ch b False Some stepped_board(1) [OF assms(1) l] show ?thesis by (simp add: run_msg_def)
    qed
  qed
qed

text \<open>Every step of the instance is a step of the abstract machine, and none panics.\<close>

lemma instance_step_refines:
  assumes "inv (w_broker w)" "board_ok (w_board w)" "\<And>c. c_boardID (client_of c w) = bid"
    "d_seq (doc (w_broker w) bid) < cap" "event_ok e w"
  shows "\<exists>w'. instance_step B e w = Inr w' \<and>
    stepped inv doc roster w bid (view_step (\<lambda>c. presence (client_of c w)) e (seen doc roster bid w)) w'"
proof (cases e)
  case (Frame c data)
  with frame_step [OF assms(1,2) assms(3) assms(4)] show ?thesis by simp
next
  case Relay
  with relay_step [OF assms(1,2)] show ?thesis by simp
next
  case (Loop ev)
  have "admissible ev (w_board w)" using assms(5) Loop by (simp add: event_ok_def admissible_def split: board_event.splits)
  with on_board_cases [OF assms(2)] obtain s where "on_board ev w = Inr (w\<lparr>w_board := s\<rparr>)" "board_ok s"
    "\<And>d. ident (b_heap s d) = ident (client_of d w)" by metis
  with stepped_board(2) [OF assms(1) assms(1)] Loop show ?thesis by simp
next
  case (JoinRoster c)
  note j = joinPresence_roster [OF assms(1), of c]
  show ?thesis using j assms(2,3) JoinRoster
    by (auto simp: stepped_def seen_def presence_def)
next
  case (LeaveRoster c)
  note j = leavePresence_roster [OF assms(1), of c]
  have "w_board (leavePresence B c w) = w_board w"
    by (simp add: leavePresence_def publish_def Let_def split: sum.split)
  then show ?thesis using j assms(2,3) LeaveRoster
    by (auto simp: stepped_def seen_def presence_def)
next
  case (TellSnapshot c k)
  with snapshot_step [OF assms(1,2)] show ?thesis by simp
next
  case (TellRoster c k)
  with roster_step [OF assms(1,2)] show ?thesis by simp
qed

lemma view_step_seq: "d_seq (bv_doc (view_step who e v)) \<in> {d_seq (bv_doc v), d_seq (bv_doc v) + 1}"
  by (cases e) (auto simp: doc_apply_def split: option.split)

lemma instance_run_refines:
  assumes "inv (w_broker w)" "board_ok (w_board w)" "\<And>c. c_boardID (client_of c w) = bid"
    "unat (d_seq (doc (w_broker w) bid)) + length es \<le> unat cap" "events_ok B es w"
  shows "\<exists>w'. instance_run B es w = Inr w' \<and>
    stepped inv doc roster w bid (fold (view_step (\<lambda>c. presence (client_of c w))) es (seen doc roster bid w)) w'"
  using assms
proof (induction es arbitrary: w)
  case Nil
  then show ?case by (simp add: stepped_def seen_def)
next
  case (Cons e es)
  let ?who = "\<lambda>c. presence (client_of c w)"
  have lt: "d_seq (doc (w_broker w) bid) < cap" using Cons.prems(4) by (simp add: word_less_nat_alt)
  have "event_ok e w" using Cons.prems(5) by simp
  then obtain w1 where w1: "instance_step B e w = Inr w1"
    "stepped inv doc roster w bid (view_step ?who e (seen doc roster bid w)) w1"
    using instance_step_refines [OF Cons.prems(1,2,3) lt] by blast
  have ident: "ident (client_of c w1) = ident (client_of c w)" for c using w1(2) by (simp add: stepped_def)
  then have who: "(\<lambda>c. presence (client_of c w1)) = ?who" and bid: "\<And>c. c_boardID (client_of c w1) = bid"
    using Cons.prems(3) by (auto simp: ident_def fun_eq_iff)
  have s1: "seen doc roster bid w1 = view_step ?who e (seen doc roster bid w)" using w1(2) by (simp add: stepped_def)
  have "d_seq (doc (w_broker w1) bid) \<in> {d_seq (doc (w_broker w) bid), d_seq (doc (w_broker w) bid) + 1}"
    using view_step_seq [of ?who e "seen doc roster bid w"] by (simp add: s1 [symmetric]) (simp add: seen_def)
  then have "unat (d_seq (doc (w_broker w1) bid)) \<le> unat (d_seq (doc (w_broker w) bid)) + 1"
    using unat_Suc_u64 [OF less_u64_ne_max [OF lt]] by auto
  then have bnd: "unat (d_seq (doc (w_broker w1) bid)) + length es \<le> unat cap" using Cons.prems(4) by simp
  have "inv (w_broker w1)" "board_ok (w_board w1)" using w1(2) by (simp_all add: stepped_def)
  from Cons.IH [OF this bid bnd] Cons.prems(5) w1(1) obtain w' where "instance_run B es w1 = Inr w'"
    "stepped inv doc roster w1 bid (fold (view_step ?who) es (view_step ?who e (seen doc roster bid w))) w'"
    by (auto simp: who s1)
  with w1 show ?case by (auto simp: stepped_def)
qed

end

lemma mem_same_board: "the_board m' = the_board m \<Longrightarrow> mem_doc m' = mem_doc m \<and> mem_roster m' = mem_roster m"
  by (simp add: mem_doc_def mem_roster_def fun_eq_iff)

interpretation memsteady: steady_broker memory_broker Memory_ok mem_doc mem_roster "- 1"
proof
  fix s b i sh del assume "Memory_ok s" "d_seq (mem_doc s b) < - 1"
  then show "\<exists>n s'. br_ApplyShape memory_broker s b i sh del = (Inr n, s')"
    using mem_ApplyShape_law(1) [OF _ _ surjective_pairing, of s b i sh del]
    by (simp add: memory_broker_def mem_doc_def memBoard_doc_def) (metis less_max_u64 prod.collapse)
next
  fix s b assume "Memory_ok s"
  then show "\<exists>snap s'. br_Snapshot memory_broker s b = (Inr snap, s')"
    using mem_Snapshot_law(3) [OF _ surjective_pairing, of s b] by (simp add: memory_broker_def) (metis prod.collapse)
next
  fix s b r s' assume s: "Memory_ok s" "br_Presence memory_broker s b = (r, s')"
  obtain m1 where m1: "mem_board s b = (the_board s b, m1)" "Memory_ok m1" "the_board m1 = the_board s"
    using mem_board_cases [OF s(1)] by metis
  then have "s' = m1" using s(2) by (simp add: memory_broker_def mem_Presence_def)
  then show "Memory_ok s' \<and> mem_doc s' = mem_doc s \<and> mem_roster s' = mem_roster s"
    using m1(2) mem_same_board [OF m1(3)] by simp
next
  fix s ch m s' assume s: "Memory_ok s" "br_recv memory_broker s ch = (m, s')"
  then have "mem_boards s' = mem_boards s" "Memory_ok s'"
    by (auto simp: memory_broker_def mem_recv_def split: option.splits list.splits)
  moreover from this(1) have "the_board s' = the_board s" by (simp add: the_board_get fun_eq_iff)
  ultimately show "Memory_ok s' \<and> mem_doc s' = mem_doc s \<and> mem_roster s' = mem_roster s"
    using mem_same_board [of s' s] by simp
qed

section \<open>The property\<close>

definition event_write :: "instance_event \<Rightarrow> shape_write option" where
  "event_write e = (case e of Frame c data \<Rightarrow> frame_write data | _ \<Rightarrow> None)"

lemma view_step_doc:
  "bv_doc (fold (view_step who) es v) = run_log (List.map_filter event_write es) (bv_doc v)"
proof (induction es arbitrary: v)
  case (Cons e es)
  have "bv_doc (view_step who e v) =
      (case event_write e of None \<Rightarrow> bv_doc v | Some (i, blob, del) \<Rightarrow> doc_apply i blob del (bv_doc v))"
    by (cases e) (auto simp: event_write_def split: option.split)
  with Cons.IH [of "view_step who e v"] show ?case
    by (auto simp: map_filter_simps run_log_def split: option.split)
qed (simp add: run_log_def map_filter_simps)

text \<open>(C5)
  An instance at work is the small machine it is meant to be. Take any broker that is up, one
  board and any interleaving of its sessions' reads, joins, leaves and greetings with the cases of
  the board's loop: nothing panics; the board's document becomes the old one with the valid shape
  operations among the frames applied in the order they were read, and nothing else in any frame
  has an effect on it; the roster is what the joins and leaves make of it; no other board changes.
\<close>

theorem instance_refines_board:
  assumes "steady_broker B ok doc roster cap" "ok (w_broker w)" "board_ok (w_board w)"
    "\<And>c. c_boardID (client_of c w) = bid" "unat (d_seq (doc (w_broker w) bid)) + length es \<le> unat cap" "events_ok B es w"
  shows "\<exists>w'. instance_run B es w = Inr w' \<and> ok (w_broker w') \<and> board_ok (w_board w') \<and>
    seen doc roster bid w' = fold (view_step (\<lambda>c. presence (client_of c w))) es (seen doc roster bid w) \<and>
    doc (w_broker w') bid = run_log (List.map_filter event_write es) (doc (w_broker w) bid) \<and>
    (\<forall>b. b \<noteq> bid \<longrightarrow> doc (w_broker w') b = doc (w_broker w) b \<and> roster (w_broker w') b = roster (w_broker w) b)"
proof -
  let ?v = "fold (view_step (\<lambda>c. presence (client_of c w))) es (seen doc roster bid w)"
  obtain w' where w': "instance_run B es w = Inr w'" "stepped ok doc roster w bid ?v w'"
    using steady_broker.instance_run_refines [OF assms] by blast
  then have s: "seen doc roster b w' = (if b = bid then ?v else seen doc roster b w)" for b by (simp add: stepped_def)
  have d: "bv_doc (seen doc roster bid x) = doc (w_broker x) bid" for x :: "('a, 'b) World" by (simp add: seen_def)
  have "doc (w_broker w') bid = run_log (List.map_filter event_write es) (doc (w_broker w) bid)"
    unfolding d [symmetric] using s [of bid] view_step_doc by simp
  moreover have "doc (w_broker w') b = doc (w_broker w) b \<and> roster (w_broker w') b = roster (w_broker w) b" if "b \<noteq> bid" for b
    using s [of b] that by (simp add: seen_def)
  ultimately show ?thesis using w' s [of bid] by (simp add: stepped_def)
qed

theorem instance_refines_board_witness:
  "\<exists>data w'. Marshal TypeShapeCreate 0 (marshal_ShapeOp \<lparr>op_ID = ''a'', op_Shape = Some ''1''\<rparr>) = Inr data \<and>
    instance_run memory_broker [JoinRoster 0, Frame 0 ''not json'', Frame 1 data, Relay, LeaveRoster 0] example_world = Inr w' \<and>
    mem_doc (w_broker w') ''x'' = doc_apply ''a'' ''1'' False empty_doc"
proof -
  let ?op = "marshal_ShapeOp \<lparr>op_ID = ''a'', op_Shape = Some ''1''\<rparr>"
  have "frame_write (case Marshal TypeShapeCreate 0 ?op of Inr m \<Rightarrow> m | Inl e \<Rightarrow> []) = Some (''a'', ''1'', False)"
    "\<not> isl (Marshal TypeShapeCreate 0 ?op)" by code_simp+
  then obtain data where data: "Marshal TypeShapeCreate 0 ?op = Inr data" "frame_write data = Some (''a'', ''1'', False)"
    by (cases "Marshal TypeShapeCreate 0 ?op") simp_all
  let ?es = "[JoinRoster 0, Frame 0 ''not json'', Frame 1 data, Relay, LeaveRoster 0]"
  have ok: "Memory_ok (w_broker example_world)" "board_ok (w_board example_world)"
    using example_world_ok(1) by (simp_all add: world_ok_def)
  have bid: "c_boardID (client_of c example_world) = ''x''" for c
    by (simp add: example_world_def two_clients_def newBoard_def join_def blank_client_def)
  have bnd: "unat (d_seq (mem_doc (w_broker example_world) ''x'')) + length ?es \<le> unat (- 1 :: u64)"
    by (simp add: example_world_ok(3) empty_doc_def)
  have ev: "events_ok memory_broker ?es example_world"
    by (simp add: event_ok_def split: sum.split)
  have "frame_write ''not json'' = None" by code_simp
  with instance_refines_board [OF memsteady.steady_broker_axioms ok bid bnd ev] data show ?thesis
    by (auto simp: event_write_def map_filter_simps run_log_def example_world_ok(3))
qed

end
