(* ===== verification/Production.thy ===== *)
theory Production
  imports RedisBus PostgresStore Instance
begin

text \<open>
  The production configuration: the Redis broker and the Postgres store together, while both
  services answer. The locale \<open>production\<close> gives the restart contract of the persistence layer,
  and the presence contract of the client layer, from the documented behaviour of the two services.
  The second part compares the two brokers.
\<close>

section \<open>Services that answer\<close>

text \<open>Which commands Redis executes without an error: those on a key of the right type.\<close>

fun cmd_ok :: "keyspace \<Rightarrow> redis_cmd \<Rightarrow> bool" where
  "cmd_ok k (INCR x) \<longleftrightarrow> ks_hash k x = Map.empty \<and>
     (\<forall>v. ks_str k x = Some v \<longrightarrow> (\<exists>n. 0 \<le> n \<and> n + 1 < 2 ^ 63 \<and> v = format_int n))"
| "cmd_ok k (EXISTS x) \<longleftrightarrow> True"
| "cmd_ok k (GET x) \<longleftrightarrow> ks_hash k x = Map.empty"
| "cmd_ok k (SET x v) \<longleftrightarrow> True"
| "cmd_ok k (HSET x f v) \<longleftrightarrow> ks_str k x = None"
| "cmd_ok k (HDEL x f) \<longleftrightarrow> ks_str k x = None"
| "cmd_ok k (HGETALL x) \<longleftrightarrow> ks_str k x = None"
| "cmd_ok k (PUBLISH c m) \<longleftrightarrow> True"

locale redis_up = redis_server R db for R :: "'r RedisServer" and db +
  assumes link_up: "fst (rs_send R s) = None" "fst (rs_reply R s) = None"
    and serves: "cmd_ok (db s) c \<Longrightarrow> \<exists>r s'. rs_call R s c = (Inr r, s')"
begin

lemma request_up:
  obtains s1 where "db s1 = db s" "request R f s = (fst (f s1), snd (rs_reply R (snd (f s1))))"
proof -
  obtain s1 where s1: "rs_send R s = (None, s1)" using link_up(1) [of s] by (metis prod.collapse)
  obtain u where "rs_reply R (snd (f s1)) = (None, u)" using link_up(2) [of "snd (f s1)"] by (metis prod.collapse)
  then show thesis
    using that [of s1] s1 send_keeps [OF s1] by (cases "f s1") (simp add: request_def)
qed

lemma request_call_up:
  assumes "cmd_ok (db s) c"
  obtains r s' where "request R (call R c) s = (Inr r, s')"
proof -
  obtain s1 where s1: "db s1 = db s" "request R (call R c) s = (fst (call R c s1), snd (rs_reply R (snd (call R c s1))))"
    by (rule request_up)
  obtain r t where "rs_call R s1 c = (Inr r, t)" using serves [of s1 c] assms s1(1) by auto
  with s1(2) that show thesis by (simp add: call_def)
qed

lemma snapshot_up:
  assumes "ks_ok (db (rb_server s))"
  shows "\<exists>snap s'. rd_Snapshot R s b = (Inr snap, s')"
proof -
  have typed: "ks_typed (db (rb_server s))" using assms by (simp add: ks_ok_def)
  then have "cmd_ok (db (rb_server s)) (HGETALL (shapesKey b))" by (simp add: ks_typed_def)
  then obtain r t where r: "request R (call R (HGETALL (shapesKey b))) (rb_server s) = (Inr r, t)" by (rule request_call_up)
  obtain m where m: "db t = db (rb_server s)" "r = RPairs m"
    using r by (elim request_Inr) (auto simp: call_def dest!: hgetall_law)
  have "cmd_ok (db t) (GET (seqKey b))" using typed m(1) by (simp add: ks_typed_def)
  then obtain x u where x: "request R (call R (GET (seqKey b))) t = (Inr x, u)" by (rule request_call_up)
  have xv: "x = (case ks_str (db t) (seqKey b) of None \<Rightarrow> RNil | Some v \<Rightarrow> RBulk v)"
    using x by (elim request_Inr) (auto simp: call_def dest: get_law)
  show ?thesis
  proof (cases "ks_str (db t) (seqKey b)")
    case None
    then show ?thesis using r m x xv
      by (simp add: rd_Snapshot_def rd_Snapshot_with_def on_server_def bind_redis_def reply_Map_def return_redis_def
          reply_Uint64_def fail_redis_def Let_def)
  next
    case (Some v)
    then obtain q where "v = format_uint q" using ks_ok_seq [OF assms, of b] m(1) by auto
    then show ?thesis using r m x xv Some
      by (simp add: rd_Snapshot_def rd_Snapshot_with_def on_server_def bind_redis_def reply_Map_def return_redis_def
          reply_Uint64_def fail_redis_def Let_def)
  qed
qed

lemma hydrate_args_up:
  assumes "ks_str (db s) k = None"
  shows "\<exists>s'. hydrate_args R k (hydrate_argv shapes) s = (Inr (RInt 1), s')"
  using assms
proof (induction shapes arbitrary: s)
  case (Cons x shapes)
  obtain r t where t: "rs_call R s (HSET k (ss_ID x) (format_uint (ss_Seq x) @ c_newline # slice_bytes (ss_Shape x))) = (Inr r, t)"
    using serves [of s "HSET k (ss_ID x) (format_uint (ss_Seq x) @ c_newline # slice_bytes (ss_Shape x))"] Cons.prems by auto
  have "ks_str (db t) k = None" using hset_law [OF t] Cons.prems by simp
  from Cons.IH [OF this] t show ?case by (simp add: hydrate_argv_def bind_redis_def call_def)
qed (simp add: hydrate_argv_def return_redis_def)

lemma hydrate_up:
  assumes "ks_ok (db (rb_server s))"
  shows "\<exists>s'. rd_Hydrate R s b snap = (Inr (ks_str (db (rb_server s)) (seqKey b) = None), s')"
proof -
  let ?script = "hydrateScript R (seqKey b) (shapesKey b) (format_uint (snap_Seq snap)) (hydrate_argv (snap_Shapes snap))"
  have typed: "ks_typed (db (rb_server s))" using assms by (simp add: ks_ok_def)
  obtain s1 where s1: "db s1 = db (rb_server s)" "request R ?script (rb_server s) = (fst (?script s1), snd (rs_reply R (snd (?script s1))))"
    by (rule request_up)
  obtain x t where x: "rs_call R s1 (EXISTS (seqKey b)) = (Inr x, t)" using serves [of s1 "EXISTS (seqKey b)"] by auto
  have x2: "db t = db s1" "x = RInt (if ks_str (db s1) (seqKey b) = None then 0 else 1)"
    using exists_law [OF x] typed s1(1) by (simp_all add: ks_typed_def)
  have "fst (?script s1) = Inr (RInt (if ks_str (db (rb_server s)) (seqKey b) = None then 1 else 0))"
  proof (cases "ks_str (db s1) (seqKey b) = None")
    case True
    obtain y u where y: "rs_call R t (SET (seqKey b) (format_uint (snap_Seq snap))) = (Inr y, u)"
      using serves [of t "SET (seqKey b) (format_uint (snap_Seq snap))"] by auto
    have "ks_str (db u) (shapesKey b) = None" using set_law [OF y] x2(1) s1(1) typed by (simp add: ks_typed_def)
    from hydrate_args_up [OF this, of "snap_Shapes snap"] x x2 y True s1(1) show ?thesis
      by (auto simp: hydrateScript_def bind_redis_def call_def)
  next
    case False
    then have "x = RInt 1" using x2(2) by auto
    then show ?thesis using False x s1(1) by (auto simp: hydrateScript_def bind_redis_def call_def return_redis_def)
  qed
  then show ?thesis
    using s1(2) by (simp add: rd_Hydrate_def on_server_def bind_redis_def reply_Int64_def return_redis_def)
qed

lemma presence_up:
  assumes "ks_ok (db (rb_server s))"
  shows "\<exists>s'. rd_SetPresence R s b c p = (Inr (), s')" "\<exists>s'. rd_RemovePresence R s b c = (Inr (), s')"
proof -
  have "ks_str (db (rb_server s)) (presenceKey b) = None" using assms by (simp add: ks_ok_def ks_typed_def)
  then obtain r1 t1 r2 t2 where "request R (call R (HSET (presenceKey b) c (slice_bytes p))) (rb_server s) = (Inr r1, t1)"
    "request R (call R (HDEL (presenceKey b) c)) (rb_server s) = (Inr r2, t2)"
    by (metis cmd_ok.simps(5,6) request_call_up)
  then show "\<exists>s'. rd_SetPresence R s b c p = (Inr (), s')" "\<exists>s'. rd_RemovePresence R s b c = (Inr (), s')"
    by (simp_all add: rd_SetPresence_def rd_RemovePresence_def on_server_def bind_redis_def return_redis_def)
qed

lemma apply_up:
  assumes "ks_ok (db (rb_server s))" "d_seq (ks_doc (db (rb_server s)) b) < redis_cap"
  shows "\<exists>n s'. rd_ApplyShape R s b i sh del = (Inr n, s')"
proof -
  let ?script = "applyShapeScript R (seqKey b) (shapesKey b) i (if del then ''1'' else ''0'') (slice_bytes sh)"
  obtain s1 where s1: "db s1 = db (rb_server s)" "request R ?script (rb_server s) = (fst (?script s1), snd (rs_reply R (snd (?script s1))))"
    by (rule request_up)
  let ?q = "d_seq (ks_doc (db s1) b)"
  have ok: "ks_ok (db s1)" "?q < redis_cap" "ks_typed (db s1)" using assms s1(1) by (simp_all add: ks_ok_def)
  have "uint ?q < 99999999999999" using ok(2) by (simp add: redis_cap_def word_less_alt)
  then have "cmd_ok (db s1) (INCR (seqKey b))"
    using ok(3) ks_ok_seq [OF ok(1), of b] format_uint_def [of ?q] by (auto simp: ks_typed_def intro!: exI [of _ "uint ?q"])
  then obtain r t where r: "rs_call R s1 (INCR (seqKey b)) = (Inr r, t)" using serves by blast
  have t: "r = RInt (uint (?q + 1))" "ks_str (db t) (shapesKey b) = None"
    using incr_seq [OF ok(1,2) r] ok(3) by (simp_all add: ks_typed_def ks_write_def)
  let ?n = "lua_number (uint (?q + 1))"
  let ?c = "if del then HDEL (shapesKey b) i else HSET (shapesKey b) i (lua_tostring ?n @ c_newline # slice_bytes sh)"
  have "cmd_ok (db t) ?c" using t(2) by simp
  then obtain y u where "rs_call R t ?c = (Inr y, u)" using serves by blast
  then have "fst (?script s1) = Inr (RInt ?n)"
    using r t(1) by (cases del) (simp_all add: applyShapeScript_def bind_redis_def call_def return_redis_def Let_def)
  then show ?thesis
    using s1(2) by (auto simp: rd_ApplyShape_def on_server_def bind_redis_def reply_Int64_def return_redis_def)
qed

lemma presence_read:
  assumes "rd_Presence R s b = (r, s')"
  shows "db (rb_server s') = db (rb_server s)"
proof -
  obtain x t where x: "request R (call R (HGETALL (presenceKey b))) (rb_server s) = (x, t)" by fastforce
  have "db u = db v" if "rs_call R v (HGETALL (presenceKey b)) = (y, u)" for u v y
    using that by (cases y) (auto dest: error_keeps hgetall_law)
  then have "db t = db (rb_server s)" using x by (elim request_cases) (auto simp: call_def)
  with x assms show ?thesis
    by (auto simp: rd_Presence_def on_server_def bind_redis_def reply_Map_def return_redis_def fail_redis_def
        split: sum.splits reply.splits)
qed

lemma recv_server: "rd_recv s ch = (m, s') \<Longrightarrow> rb_server s' = rb_server s"
  by (auto simp: rd_recv_def split: option.splits list.splits)

end

text \<open>Presence over Redis keeps the contract of the client layer.\<close>

sublocale redis_up \<subseteq> rp: presence_contract "redis_broker R" "\<lambda>s. ks_ok (db (rb_server s))"
  "\<lambda>s. ks_doc (db (rb_server s))" "\<lambda>s. ks_roster (db (rb_server s))" redis_cap
  by unfold_locales (simp_all add: redis_broker_def presence_up)

text \<open>An instance on Redis refines the abstract board as one on the in-process broker does.\<close>

sublocale redis_up \<subseteq> rst: steady_broker "redis_broker R" "\<lambda>s. ks_ok (db (rb_server s))"
  "\<lambda>s. ks_doc (db (rb_server s))" "\<lambda>s. ks_roster (db (rb_server s))" redis_cap
  by unfold_locales (auto simp: redis_broker_def apply_up snapshot_up dest!: presence_read recv_server)

text \<open>What the column can hold: a sequence number of 63 bits and shapes that encode to a text
  the database accepts.\<close>

definition pg_fits :: "(bytes \<Rightarrow> bytes \<Rightarrow> bool) \<Rightarrow> bytes \<Rightarrow> Snapshot \<Rightarrow> bool" where
  "pg_fits accepts b x \<longleftrightarrow> snap_Seq x < 2 ^ 63 \<and> (\<exists>js. marshal_shapes (snap_Shapes x) = Inr js \<and> accepts b js)"

locale postgres_up = postgres_db D rows jsonb for D :: "'d Database" and rows and jsonb +
  fixes accepts :: "bytes \<Rightarrow> bytes \<Rightarrow> bool"
  assumes select_up: "\<exists>p'. (\<exists>r. pg_select D p b = (Inr r, p')) \<or> pg_select D p b = (Inl pgx_ErrNoRows, p')"
    and upsert_up: "accepts b js \<Longrightarrow> \<exists>p'. pg_upsert D p b q js = (Inr (), p')"
begin

lemma load_up: "rows_ok (rows p) \<Longrightarrow> \<exists>r p'. ps_LoadSnapshot D p b = (Inr r, p')"
  using select_up [of p b]
  by (fastforce simp: ps_LoadSnapshot_def rows_ok_def split: prod.splits option.splits dest: select_law)

lemma save_up: "pg_fits accepts b x \<Longrightarrow> \<exists>p'. ps_SaveSnapshot D p b x = (Inr (), p')"
  using upsert_up [of b _ p "sint (snap_Seq x)"] by (auto simp: pg_fits_def ps_SaveSnapshot_def)

end

section \<open>Restart in production\<close>

definition empty_keyspace :: keyspace where
  "empty_keyspace = \<lparr>ks_str = Map.empty, ks_hash = (\<lambda>k. Map.empty)\<rparr>"

lemma empty_keyspace_ok: "ks_ok empty_keyspace" "ks_doc empty_keyspace b = empty_doc"
  by (simp_all add: ks_ok_def ks_typed_def keys_ok_def ks_doc_def empty_keyspace_def doc_ok_def empty_doc_def)

locale production = redis_up R db + postgres_up D rows jsonb accepts
  for R :: "'r RedisServer" and db and D :: "'d Database" and rows and jsonb and accepts +
  fixes flushed :: 'r
  assumes flushed_empty: "db flushed = empty_keyspace"

sublocale production \<subseteq> restart_contract "redis_broker R" "\<lambda>s. ks_ok (db (rb_server s))"
  "\<lambda>s. ks_doc (db (rb_server s))" "\<lambda>s. ks_roster (db (rb_server s))" redis_cap
  "postgres_store D" "\<lambda>p. rows_ok (rows p)" "\<lambda>p b. map_option row_snapshot (rows p b)" "pg_fits accepts" "jsonb_snapshot jsonb"
  "NewRedis flushed"
proof (unfold_locales, goal_cases)
  case (1 p b r p')
  then show ?case by (rule ps.load_law)
next
  case (2 p b x u p')
  then show ?case using ps.save_law [of p x b u p'] by (simp add: pg_fits_def)
next
  case (5 bs b)
  then show ?case using snapshot_up [of bs b] by (simp add: redis_broker_def)
next
  case (6 bs b snap)
  then show ?case using hydrate_up [of bs b snap] by (auto simp: redis_broker_def)
next
  case (7 ss b)
  then show ?case using load_up [of ss b] by (simp add: postgres_store_def)
next
  case (8 ss b snap)
  then show ?case using save_up [of b snap ss] by (simp add: postgres_store_def)
next
  case 9
  show ?case by (simp add: NewRedis_def flushed_empty empty_keyspace_ok)
next
  case (10 snap b)
  have "ks_ok (db (rb_server (NewRedis flushed)))" by (simp add: NewRedis_def flushed_empty empty_keyspace_ok)
  from hydrate_up [OF this, of b snap] show ?case by (auto simp: redis_broker_def NewRedis_def flushed_empty empty_keyspace_def)
qed (simp_all add: jsonb_snapshot_def comp_def)

text \<open>Shapes of a document that are valid JSON can be saved, and come back as the column writes them.\<close>

lemma snapshot_json:
  assumes "snapshot_of d snap" "\<forall>i q blob. d_shapes d i = Some (q, blob) \<longrightarrow> json_valid blob" "x \<in> set (snap_Shapes snap)"
  obtains t where "ss_Shape x = Some t" "json_valid t"
proof -
  have "d_shapes d (ss_ID x) = Some (ss_Seq x, slice_bytes (ss_Shape x))"
    using assms(1,3) doc_of_snapshot_iff [of snap "ss_ID x"] by (auto simp: snapshot_of_def snap_ok_def)
  then have v: "json_valid (slice_bytes (ss_Shape x))" using assms(2) by blast
  then have "slice_bytes (ss_Shape x) \<noteq> []" by (auto simp: json_valid_def scan_def)
  with v that show thesis by (cases "ss_Shape x") auto
qed

lemma snapshot_fits:
  assumes "snapshot_of d snap" "\<forall>i q blob. d_shapes d i = Some (q, blob) \<longrightarrow> json_valid blob" "d_seq d < 2 ^ 63"
    "\<forall>js. marshal_shapes (snap_Shapes snap) = Inr js \<longrightarrow> accepts b js"
  shows "pg_fits accepts b snap"
proof -
  have "\<not> (\<exists>e. marshal_SnapshotShape x = Inl e)" if "x \<in> set (snap_Shapes snap)" for x
    using snapshot_json [OF assms(1,2) that] unfolding marshal_SnapshotShape_Inl_iff by force
  then have "\<not> (\<exists>e. map_result marshal_SnapshotShape (snap_Shapes snap) = Inl e)" unfolding map_result_Inl_iff by blast
  then obtain vs where "map_result marshal_SnapshotShape (snap_Shapes snap) = Inr vs"
    by (cases "map_result marshal_SnapshotShape (snap_Shapes snap)") auto
  then show ?thesis
    using assms(3,4) snapshot_of_seq [OF assms(1)] by (simp add: pg_fits_def marshal_shapes_def)
qed

lemma doc_of_jsonb_snapshot:
  assumes "snapshot_of d snap" "\<forall>i q blob. d_shapes d i = Some (q, blob) \<longrightarrow> json_valid blob"
  shows "doc_of_snapshot (jsonb_snapshot jsonb snap) =
    \<lparr>d_seq = d_seq d, d_shapes = (\<lambda>i. map_option (\<lambda>(q, blob). (q, jsonb (compact False blob))) (d_shapes d i))\<rparr>"
proof -
  let ?f = "\<lambda>s. s\<lparr>ss_Shape := Some (jsonb (shape_json s))\<rparr>" and ?g = "\<lambda>(q, blob). (q, jsonb (compact False blob))"
  have "map_of (rev (map shape_entry (map ?f xs))) i = map_option ?g (map_of (rev (map shape_entry xs)) i)"
    if "set xs \<subseteq> set (snap_Shapes snap)" for xs i
    using that
  proof (induction xs)
    case (Cons x xs)
    then obtain t where "ss_Shape x = Some t" using snapshot_json [OF assms, of x] by auto
    with Cons show ?case by (auto simp: shape_entry_def shape_json_def map_add_def split: option.splits)
  qed simp
  then have "d_shapes (doc_of_snapshot (jsonb_snapshot jsonb snap)) i = map_option ?g (d_shapes (doc_of_snapshot snap) i)" for i
    by (simp add: doc_of_snapshot_def jsonb_snapshot_def del: map_map)
  moreover have "d_seq (doc_of_snapshot (jsonb_snapshot jsonb snap)) = d_seq d" "doc_of_snapshot snap = d"
    using snapshot_of_seq [OF assms(1)] assms(1) by (simp_all add: doc_of_snapshot_def jsonb_snapshot_def snapshot_of_def)
  ultimately show ?thesis by (simp add: doc.equality fun_eq_iff)
qed

context production
begin

lemma restart:
  assumes "ks_ok (db (rb_server s))" "rows_ok (rows p)"
    "\<forall>r. rows p b = Some r \<longrightarrow> snap_Seq (row_snapshot r) \<le> d_seq (ks_doc (db (rb_server s)) b)"
    "\<forall>i q blob. d_shapes (ks_doc (db (rb_server s)) b) i = Some (q, blob) \<longrightarrow> json_valid blob"
    "d_seq (ks_doc (db (rb_server s)) b) < 2 ^ 63"
    "\<forall>snap js. snapshot_of (ks_doc (db (rb_server s)) b) snap \<longrightarrow> marshal_shapes (snap_Shapes snap) = Inr js \<longrightarrow> accepts b js"
  shows "ks_doc (db (rb_server (fst (hydrate (redis_broker R) (postgres_store D)
      (NewRedis flushed, snd (save (redis_broker R) (postgres_store D) (s, p) b)) b)))) b =
    \<lparr>d_seq = d_seq (ks_doc (db (rb_server s)) b),
     d_shapes = (\<lambda>i. map_option (\<lambda>(q, blob). (q, jsonb (compact False blob))) (d_shapes (ks_doc (db (rb_server s)) b) i))\<rparr>"
proof -
  have fits: "pg_fits accepts b snap" if "snapshot_of (ks_doc (db (rb_server s)) b) snap" for snap
    using snapshot_fits [OF that assms(4,5)] assms(6) that by blast
  have newer: "snap_Seq y \<le> d_seq (ks_doc (db (rb_server s)) b)" if "map_option row_snapshot (rows p b) = Some y" for y
    using that assms(3) by auto
  obtain snap where "snapshot_of (ks_doc (db (rb_server s)) b) snap"
    "ks_doc (db (rb_server (fst (hydrate (redis_broker R) (postgres_store D)
      (NewRedis flushed, snd (save (redis_broker R) (postgres_store D) (s, p) b)) b)))) b = doc_of_snapshot (jsonb_snapshot jsonb snap)"
    using restart_roundtrip [OF assms(1,2) newer fits] by metis
  then show ?thesis using doc_of_jsonb_snapshot [OF _ assms(4)] by simp
qed

end

section \<open>Concrete services\<close>

definition sim_up :: "sim RedisServer" where
  "sim_up = sim_server\<lparr>rs_reply := (\<lambda>s. (None, s))\<rparr>"

lemma sim_up_fields:
  "rs_call sim_up = rs_call sim_server" "rs_send sim_up = rs_send sim_server" "rs_reply sim_up = (\<lambda>s. (None, s))"
  by (simp_all add: sim_up_def)

lemmas sim_laws = sim.send_keeps sim.error_keeps sim.exists_law sim.get_law sim.set_law sim.hset_law
  sim.hdel_law sim.hgetall_law sim.publish_keeps

interpretation simr: redis_server sim_up sim_db
proof (unfold_locales, unfold sim_up_fields, goal_cases)
  case (4 s e s' c)
  then show ?case using sim.no_nil_error [of s e s' c] by auto
next
  case (5 n s k r s')
  then show ?case by (rule sim.incr_law)
qed (erule sim_laws | simp)+

interpretation simprod: production sim_up sim_db pgsim_db "\<lambda>p. gomap_get (pg_rows p)" "\<lambda>v. v" "\<lambda>b js. True" sim_empty
proof (unfold_locales, goal_cases)
  case (3 s c)
  then show ?case
    by (cases c) (auto simp: sim_up_fields sim_server_def sim_counter_def sim_db_def dest!: format_int_digits split: option.splits)
next
  case 6
  show ?case by (simp add: sim_db_def sim_empty_def sim_fields_def empty_keyspace_def fun_eq_iff)
qed (auto simp: sim_up_fields sim_server_def pgsim_db_def split: option.splits)

section \<open>The two brokers agree\<close>

context redis_server
begin

lemma apply_log_agrees:
  assumes "Memory_ok m" "ks_ok (db (rb_server s))" "mem_doc m b = ks_doc (db (rb_server s)) b"
    "unat (d_seq (mem_doc m b)) + length ops < 10 ^ 14"
    "apply_log memory_broker b ops m = Some m1" "apply_log (redis_broker R) b ops s = Some s1"
    "mem_Snapshot m1 b = (Inr x, m2)" "rd_Snapshot R s1 b = (Inr y, s2)"
  shows "mem_doc m1 b = ks_doc (db (rb_server s1)) b" "snap_Seq x = snap_Seq y"
    "map shape_entry (snap_Shapes x) = map shape_entry (snap_Shapes y)"
proof -
  have "unat (d_seq (mem_doc m b)) + length ops \<le> unat (- 1 :: u64)"
    "unat (d_seq (ks_doc (db (rb_server s)) b)) + length ops \<le> unat redis_cap"
    using assms(3,4) by (simp_all add: redis_cap_def)
  note l = mem.apply_log_doc [OF assms(5,1) this(1)] rb.apply_log_doc [OF assms(6,2) this(2)]
  show d: "mem_doc m1 b = ks_doc (db (rb_server s1)) b" using l assms(3) by simp
  have "snapshot_of (mem_doc m1 b) x" using l assms(7) mem.snapshot_law [of m1 b x m2] by (simp add: memory_broker_def)
  moreover have "snapshot_of (mem_doc m1 b) y" unfolding d using l rd_Snapshot_law(2) [OF assms(8)] by blast
  ultimately show "snap_Seq x = snap_Seq y" "map shape_entry (snap_Shapes x) = map shape_entry (snap_Shapes y)"
    using snapshot_of_unique by blast+
qed

end

section \<open>Properties\<close>

text \<open>(C22)
  Durability in production: when the services answer, a board saved to Postgres and hydrated
  into an empty Redis has the sequence number, the shapes and the stamps it had, and each blob as
  the JSON column writes it, provided its blobs are valid JSON that Postgres accepts, its sequence
  number is below \<open>2 ^ 63\<close> and Postgres held no newer snapshot of it.
\<close>

theorem production_restart:
  assumes "production R db D rows jsonb accepts flushed" "ks_ok (db (rb_server s))" "rows_ok (rows p)"
    "\<forall>r. rows p b = Some r \<longrightarrow> snap_Seq (row_snapshot r) \<le> d_seq (ks_doc (db (rb_server s)) b)"
    "\<forall>i q blob. d_shapes (ks_doc (db (rb_server s)) b) i = Some (q, blob) \<longrightarrow> json_valid blob"
    "d_seq (ks_doc (db (rb_server s)) b) < 2 ^ 63"
    "\<forall>snap js. snapshot_of (ks_doc (db (rb_server s)) b) snap \<longrightarrow> marshal_shapes (snap_Shapes snap) = Inr js \<longrightarrow> accepts b js"
  shows "ks_doc (db (rb_server (fst (hydrate (redis_broker R) (postgres_store D)
      (NewRedis flushed, snd (save (redis_broker R) (postgres_store D) (s, p) b)) b)))) b =
    \<lparr>d_seq = d_seq (ks_doc (db (rb_server s)) b),
     d_shapes = (\<lambda>i. map_option (\<lambda>(q, blob). (q, jsonb (compact False blob))) (d_shapes (ks_doc (db (rb_server s)) b) i))\<rparr>"
  using production.restart [OF assms] .

theorem production_restart_witness:
  "d_shapes (ks_doc (sim_db (rb_server (fst (hydrate (redis_broker sim_up) (postgres_store pgsim_db)
      (NewRedis sim_empty, snd (save (redis_broker sim_up) (postgres_store pgsim_db)
        (snd (rd_ApplyShape sim_up (NewRedis sim_empty) ''x'' ''a'' (Some ''1'') False), \<lparr>pg_rows = []\<rparr>) ''x'')) ''x'')))) ''x'') ''a'' =
    Some (1, ''1'')"
proof -
  let ?r = "rd_ApplyShape sim_up (NewRedis sim_empty) ''x'' ''a'' (Some ''1'') False"
  have ok: "ks_ok (sim_db (rb_server (NewRedis sim_empty)))" "ks_doc (sim_db (rb_server (NewRedis sim_empty))) ''x'' = empty_doc"
    by (simp_all add: NewRedis_def sim_empty_ok)
  have cap: "d_seq (ks_doc (sim_db (rb_server (NewRedis sim_empty))) ''x'') < redis_cap"
    by (simp add: ok empty_doc_def redis_cap_def)
  have "\<not> isl (fst ?r)" by code_simp
  then obtain n where n: "?r = (Inr n, snd ?r)" by (metis isl_def prod.collapse sum.exhaust_sel)
  note a = simr.rd_ApplyShape_law [OF ok(1) cap n]
  have d: "ks_doc (sim_db (rb_server (snd ?r))) ''x'' = doc_apply ''a'' ''1'' False empty_doc"
    using a(2) ok(2) by (simp add: ks_doc_write)
  have v: "json_valid ''1''" "compact False ''1'' = ''1''" by code_simp+
  have h: "rows_ok (gomap_get (pg_rows \<lparr>pg_rows = []\<rparr>))"
    "\<forall>r. gomap_get (pg_rows \<lparr>pg_rows = []\<rparr>) ''x'' = Some r \<longrightarrow>
      snap_Seq (row_snapshot r) \<le> d_seq (ks_doc (sim_db (rb_server (snd ?r))) ''x'')"
    "\<forall>i q blob. d_shapes (ks_doc (sim_db (rb_server (snd ?r))) ''x'') i = Some (q, blob) \<longrightarrow> json_valid blob"
    "d_seq (ks_doc (sim_db (rb_server (snd ?r))) ''x'') < 2 ^ 63"
    using v(1) by (auto simp: rows_ok_def d doc_apply_def empty_doc_def split: if_splits)
  from production_restart [OF simprod.production_axioms a(3) h] d v(2)
  show ?thesis by (simp add: doc_apply_def empty_doc_def)
qed



end
