(* ===== verification/Durable.thy ===== *)
theory Durable
  imports HubLaws Production
begin

text \<open>
  The registry joined to the broker and the store: every board loads its snapshot before it serves
  anybody and saves a last one when it is told to quit (\<^verbatim>\<open>run\<close>, \<^verbatim>\<open>hydrate\<close>, \<^verbatim>\<open>persistOnClose\<close> in
  \<^verbatim>\<open>internal/hub/board.go\<close>), the coordinator saves the boards of the registry on every tick
  (\<^verbatim>\<open>snapshotAllBoards\<close>), and sessions apply operations meanwhile. Both calls of
  \<^verbatim>\<open>persistence.hydrate\<close> and of \<^verbatim>\<open>persistence.save\<close> are steps of their own, so a snapshot may be
  overtaken by operations and by other snapshots before it is written. A board that has come to
  rest is durable: the store's snapshot is that of its document.
\<close>

section \<open>Halves of the operations of the coordinator\<close>

text \<open>How far the goroutine of a board is.\<close>

datatype phase =
    Starting
  | Hydrating Snapshot   \<comment> \<open>before \<open>p.broker.Hydrate\<close>\<close>
  | Looping
  | Saving Snapshot      \<comment> \<open>before \<open>p.store.SaveSnapshot\<close> of the final checkpoint\<close>
  | Ended

text \<open>How far \<^verbatim>\<open>snapshotLoop\<close> is: the boards still to be saved, and the snapshot in its hands.\<close>

datatype round =
    Sleeping
  | Round "bytes list"
  | RoundSaving bytes Snapshot "bytes list"

text \<open>\<^verbatim>\<open>hydrate\<close> up to the return of \<^verbatim>\<open>LoadSnapshot\<close>, and where it leaves the board.\<close>

definition hydrate_load :: "'s Store \<Rightarrow> bytes \<Rightarrow> 's \<Rightarrow> phase \<times> 's" where
  "hydrate_load S boardID ss =
     (case st_LoadSnapshot S ss boardID of
        (Inl err, s1) \<Rightarrow> (Looping, s1)
      | (Inr None, s1) \<Rightarrow> (Looping, s1)
      | (Inr (Some snap), s1) \<Rightarrow> (Hydrating snap, s1))"

text \<open>\<^verbatim>\<open>save\<close> up to the return of \<^verbatim>\<open>Snapshot\<close>, with the snapshot it goes on to write.\<close>

definition save_fetch :: "'b Broker \<Rightarrow> bytes \<Rightarrow> 'b \<Rightarrow> Snapshot option \<times> 'b" where
  "save_fetch B boardID bs =
     (case br_Snapshot B bs boardID of
        (Inl err, b1) \<Rightarrow> (None, b1)
      | (Inr snap, b1) \<Rightarrow> (Some snap, b1))"

lemma hydrate_halves:
  "hydrate B S (bs, ss) bid =
     (case hydrate_load S bid ss of (Hydrating snap, s1) \<Rightarrow> (snd (br_Hydrate B bs bid snap), s1) | (_, s1) \<Rightarrow> (bs, s1))"
  by (simp add: hydrate_def hydrate_load_def split: prod.split sum.split option.split)

lemma save_halves:
  "save B S (bs, ss) bid =
     (case save_fetch B bid bs of (None, b1) \<Rightarrow> (b1, ss) | (Some snap, b1) \<Rightarrow> (b1, snd (st_SaveSnapshot S ss bid snap)))"
  by (simp add: save_def save_fetch_def split: prod.split sum.split)

section \<open>Steps\<close>

text \<open>
  The list \<open>du_late\<close> is bookkeeping: ids of boards that had an operation after their final snapshot
  was taken, by a session that had not noticed yet, or whose final checkpoint failed.
\<close>

record ('b, 's) Durable =
  du_hub :: Hub
  du_broker :: 'b
  du_store :: 's
  du_phase :: "nat \<Rightarrow> phase"
  du_round :: round
  du_late :: "bytes list"

definition du_start :: "'b \<Rightarrow> 's \<Rightarrow> ('b, 's) Durable" where
  "du_start bs ss = \<lparr>du_hub = New True, du_broker = bs, du_store = ss, du_phase = (\<lambda>b. Starting), du_round = Sleeping, du_late = []\<rparr>"

abbreviation board_id :: "('b, 's) Durable \<Rightarrow> nat \<Rightarrow> bytes" where
  "board_id x b \<equiv> h_ids (du_hub x) ! b"

definition storable :: "(bytes \<Rightarrow> Snapshot \<Rightarrow> bool) \<Rightarrow> bytes \<Rightarrow> doc \<Rightarrow> bool" where
  "storable fits bid d \<longleftrightarrow> (\<forall>x. snapshot_of d x \<longrightarrow> fits bid x)"

text \<open>
  A step of the registry other than the return of a board happens as it is, but that a board that
  is not in its loop receives no registration. Operations are those that leave the
  sequence number in its range and a document the store can represent.
\<close>

inductive durable_step ::
  "'b Broker \<Rightarrow> 's Store \<Rightarrow> ('b \<Rightarrow> bytes \<Rightarrow> doc) \<Rightarrow> u64 \<Rightarrow> (bytes \<Rightarrow> Snapshot \<Rightarrow> bool) \<Rightarrow>
   ('b, 's) Durable \<Rightarrow> ('b, 's) Durable \<Rightarrow> bool"
  for B S doc cap fits where
  hub: "hub_step (du_hub x) h \<Longrightarrow> h_done h = h_done (du_hub x) \<Longrightarrow>
    (\<And>c b. at_pc (du_hub x) c (Registering b) \<Longrightarrow> at_pc h c (Serving b) \<Longrightarrow> du_phase x b = Looping) \<Longrightarrow>
    durable_step B S doc cap fits x (x\<lparr>du_hub := h\<rparr>)"
| load: "b < length (h_ids (du_hub x)) \<Longrightarrow> du_phase x b = Starting \<Longrightarrow>
    hydrate_load S (board_id x b) (du_store x) = (p, ss) \<Longrightarrow>
    durable_step B S doc cap fits x (x\<lparr>du_store := ss, du_phase := (du_phase x)(b := p)\<rparr>)"
| hydrate: "du_phase x b = Hydrating snap \<Longrightarrow> br_Hydrate B (du_broker x) (board_id x b) snap = (r, bs) \<Longrightarrow>
    storable fits (board_id x b) (doc bs (board_id x b)) \<Longrightarrow>
    durable_step B S doc cap fits x (x\<lparr>du_broker := bs, du_phase := (du_phase x)(b := Looping)\<rparr>)"
| apply_op: "at_pc (du_hub x) c (Serving b) \<Longrightarrow> d_seq (doc (du_broker x) (board_id x b)) < cap \<Longrightarrow>
    br_ApplyShape B (du_broker x) (board_id x b) i sh del = (r, bs) \<Longrightarrow>
    storable fits (board_id x b) (doc bs (board_id x b)) \<Longrightarrow>
    durable_step B S doc cap fits x
      (x\<lparr>du_broker := bs, du_late := if du_phase x b = Looping then du_late x else board_id x b # du_late x\<rparr>)"
| publish: "br_Publish B (du_broker x) bid m = (r, bs) \<Longrightarrow> durable_step B S doc cap fits x (x\<lparr>du_broker := bs\<rparr>)"
| final_fetch: "b \<in> set (h_quit (du_hub x)) \<Longrightarrow> du_phase x b = Looping \<Longrightarrow>
    save_fetch B (board_id x b) (du_broker x) = (Some snap, bs) \<Longrightarrow>
    durable_step B S doc cap fits x
      (x\<lparr>du_broker := bs, du_phase := (du_phase x)(b := Saving snap), du_late := removeAll (board_id x b) (du_late x)\<rparr>)"
| final_fetch_fails: "b \<in> set (h_quit (du_hub x)) \<Longrightarrow> du_phase x b = Looping \<Longrightarrow>
    save_fetch B (board_id x b) (du_broker x) = (None, bs) \<Longrightarrow>
    durable_step B S doc cap fits x
      (x\<lparr>du_broker := bs, du_phase := (du_phase x)(b := Ended), du_late := board_id x b # du_late x\<rparr>)"
| final_store: "du_phase x b = Saving snap \<Longrightarrow> st_SaveSnapshot S (du_store x) (board_id x b) snap = (r, ss) \<Longrightarrow>
    durable_step B S doc cap fits x
      (x\<lparr>du_store := ss, du_phase := (du_phase x)(b := Ended),
         du_late := case r of Inl err \<Rightarrow> board_id x b # du_late x | Inr u \<Rightarrow> du_late x\<rparr>)"
| returns: "du_phase x b = Ended \<Longrightarrow> b \<notin> set (h_done (du_hub x)) \<Longrightarrow> h = du_hub x \<Longrightarrow>
    durable_step B S doc cap fits x
      (x\<lparr>du_hub := h_emit BoardClosed (h\<lparr>h_members := (h_members h)(b := []), h_done := b # h_done h\<rparr>)\<rparr>)"
| tick: "du_round x = Sleeping \<Longrightarrow> h_stop (du_hub x) \<noteq> None \<Longrightarrow>
    durable_step B S doc cap fits x (x\<lparr>du_round := Round (map fst (h_boards (du_hub x)))\<rparr>)"
| round_fetch: "du_round x = Round (bid # ids) \<Longrightarrow> save_fetch B bid (du_broker x) = (r, bs) \<Longrightarrow>
    durable_step B S doc cap fits x
      (x\<lparr>du_broker := bs, du_round := case r of None \<Rightarrow> Round ids | Some snap \<Rightarrow> RoundSaving bid snap ids\<rparr>)"
| round_store: "du_round x = RoundSaving bid snap ids \<Longrightarrow> st_SaveSnapshot S (du_store x) bid snap = (r, ss) \<Longrightarrow>
    durable_step B S doc cap fits x (x\<lparr>du_store := ss, du_round := Round ids\<rparr>)"
| round_ends: "du_round x = Round [] \<Longrightarrow> durable_step B S doc cap fits x (x\<lparr>du_round := Sleeping\<rparr>)"

inductive durable_reach ::
  "'b Broker \<Rightarrow> 's Store \<Rightarrow> ('b \<Rightarrow> bytes \<Rightarrow> doc) \<Rightarrow> u64 \<Rightarrow> (bytes \<Rightarrow> Snapshot \<Rightarrow> bool) \<Rightarrow> 'b \<Rightarrow> 's \<Rightarrow>
   ('b, 's) Durable \<Rightarrow> bool"
  for B S doc cap fits bs ss where
  start: "durable_reach B S doc cap fits bs ss (du_start bs ss)"
| step: "durable_reach B S doc cap fits bs ss x \<Longrightarrow> durable_step B S doc cap fits x y \<Longrightarrow> durable_reach B S doc cap fits bs ss y"

section \<open>What the snapshots on their way are worth\<close>

text \<open>
  A snapshot the program wrote: sorted, and empty if nothing has happened yet. A stored one is
  that of the document, written the store's way, or of an earlier moment.
\<close>

definition proper :: "Snapshot \<Rightarrow> bool" where
  "proper y \<longleftrightarrow> snap_ok y \<and> sorted (map ss_Seq (snap_Shapes y)) \<and> (snap_Seq y = 0 \<longrightarrow> snap_Shapes y = [])"

definition matches :: "(Snapshot \<Rightarrow> Snapshot) \<Rightarrow> doc \<Rightarrow> Snapshot \<Rightarrow> bool" where
  "matches norm d y \<longleftrightarrow> (\<exists>x. snapshot_of d x \<and> (y = x \<or> y = norm x))"

definition stored_ok :: "(Snapshot \<Rightarrow> Snapshot) \<Rightarrow> doc \<Rightarrow> Snapshot option \<Rightarrow> bool" where
  "stored_ok norm d s \<longleftrightarrow>
     (\<forall>y. s = Some y \<longrightarrow> proper y \<and> (d_seq d = 0 \<or> snap_Seq y < d_seq d \<or> matches norm d y))"

definition doc_proper :: "doc \<Rightarrow> bool" where
  "doc_proper d \<longleftrightarrow> (d_seq d = 0 \<longrightarrow> d = empty_doc)"

definition taken :: "doc \<Rightarrow> Snapshot \<Rightarrow> bool" where
  "taken d x \<longleftrightarrow> proper x \<and> (snap_Seq x < d_seq d \<or> snapshot_of d x)"

definition hydrated :: "doc \<Rightarrow> Snapshot option \<Rightarrow> bool" where
  "hydrated d s \<longleftrightarrow> (\<forall>y. s = Some y \<longrightarrow> d_seq d = 0 \<longrightarrow> snap_Seq y = 0)"

fun phase_ok :: "(Snapshot \<Rightarrow> bool) \<Rightarrow> doc \<Rightarrow> Snapshot option \<Rightarrow> phase \<Rightarrow> bool" where
  "phase_ok f d s Starting \<longleftrightarrow> True"
| "phase_ok f d s (Hydrating l) \<longleftrightarrow>
     proper l \<and> (d_seq d = 0 \<longrightarrow> (\<exists>y. s = Some y \<and> (y = l \<or> snap_Seq y = 0 \<and> snap_Seq l = 0)))"
| "phase_ok f d s Looping \<longleftrightarrow> hydrated d s"
| "phase_ok f d s (Saving x) \<longleftrightarrow> hydrated d s \<and> taken d x \<and> f x"
| "phase_ok f d s Ended \<longleftrightarrow> hydrated d s"

fun started :: "phase \<Rightarrow> bool" where
  "started Starting \<longleftrightarrow> False"
| "started (Hydrating l) \<longleftrightarrow> False"
| "started p \<longleftrightarrow> True"

fun closed :: "phase \<Rightarrow> bool" where
  "closed (Saving x) \<longleftrightarrow> True"
| "closed Ended \<longleftrightarrow> True"
| "closed p \<longleftrightarrow> False"

text \<open>Phases of the boards of one id that promise the document will be, or is, in the store.\<close>

definition promised :: "doc \<Rightarrow> Snapshot option \<Rightarrow> phase set \<Rightarrow> bool" where
  "promised d s ps \<longleftrightarrow>
     ps = {} \<or> (\<exists>p \<in> ps. \<not> closed p \<or> (\<exists>x. p = Saving x \<and> snapshot_of d x)) \<or> (\<exists>y. s = Some y \<and> snap_Seq y = d_seq d)"

lemma snapshot_of_proper:
  assumes "snapshot_of d x" "doc_proper d"
  shows "proper x"
proof -
  have s: "snap_ok x" "sorted (map ss_Seq (snap_Shapes x))" "doc_of_snapshot x = d" using assms(1) by (simp_all add: snapshot_of_def)
  have "snap_Shapes x = []" if z: "snap_Seq x = 0"
  proof -
    have "d = empty_doc" using assms z snapshot_of_seq [OF assms(1)] by (simp add: doc_proper_def)
    then have "d_shapes (doc_of_snapshot x) i = None" for i using s(3) by (simp add: empty_doc_def)
    then show ?thesis
      using doc_of_snapshot_iff [of x] s(1) by (cases "snap_Shapes x") (auto simp: snap_ok_def)
  qed
  with s show ?thesis by (simp add: proper_def)
qed

lemma proper_doc:
  assumes "proper y"
  shows "snapshot_of (doc_of_snapshot y) y" "doc_proper (doc_of_snapshot y)"
  using assms by (auto simp: proper_def snapshot_of_def doc_proper_def doc_of_snapshot_def empty_doc_def)

lemma empty_snapshot:
  assumes "proper y" "snap_Seq y = 0"
  shows "snapshot_of empty_doc y"
  using assms proper_doc(1) [OF assms(1)] by (simp add: proper_def doc_of_snapshot_def empty_doc_def)

section \<open>How the data moves\<close>

text \<open>An operation with the next sequence number.\<close>

lemma grown_seq:
  assumes "d_seq d < (cap :: u64)"
  shows "d_seq d < d_seq (doc_apply i blob del d)" "d_seq (doc_apply i blob del d) \<noteq> 0"
proof -
  show l: "d_seq d < d_seq (doc_apply i blob del d)"
    using assms less_Suc_u64 [of "d_seq d"] word_n1_ge [of cap] by fastforce
  then show "d_seq (doc_apply i blob del d) \<noteq> 0" by auto
qed

lemma taken_older: "taken d x \<Longrightarrow> d_seq d < d_seq d' \<Longrightarrow> taken d' x"
  using snapshot_of_seq [of d x] by (auto simp: taken_def)

lemma stored_older: "stored_ok norm d s \<Longrightarrow> hydrated d s \<Longrightarrow> (\<And>x. snapshot_of d x \<Longrightarrow> snap_Seq (norm x) = snap_Seq x) \<Longrightarrow>
    d_seq d < d_seq d' \<Longrightarrow> stored_ok norm d' s"
  using snapshot_of_seq [of d] by (fastforce simp: stored_ok_def hydrated_def matches_def)

lemma phase_older: "phase_ok f d s p \<Longrightarrow> d_seq d < d_seq d' \<Longrightarrow> phase_ok f d' s p"
  using taken_older [of d _ d'] by (cases p) (auto simp: hydrated_def)

text \<open>A snapshot is loaded into a document nothing has happened to.\<close>

lemma fresh_doc:
  assumes "doc_proper d" "\<not> has_state d"
  shows "d = empty_doc" "d_seq d = 0"
  using assms by (auto simp: doc_proper_def has_state_def)

lemma taken_loaded:
  assumes "taken d x" "d_seq d = 0" "proper l"
  shows "taken (doc_of_snapshot l) x"
proof -
  have x: "snap_Seq x = 0" "proper x" using assms(1,2) snapshot_of_seq by (auto simp: taken_def)
  show ?thesis
  proof (cases "snap_Seq l = 0")
    case True
    then have "doc_of_snapshot l = empty_doc" using proper_doc(2) [OF assms(3)] by (simp add: doc_proper_def doc_of_snapshot_def)
    with x empty_snapshot show ?thesis by (simp add: taken_def)
  next
    case False
    then have "0 < snap_Seq l" by (simp add: word_neq_0_conv)
    with x show ?thesis by (simp add: taken_def doc_of_snapshot_def)
  qed
qed

lemma stored_loaded:
  assumes "stored_ok norm d s" "phase_ok f d s (Hydrating l)" "d_seq d = 0"
  shows "stored_ok norm (doc_of_snapshot l) s" "hydrated (doc_of_snapshot l) s"
proof -
  obtain y where y: "s = Some y" "y = l \<or> snap_Seq y = 0 \<and> snap_Seq l = 0" "proper l" using assms(2,3) by auto
  moreover have "proper y" using assms(1) y(1) by (simp add: stored_ok_def)
  ultimately show "stored_ok norm (doc_of_snapshot l) s" "hydrated (doc_of_snapshot l) s"
    using proper_doc(1) [OF y(3)] by (auto simp: stored_ok_def hydrated_def matches_def doc_of_snapshot_def)
qed

lemma phase_loaded:
  assumes "phase_ok f d s p" "hydrated (doc_of_snapshot l) s" "d_seq d = 0" "proper l"
  shows "phase_ok f (doc_of_snapshot l) s p"
proof (cases p)
  case (Hydrating k)
  then show ?thesis using assms(1,3) by auto
qed (use assms taken_loaded [OF _ assms(3,4)] in auto)

text \<open>A snapshot in somebody's hands is written, unless the store has a newer one.\<close>

definition put :: "(Snapshot \<Rightarrow> Snapshot) \<Rightarrow> Snapshot option \<Rightarrow> Snapshot \<Rightarrow> Snapshot option" where
  "put norm s x = (if stale s x then s else Some (norm x))"

lemma taken_seq: "taken d x \<Longrightarrow> snap_Seq x \<le> d_seq d"
  using snapshot_of_seq [of d x] by (auto simp: taken_def)

lemma stored_put:
  assumes "stored_ok norm d s" "taken d x" "proper (norm x)" "snap_Seq (norm x) = snap_Seq x"
  shows "stored_ok norm d (put norm s x)"
  using assms by (auto simp: stored_ok_def taken_def put_def matches_def)

lemma hydrated_put:
  assumes "hydrated d s" "taken d x" "snap_Seq (norm x) = snap_Seq x"
  shows "hydrated d (put norm s x)"
  using assms taken_seq [OF assms(2)] by (auto simp: hydrated_def put_def)

lemma phase_put:
  assumes "phase_ok f d s p" "taken d x" "snap_Seq (norm x) = snap_Seq x"
  shows "phase_ok f d (put norm s x) p"
proof (cases p)
  case (Hydrating l)
  then show ?thesis using assms taken_seq [OF assms(2)] by (auto simp: put_def stale_def word_neq_0_conv [symmetric])
qed (use assms hydrated_put in auto)

lemma promised_put:
  assumes "promised d s ps" "taken d x" "snap_Seq (norm x) = snap_Seq x"
  shows "promised d (put norm s x) ps"
  using assms taken_seq [OF assms(2)] by (auto simp: promised_def put_def stale_def)

lemma final_put:
  assumes "hydrated d s" "stored_ok norm d s" "snapshot_of d x"
    "\<And>x. snapshot_of d x \<Longrightarrow> snap_Seq (norm x) = snap_Seq x"
  shows "\<exists>y. put norm s x = Some y \<and> snap_Seq y = d_seq d"
proof -
  have "snap_Seq y \<le> d_seq d" if "s = Some y" for y
    using assms that snapshot_of_seq by (fastforce simp: hydrated_def stored_ok_def matches_def)
  then have "\<not> stale s x" using snapshot_of_seq [OF assms(3)] by (auto simp: stale_def split: option.split)
  with assms(3,4) snapshot_of_seq show ?thesis by (simp add: put_def)
qed

text \<open>A board at rest, all of whose promises are kept, is in the store as it is.\<close>

lemma promise_kept:
  assumes "promised d s ps" "ps = {Ended}" "stored_ok norm d s" "doc_proper d"
  obtains y where "s = Some y" "matches norm d y"
proof -
  obtain y where y: "s = Some y" "snap_Seq y = d_seq d" using assms(1,2) by (auto simp: promised_def)
  then have "proper y" using assms(3) by (simp add: stored_ok_def)
  then have "matches norm d y"
    using assms(3,4) y empty_snapshot [of y] by (auto simp: stored_ok_def doc_proper_def matches_def)
  with y that show thesis by blast
qed

section \<open>The invariant of the data\<close>

abbreviation boards_of :: "bytes list \<Rightarrow> bytes \<Rightarrow> nat set" where
  "boards_of ids bid \<equiv> {b. b < length ids \<and> ids ! b = bid}"

definition data_ok ::
  "(Snapshot \<Rightarrow> Snapshot) \<Rightarrow> (bytes \<Rightarrow> Snapshot \<Rightarrow> bool) \<Rightarrow> (bytes \<Rightarrow> doc) \<Rightarrow> (bytes \<rightharpoonup> Snapshot) \<Rightarrow> bytes list \<Rightarrow>
   (nat \<Rightarrow> phase) \<Rightarrow> round \<Rightarrow> bytes list \<Rightarrow> bool" where
  "data_ok norm fits d st ids ph rd late \<longleftrightarrow>
     (\<forall>bid. stored_ok norm (d bid) (st bid) \<and> doc_proper (d bid) \<and> storable fits bid (d bid)) \<and>
     (\<forall>b < length ids. phase_ok (fits (ids ! b)) (d (ids ! b)) (st (ids ! b)) (ph b)) \<and>
     (\<forall>i x js. rd = RoundSaving i x js \<longrightarrow> taken (d i) x \<and> fits i x) \<and>
     (\<forall>bid. bid \<in> set late \<or> promised (d bid) (st bid) (ph ` boards_of ids bid))"

lemma data_okD:
  assumes "data_ok norm fits d st ids ph rd late"
  shows "stored_ok norm (d bid) (st bid)" "doc_proper (d bid)" "storable fits bid (d bid)"
    "b < length ids \<Longrightarrow> phase_ok (fits (ids ! b)) (d (ids ! b)) (st (ids ! b)) (ph b)"
    "rd = RoundSaving i x js \<Longrightarrow> taken (d i) x \<and> fits i x"
    "bid \<in> set late \<or> promised (d bid) (st bid) (ph ` boards_of ids bid)"
  using assms unfolding data_ok_def by blast+

lemma data_okI:
  assumes "\<And>bid. stored_ok norm (d bid) (st bid)" "\<And>bid. doc_proper (d bid)" "\<And>bid. storable fits bid (d bid)"
    "\<And>b. b < length ids \<Longrightarrow> phase_ok (fits (ids ! b)) (d (ids ! b)) (st (ids ! b)) (ph b)"
    "\<And>i x js. rd = RoundSaving i x js \<Longrightarrow> taken (d i) x \<and> fits i x"
    "\<And>bid. bid \<in> set late \<or> promised (d bid) (st bid) (ph ` boards_of ids bid)"
  shows "data_ok norm fits d st ids ph rd late"
  using assms unfolding data_ok_def by blast

text \<open>A board moves on by itself.\<close>

lemma data_phase:
  assumes ok: "data_ok norm fits d st ids ph rd late" and b: "b < length ids"
    and p: "phase_ok (fits (ids ! b)) (d (ids ! b)) (st (ids ! b)) p"
    and l: "set late - {ids ! b} \<subseteq> set late'"
    and pr: "ids ! b \<in> set late' \<or> promised (d (ids ! b)) (st (ids ! b)) (ph(b := p) ` boards_of ids (ids ! b))"
  shows "data_ok norm fits d st ids (ph(b := p)) rd late'"
proof (rule data_okI)
  fix bid
  show "bid \<in> set late' \<or> promised (d bid) (st bid) (ph(b := p) ` boards_of ids bid)"
  proof (cases "bid = ids ! b")
    case False
    then have "ph(b := p) ` boards_of ids bid = ph ` boards_of ids bid" by auto
    with False l data_okD(6) [OF ok] show ?thesis by auto
  qed (use pr in simp)
qed (use data_okD [OF ok] p in auto)

lemma promised_open:
  "b < length ids \<Longrightarrow> \<not> closed p \<or> (\<exists>x. p = Saving x \<and> snapshot_of d x) \<Longrightarrow>
    promised d s (ph(b := p) ` boards_of ids (ids ! b))"
proof -
  assume b: "b < length ids" and p: "\<not> closed p \<or> (\<exists>x. p = Saving x \<and> snapshot_of d x)"
  have "p \<in> ph(b := p) ` boards_of ids (ids ! b)" using b by auto
  with p show ?thesis unfolding promised_def by blast
qed

lemma data_apply:
  assumes ok: "data_ok norm fits d st ids ph rd late" and b: "b < length ids" "started (ph b)"
    and seq: "d_seq (d (ids ! b)) < cap" and st: "storable fits (ids ! b) (doc_apply i blob del (d (ids ! b)))"
    and norm: "\<And>bid x. fits bid x \<Longrightarrow> snap_Seq (norm x) = snap_Seq x"
  shows "data_ok norm fits (d(ids ! b := doc_apply i blob del (d (ids ! b)))) st ids ph rd
    (if ph b = Looping then late else ids ! b # late)"
proof -
  let ?i = "ids ! b" and ?d = "doc_apply i blob del (d (ids ! b))"
  note lt = grown_seq(1) [OF seq, of i blob del] and D = data_okD [OF ok]
  have h: "hydrated (d ?i) (st ?i)" using D(4) [OF b(1)] b(2) by (cases "ph b") auto
  show ?thesis
  proof (rule data_okI)
    fix bid
    show "stored_ok norm ((d(?i := ?d)) bid) (st bid)"
      using D(1) stored_older [OF D(1) h _ lt] norm D(3) [of ?i] by (auto simp: storable_def)
    show "doc_proper ((d(?i := ?d)) bid)" using D(2) grown_seq(2) [OF seq] by (simp add: doc_proper_def)
    show "storable fits bid ((d(?i := ?d)) bid)" using D(3) st by simp
    show "bid \<in> set (if ph b = Looping then late else ?i # late) \<or>
        promised ((d(?i := ?d)) bid) (st bid) (ph ` boards_of ids bid)"
    proof (cases "bid = ?i \<and> ph b = Looping")
      case True
      then have "Looping \<in> ph ` boards_of ids bid" using b(1) by force
      then show ?thesis using True by (auto simp: promised_def)
    qed (use D(6) [of bid] in auto)
  next
    fix a assume a: "a < length ids"
    show "phase_ok (fits (ids ! a)) ((d(?i := ?d)) (ids ! a)) (st (ids ! a)) (ph a)"
      using D(4) [OF a] phase_older [OF _ lt] by (cases "ids ! a = ?i") auto
  next
    fix j x js assume "rd = RoundSaving j x js"
    then show "taken ((d(?i := ?d)) j) x \<and> fits j x" using D(5) [of j x js] taken_older [OF _ lt] by auto
  qed
qed

lemma data_loaded:
  assumes ok: "data_ok norm fits d st ids ph rd late" and b: "b < length ids" "ph b = Hydrating l"
    and e: "d_seq (d (ids ! b)) = 0" and st: "storable fits (ids ! b) (doc_of_snapshot l)"
  shows "data_ok norm fits (d(ids ! b := doc_of_snapshot l)) st ids (ph(b := Looping)) rd late"
proof -
  let ?i = "ids ! b" and ?d = "doc_of_snapshot l"
  note D = data_okD [OF ok]
  have p: "phase_ok (fits ?i) (d ?i) (st ?i) (Hydrating l)" using D(4) [OF b(1)] b(2) by simp
  then have l: "proper l" by simp
  note L = stored_loaded [OF D(1) p e]
  show ?thesis
  proof (rule data_okI)
    fix bid
    show "stored_ok norm ((d(?i := ?d)) bid) (st bid)" using D(1) L(1) by simp
    show "doc_proper ((d(?i := ?d)) bid)" using D(2) proper_doc(2) [OF l] by simp
    show "storable fits bid ((d(?i := ?d)) bid)" using D(3) st by simp
    show "bid \<in> set late \<or> promised ((d(?i := ?d)) bid) (st bid) (ph(b := Looping) ` boards_of ids bid)"
    proof (cases "bid = ?i")
      case False
      then have "ph(b := Looping) ` boards_of ids bid = ph ` boards_of ids bid" by auto
      with False D(6) [of bid] show ?thesis by simp
    qed (use promised_open [OF b(1)] in simp)
  next
    fix a assume a: "a < length ids"
    show "phase_ok (fits (ids ! a)) ((d(?i := ?d)) (ids ! a)) (st (ids ! a)) ((ph(b := Looping)) a)"
      using D(4) [OF a] phase_loaded [OF _ L(2) e l] L(2) by (cases "ids ! a = ?i") auto
  next
    fix j x js assume "rd = RoundSaving j x js"
    then show "taken ((d(?i := ?d)) j) x \<and> fits j x" using D(5) [of j x js] taken_loaded [OF _ e l] by auto
  qed
qed

lemma data_put:
  assumes ok: "data_ok norm fits d st ids ph rd late" and x: "taken (d i) x" "fits i x"
    and norm: "\<And>bid x. fits bid x \<Longrightarrow> snap_Seq (norm x) = snap_Seq x" "proper (norm x)"
  shows "data_ok norm fits d (st(i := put norm (st i) x)) ids ph rd late"
proof (rule data_okI)
  note D = data_okD [OF ok] and n = norm(1) [OF x(2)]
  fix bid
  show "stored_ok norm (d bid) ((st(i := put norm (st i) x)) bid)" using D(1) stored_put [where norm = norm, OF D(1) x(1) norm(2) n] by simp
  show "bid \<in> set late \<or> promised (d bid) ((st(i := put norm (st i) x)) bid) (ph ` boards_of ids bid)"
    using D(6) [of bid] promised_put [where norm = norm, OF _ x(1) n] by auto
next
  fix a assume a: "a < length ids"
  show "phase_ok (fits (ids ! a)) (d (ids ! a)) ((st(i := put norm (st i) x)) (ids ! a)) (ph a)"
    using data_okD(4) [OF ok a] phase_put [where norm = norm, OF _ x(1) norm(1) [OF x(2)]] by (cases "ids ! a = i") auto
qed (use data_okD [OF ok] in auto)

lemma data_round: "data_ok norm fits d st ids ph rd late \<Longrightarrow> (\<And>i x js. rd' = RoundSaving i x js \<Longrightarrow> taken (d i) x \<and> fits i x) \<Longrightarrow>
    data_ok norm fits d st ids ph rd' late"
  by (auto simp: data_ok_def)

lemma data_ids:
  assumes ok: "data_ok norm fits d st ids ph rd late" and new: "\<And>b. length ids \<le> b \<Longrightarrow> ph b = Starting"
  shows "data_ok norm fits d st (ids @ ns) ph rd late"
proof (rule data_okI)
  fix bid
  show "bid \<in> set late \<or> promised (d bid) (st bid) (ph ` boards_of (ids @ ns) bid)"
  proof (cases "bid \<in> set ns")
    case True
    then obtain k where "k < length ns" "ns ! k = bid" by (auto simp: in_set_conv_nth)
    then have "length ids + k \<in> boards_of (ids @ ns) bid" "ph (length ids + k) = Starting" using new by (simp_all add: nth_append)
    then have "Starting \<in> ph ` boards_of (ids @ ns) bid" by (intro image_eqI [where x = "length ids + k"]) simp_all
    moreover have "\<not> closed Starting" by simp
    ultimately show ?thesis unfolding promised_def by blast
  next
    case False
    have "b \<in> boards_of (ids @ ns) bid \<longleftrightarrow> b \<in> boards_of ids bid" for b
    proof (cases "b < length ids")
      case False
      then have "ns ! (b - length ids) \<in> set ns" if "b < length (ids @ ns)" using that by auto
      with False \<open>bid \<notin> set ns\<close> show ?thesis by (auto simp: nth_append)
    qed (simp add: nth_append)
    then have "boards_of (ids @ ns) bid = boards_of ids bid" by blast
    with data_okD(6) [OF ok, of bid] show ?thesis by simp
  qed
next
  fix b assume "b < length (ids @ ns)"
  show "phase_ok (fits ((ids @ ns) ! b)) (d ((ids @ ns) ! b)) (st ((ids @ ns) ! b)) (ph b)"
    using data_okD(4) [OF ok, of b] new [of b] by (cases "b < length ids") (auto simp: nth_append)
qed (use data_okD(1,2,3,5) [OF ok] in blast)+

section \<open>The invariant of the boards' lives\<close>

definition life_ok :: "Hub \<Rightarrow> (nat \<Rightarrow> phase) \<Rightarrow> bytes list \<Rightarrow> bool" where
  "life_ok h ph late \<longleftrightarrow>
     (\<forall>b. length (h_ids h) \<le> b \<longrightarrow> ph b = Starting) \<and>
     (\<forall>b. Serving b \<in> set (h_conns h) \<longrightarrow> started (ph b)) \<and>
     (\<forall>b. closed (ph b) \<longrightarrow> b \<in> set (h_quit h)) \<and>
     (\<forall>b \<in> set (h_done h). ph b = Ended) \<and>
     (late \<noteq> [] \<longrightarrow> h_closing h)"

lemma life_phase:
  assumes "life_ok h ph late" "b < length (h_ids h)" "Serving b \<in> set (h_conns h) \<Longrightarrow> started p"
    "closed p \<Longrightarrow> b \<in> set (h_quit h)" "b \<in> set (h_done h) \<Longrightarrow> p = Ended" "late' \<noteq> [] \<Longrightarrow> h_closing h"
  shows "life_ok h (ph(b := p)) late'"
  using assms by (auto simp: life_ok_def)

text \<open>What a step of the registry can do to the things the boards depend on.\<close>

lemma hub_step_grows:
  assumes "hub_step h h'"
  obtains ns where "h_ids h' = h_ids h @ ns" "set (h_quit h) \<subseteq> set (h_quit h')" "h_closing h \<longrightarrow> h_closing h'"
proof -
  have "\<exists>ns. h_ids h' = h_ids h @ ns \<and> set (h_quit h) \<subseteq> set (h_quit h') \<and> (h_closing h \<longrightarrow> h_closing h')"
    using assms
  proof cases
    case (serve bid)
    then show ?thesis by (cases rule: serve_begin_cases [of h bid]) auto
  next
    case (release c b p h1)
    then show ?thesis using release_cases [OF release(3)] by simp
  qed (auto simp: closeQuit_def Shutdown_def stopCoordinator_def split: option.split)
  with that show thesis by blast
qed

lemma hub_step_serving:
  assumes "hub_step h h'" "at_pc h' c (Serving b)"
  shows "at_pc h c (Serving b) \<or> at_pc h c (Registering b)"
  using assms(1)
proof cases
  case (serve bid)
  then show ?thesis
    using assms(2) by (cases rule: serve_begin_cases [of h bid]) (auto simp: nth_append split: if_splits)
next
  case (release d a p h1)
  then show ?thesis using release_cases(1,2) [OF release(3)] assms(2) by (auto simp: goto_pc_def nth_list_update split: if_splits)
qed (use assms(2) in \<open>auto simp: goto_pc_def nth_list_update Shutdown_def split: if_splits\<close>)

lemma life_hub:
  assumes ok: "life_ok h ph late" and s: "hub_step h h'" "h_done h' = h_done h"
    and r: "\<And>c b. at_pc h c (Registering b) \<Longrightarrow> at_pc h' c (Serving b) \<Longrightarrow> ph b = Looping"
  shows "life_ok h' ph late"
proof -
  obtain ns where g: "h_ids h' = h_ids h @ ns" "set (h_quit h) \<subseteq> set (h_quit h')" "h_closing h \<longrightarrow> h_closing h'"
    by (rule hub_step_grows [OF s(1)])
  have "started (ph b)" if "Serving b \<in> set (h_conns h')" for b
  proof -
    obtain c where c: "at_pc h' c (Serving b)" using \<open>Serving b \<in> set (h_conns h')\<close> by (auto simp: in_set_conv_nth)
    show ?thesis
    proof (cases "at_pc h c (Serving b)")
      case True
      then have "Serving b \<in> set (h_conns h)" using nth_mem by metis
      then show ?thesis using ok by (simp add: life_ok_def)
    next
      case False
      then show ?thesis using hub_step_serving [OF s(1) c] r c by fastforce
    qed
  qed
  with g s(2) ok show ?thesis by (auto simp: life_ok_def)
qed

text \<open>As long as the hub is open, nobody serves a board that is told to quit.\<close>

lemma serving_open:
  assumes "hub_reach s h" "at_pc h c (Serving b)" "b \<in> set (h_quit h)"
  shows "h_closing h"
proof (rule ccontr)
  assume "\<not> h_closing h"
  have r: "registry_ok h" using hub_reach_ok [OF assms(1)] by (simp add: hub_ok_def)
  have "Serving b \<in> set (h_conns h)" using assms(2) nth_mem by metis
  then have "registered (h_boards h) b" using registry_invD(5) [OF r _ _ \<open>\<not> h_closing h\<close>] by simp
  with registry_invD(7) [OF r assms(3)] show False by simp
qed

lemma serving_board:
  assumes "hub_reach s h" "at_pc h c (Serving b)"
  shows "b < length (h_ids h)"
proof -
  have r: "registry_ok h" using hub_reach_ok [OF assms(1)] by (simp add: hub_ok_def)
  have "Serving b \<in> set (h_conns h)" using assms(2) nth_mem by metis
  then show ?thesis using registry_invD(4) [OF r, of "Serving b" b] by simp
qed

section \<open>A board at rest is durable\<close>

definition durable_ok ::
  "('b \<Rightarrow> bool) \<Rightarrow> ('b \<Rightarrow> bytes \<Rightarrow> doc) \<Rightarrow> ('s \<Rightarrow> bool) \<Rightarrow> ('s \<Rightarrow> bytes \<rightharpoonup> Snapshot) \<Rightarrow> (bytes \<Rightarrow> Snapshot \<Rightarrow> bool) \<Rightarrow>
   (Snapshot \<Rightarrow> Snapshot) \<Rightarrow> ('b, 's) Durable \<Rightarrow> bool" where
  "durable_ok binv doc sinv stored fits norm x \<longleftrightarrow>
     hub_reach True (du_hub x) \<and> binv (du_broker x) \<and> sinv (du_store x) \<and>
     data_ok norm fits (doc (du_broker x)) (stored (du_store x)) (h_ids (du_hub x)) (du_phase x) (du_round x) (du_late x) \<and>
     life_ok (du_hub x) (du_phase x) (du_late x)"

text \<open>A broker and a store that answer; an empty board accepts any snapshot.\<close>

locale checkpointed = restart_contract +
  assumes apply_ok: "inv bs \<Longrightarrow> d_seq (doc bs b) < cap \<Longrightarrow> \<exists>n bs'. br_ApplyShape B bs b i sh del = (Inr n, bs')"
    and hydrate_empty: "inv bs \<Longrightarrow> snap_ok snap \<Longrightarrow> \<not> has_state (doc bs b) \<Longrightarrow> br_Hydrate B bs b snap = (Inr l, bs') \<Longrightarrow> l"
begin

abbreviation good :: "('a, 'b) Durable \<Rightarrow> bool" where
  "good \<equiv> durable_ok inv doc sinv stored fits norm"

abbreviation move :: "('a, 'b) Durable \<Rightarrow> ('a, 'b) Durable \<Rightarrow> bool" where
  "move \<equiv> durable_step B S doc cap fits"

lemma goodD:
  assumes "good x"
  shows "hub_reach True (du_hub x)" "inv (du_broker x)" "sinv (du_store x)"
    "data_ok norm fits (doc (du_broker x)) (stored (du_store x)) (h_ids (du_hub x)) (du_phase x) (du_round x) (du_late x)"
    "life_ok (du_hub x) (du_phase x) (du_late x)"
  using assms by (simp_all add: durable_ok_def)

lemma good_phase: "good x \<Longrightarrow> du_phase x b \<noteq> Starting \<Longrightarrow> b < length (h_ids (du_hub x))"
  by (meson goodD(5) leI life_ok_def)

lemma fetched:
  assumes "good x" "save_fetch B bid (du_broker x) = (r, bs)"
  obtains snap where "r = Some snap" "inv bs" "doc bs = doc (du_broker x)" "snapshot_of (doc bs bid) snap"
    "taken (doc bs bid) snap" "fits bid snap"
proof -
  note g = goodD [OF assms(1)]
  obtain snap where s: "br_Snapshot B (du_broker x) bid = (Inr snap, bs)" "r = Some snap"
    using snapshot_ok [OF g(2), of bid] assms(2) by (auto simp: save_fetch_def)
  have l: "inv bs" "doc bs = doc (du_broker x)" "snapshot_of (doc bs bid) snap" using snapshot_law [OF g(2) s(1)] by auto
  have "doc_proper (doc bs bid)" "storable fits bid (doc bs bid)" using data_okD(2,3) [OF g(4)] l(2) by auto
  with l(3) snapshot_of_proper show thesis by (intro that [OF s(2) l]) (auto simp: taken_def storable_def)
qed

lemma proper_norm:
  assumes "fits b x" "proper x"
  shows "proper (norm x)"
proof -
  have n: "snap_Seq (norm x) = snap_Seq x" "map ss_ID (snap_Shapes (norm x)) = map ss_ID (snap_Shapes x)"
    "map ss_Seq (snap_Shapes (norm x)) = map ss_Seq (snap_Shapes x)"
    using norm_seq [OF assms(1)] norm_stamps [OF assms(1)] by auto
  then have "snap_Shapes (norm x) = [] \<longleftrightarrow> snap_Shapes x = []" by (metis map_is_Nil_conv)
  with n assms(2) norm_snap_ok [OF assms(1)] show ?thesis by (simp add: proper_def)
qed

lemma written:
  assumes "good x" "taken (doc (du_broker x) bid) snap" "fits bid snap" "st_SaveSnapshot S (du_store x) bid snap = (r, ss)"
  shows "r = Inr ()" "sinv ss" "stored ss = (stored (du_store x))(bid := put norm (stored (du_store x) bid) snap)"
    "data_ok norm fits (doc (du_broker x)) (stored ss) (h_ids (du_hub x)) (du_phase x) (du_round x) (du_late x)"
proof -
  note g = goodD [OF assms(1)]
  obtain ss' where s: "st_SaveSnapshot S (du_store x) bid snap = (Inr (), ss')" using save_ok [OF g(3) assms(3)] by blast
  with assms(4) show "r = Inr ()" by simp
  show "sinv ss" and st: "stored ss = (stored (du_store x))(bid := put norm (stored (du_store x) bid) snap)"
    using save_law [OF g(3) assms(3) s] s assms(4) by (auto simp: put_def)
  have "proper snap" using assms(2) by (simp add: taken_def)
  from data_put [OF g(4) assms(2,3) norm_seq proper_norm [OF assms(3) this]] st
  show "data_ok norm fits (doc (du_broker x)) (stored ss) (h_ids (du_hub x)) (du_phase x) (du_round x) (du_late x)" by simp
qed

lemma good_hub:
  assumes "good x" "hub_step (du_hub x) h" "h_done h = h_done (du_hub x)"
    "\<And>c b. at_pc (du_hub x) c (Registering b) \<Longrightarrow> at_pc h c (Serving b) \<Longrightarrow> du_phase x b = Looping"
  shows "good (x\<lparr>du_hub := h\<rparr>)"
proof -
  note g = goodD [OF assms(1)]
  obtain ns where "h_ids h = h_ids (du_hub x) @ ns" by (rule hub_step_grows [OF assms(2)])
  moreover have "\<And>b. length (h_ids (du_hub x)) \<le> b \<Longrightarrow> du_phase x b = Starting" using g(5) by (simp add: life_ok_def)
  ultimately have "data_ok norm fits (doc (du_broker x)) (stored (du_store x)) (h_ids h) (du_phase x) (du_round x) (du_late x)"
    using data_ids [OF g(4)] by simp
  moreover have "life_ok h (du_phase x) (du_late x)" by (rule life_hub [OF g(5) assms(2-4)])
  ultimately show ?thesis using g hub_reach.step [OF g(1) assms(2)] by (simp add: durable_ok_def)
qed

lemma good_load:
  assumes "good x" "b < length (h_ids (du_hub x))" "du_phase x b = Starting" "hydrate_load S (board_id x b) (du_store x) = (p, ss)"
  shows "good (x\<lparr>du_store := ss, du_phase := (du_phase x)(b := p)\<rparr>)"
proof -
  let ?i = "board_id x b"
  note g = goodD [OF assms(1)]
  obtain r where l: "st_LoadSnapshot S (du_store x) ?i = (Inr r, ss)"
    "p = (case r of None \<Rightarrow> Looping | Some snap \<Rightarrow> Hydrating snap)"
    using load_ok [OF g(3), of ?i] assms(4) by (auto simp: hydrate_load_def split: option.splits)
  have s: "sinv ss" "stored ss = stored (du_store x)" "r = stored (du_store x) ?i" using load_law [OF g(3) l(1)] by auto
  have p: "phase_ok (fits ?i) (doc (du_broker x) ?i) (stored (du_store x) ?i) p" "\<not> closed p"
    using l(2) s(3) data_okD(1) [OF g(4), of ?i] by (auto simp: stored_ok_def hydrated_def split: option.splits)
  have "data_ok norm fits (doc (du_broker x)) (stored ss) (h_ids (du_hub x)) ((du_phase x)(b := p)) (du_round x) (du_late x)"
    unfolding s(2) using promised_open [OF assms(2)] p(2) by (intro data_phase [OF g(4) assms(2) p(1)]) auto
  moreover have "life_ok (du_hub x) ((du_phase x)(b := p)) (du_late x)"
    using g(5) assms(3) p(2) by (intro life_phase [OF g(5) assms(2)]) (auto simp: life_ok_def)
  ultimately show ?thesis using g(1,2) s(1) by (simp add: durable_ok_def)
qed

lemma good_hydrate:
  assumes "good x" "du_phase x b = Hydrating snap" "br_Hydrate B (du_broker x) (board_id x b) snap = (r, bs)"
    "storable fits (board_id x b) (doc bs (board_id x b))"
  shows "good (x\<lparr>du_broker := bs, du_phase := (du_phase x)(b := Looping)\<rparr>)"
proof -
  let ?i = "board_id x b" and ?d = "doc (du_broker x)"
  note g = goodD [OF assms(1)]
  have b: "b < length (h_ids (du_hub x))" using good_phase [OF assms(1)] assms(2) by simp
  have pr: "proper snap" using data_okD(4) [OF g(4) b] assms(2) by simp
  then have ok: "snap_ok snap" by (simp add: proper_def)
  obtain l where l: "br_Hydrate B (du_broker x) ?i snap = (Inr l, bs)" using hydrate_ok [OF g(2), of ?i snap] assms(3) by auto
  note h = hydrate_law [OF g(2) ok l]
  have "data_ok norm fits (doc bs) (stored (du_store x)) (h_ids (du_hub x)) ((du_phase x)(b := Looping)) (du_round x) (du_late x)"
  proof (cases l)
    case True
    then have "doc bs = ?d(?i := doc_of_snapshot snap)" "d_seq (?d ?i) = 0" using h fresh_doc(2) data_okD(2) [OF g(4)] by auto
    with data_loaded [OF g(4) b assms(2)] assms(4) show ?thesis by simp
  next
    case False
    then have "doc bs = ?d" "has_state (?d ?i)" using h hydrate_empty [OF g(2) ok _ l] by auto
    moreover have "hydrated (?d ?i) (stored (du_store x) ?i)"
      using \<open>has_state (?d ?i)\<close> data_okD(2) [OF g(4), of ?i] by (auto simp: hydrated_def has_state_def doc_proper_def empty_doc_def)
    ultimately show ?thesis
      using promised_open [OF b] by (intro data_phase [OF _ b]) (use g(4) in auto)
  qed
  moreover have "life_ok (du_hub x) ((du_phase x)(b := Looping)) (du_late x)"
    using g(5) assms(2) by (intro life_phase [OF g(5) b]) (auto simp: life_ok_def)
  ultimately show ?thesis using g(1,3) h by (simp add: durable_ok_def)
qed

lemma good_apply:
  assumes "good x" "at_pc (du_hub x) c (Serving b)" "d_seq (doc (du_broker x) (board_id x b)) < cap"
    "br_ApplyShape B (du_broker x) (board_id x b) i sh del = (r, bs)" "storable fits (board_id x b) (doc bs (board_id x b))"
  shows "good (x\<lparr>du_broker := bs, du_late := if du_phase x b = Looping then du_late x else board_id x b # du_late x\<rparr>)"
proof -
  let ?i = "board_id x b" and ?late = "if du_phase x b = Looping then du_late x else board_id x b # du_late x"
  note g = goodD [OF assms(1)]
  have b: "b < length (h_ids (du_hub x))" by (rule serving_board [OF g(1) assms(2)])
  have "Serving b \<in> set (h_conns (du_hub x))" using assms(2) nth_mem by metis
  then have st: "started (du_phase x b)" using g(5) by (simp add: life_ok_def)
  obtain n where a: "br_ApplyShape B (du_broker x) ?i i sh del = (Inr n, bs)"
    using apply_ok [OF g(2) assms(3), of i sh del] assms(4) by auto
  note l = apply_law [OF g(2) assms(3) a]
  have "data_ok norm fits (doc bs) (stored (du_store x)) (h_ids (du_hub x)) (du_phase x) (du_round x) ?late"
    using data_apply [OF g(4) b st assms(3) _ norm_seq] l assms(5) by simp
  moreover have "h_closing (du_hub x)" if "du_phase x b \<noteq> Looping"
    using that st g(5) by (intro serving_open [OF g(1) assms(2)]) (cases "du_phase x b", auto simp: life_ok_def)
  then have "life_ok (du_hub x) (du_phase x) ?late" using g(5) by (auto simp: life_ok_def)
  ultimately show ?thesis using g(1,3) l by (simp add: durable_ok_def)
qed

lemma good_final_fetch:
  assumes "good x" "b \<in> set (h_quit (du_hub x))" "du_phase x b = Looping"
    "save_fetch B (board_id x b) (du_broker x) = (Some snap, bs)"
  shows "good (x\<lparr>du_broker := bs, du_phase := (du_phase x)(b := Saving snap),
    du_late := removeAll (board_id x b) (du_late x)\<rparr>)"
proof -
  let ?i = "board_id x b"
  note g = goodD [OF assms(1)]
  have b: "b < length (h_ids (du_hub x))" using good_phase [OF assms(1)] assms(3) by simp
  obtain f: "inv bs" "doc bs = doc (du_broker x)" "snapshot_of (doc bs ?i) snap" "taken (doc bs ?i) snap" "fits ?i snap"
    using fetched [OF assms(1,4)] by auto
  have "hydrated (doc bs ?i) (stored (du_store x) ?i)" using data_okD(4) [OF g(4) b] assms(3) f(2) by simp
  then have "data_ok norm fits (doc bs) (stored (du_store x)) (h_ids (du_hub x)) ((du_phase x)(b := Saving snap)) (du_round x)
      (removeAll ?i (du_late x))"
    using promised_open [OF b, of "Saving snap"] f g(4) by (intro data_phase [OF _ b]) auto
  moreover have "life_ok (du_hub x) ((du_phase x)(b := Saving snap)) (removeAll ?i (du_late x))"
    using g(5) assms(2,3) by (intro life_phase [OF g(5) b]) (auto simp: life_ok_def)
  ultimately show ?thesis using g(1,3) f(1) by (simp add: durable_ok_def)
qed

lemma good_final_store:
  assumes "good x" "du_phase x b = Saving snap" "st_SaveSnapshot S (du_store x) (board_id x b) snap = (r, ss)"
  shows "good (x\<lparr>du_store := ss, du_phase := (du_phase x)(b := Ended),
    du_late := case r of Inl err \<Rightarrow> board_id x b # du_late x | Inr u \<Rightarrow> du_late x\<rparr>)"
proof -
  let ?i = "board_id x b" and ?d = "doc (du_broker x)" and ?ids = "h_ids (du_hub x)"
  note g = goodD [OF assms(1)]
  have b: "b < length ?ids" using good_phase [OF assms(1)] assms(2) by simp
  have p: "hydrated (?d ?i) (stored (du_store x) ?i)" "taken (?d ?i) snap" "fits ?i snap"
    using data_okD(4) [OF g(4) b] assms(2) by simp_all
  note w = written [OF assms(1) p(2,3) assms(3)]
  have h: "hydrated (?d ?i) (stored ss ?i)" using hydrated_put [where norm = norm, OF p(1,2) norm_seq [OF p(3)]] w(3) by simp
  have norm: "snap_Seq (norm x) = snap_Seq x" if "snapshot_of (?d ?i) x" for x
    using that data_okD(3) [OF g(4), of ?i] norm_seq by (auto simp: storable_def)
  have "?i \<in> set (du_late x) \<or> promised (?d ?i) (stored ss ?i) ((du_phase x)(b := Ended) ` boards_of ?ids ?i)"
  proof (cases "snapshot_of (?d ?i) snap")
    case True
    have "\<exists>y. stored ss ?i = Some y \<and> snap_Seq y = d_seq (?d ?i)"
      using final_put [OF p(1) data_okD(1) [OF g(4)] True norm] w(3) by simp
    then show ?thesis by (simp add: promised_def)
  next
    case False
    then have "promised (?d ?i) (stored ss ?i) (du_phase x ` boards_of ?ids ?i) \<Longrightarrow>
        promised (?d ?i) (stored ss ?i) ((du_phase x)(b := Ended) ` boards_of ?ids ?i)"
      using assms(2) b by (auto simp: promised_def)
    with data_okD(6) [OF w(4), of ?i] show ?thesis by blast
  qed
  then have "data_ok norm fits ?d (stored ss) ?ids ((du_phase x)(b := Ended)) (du_round x) (du_late x)"
    using h by (intro data_phase [OF w(4) b]) auto
  moreover have "life_ok (du_hub x) ((du_phase x)(b := Ended)) (du_late x)"
    using g(5) assms(2) by (intro life_phase [OF g(5) b]) (auto simp: life_ok_def dest!: spec [where x = b])
  ultimately show ?thesis using g(1,2) w(1,2) by (simp add: durable_ok_def)
qed

lemma good_returns:
  assumes "good x" "du_phase x b = Ended" "b \<notin> set (h_done (du_hub x))" "h = du_hub x"
  shows "good (x\<lparr>du_hub := h_emit BoardClosed (h\<lparr>h_members := (h_members h)(b := []), h_done := b # h_done h\<rparr>)\<rparr>)"
proof -
  note g = goodD [OF assms(1)]
  have q: "b \<in> set (h_quit h)" using g(5) assms(2,4) by (auto simp: life_ok_def)
  have "hub_step (du_hub x) (h_emit BoardClosed (h\<lparr>h_members := (h_members h)(b := []), h_done := b # h_done h\<rparr>))"
    unfolding assms(4) using q assms(3,4) by (intro hub_step.board_returns) auto
  from hub_reach.step [OF g(1) this] g(2-5) assms(2,4) show ?thesis
    by (auto simp: durable_ok_def life_ok_def h_emit_def)
qed

lemma good_round:
  assumes "good x" "du_round x = RoundSaving bid snap ids" "st_SaveSnapshot S (du_store x) bid snap = (r, ss)"
  shows "good (x\<lparr>du_store := ss, du_round := Round ids\<rparr>)"
proof -
  note g = goodD [OF assms(1)]
  have "taken (doc (du_broker x) bid) snap" "fits bid snap" using data_okD(5) [OF g(4) assms(2)] by auto
  note w = written [OF assms(1) this assms(3)]
  from data_round [OF w(4), of "Round ids"] g w(2) show ?thesis by (simp add: durable_ok_def)
qed

lemma good_turn: "good x \<Longrightarrow> (\<And>i y js. rd \<noteq> RoundSaving i y js) \<Longrightarrow> good (x\<lparr>du_round := rd\<rparr>)"
  using data_round [OF goodD(4), of x rd] by (auto simp: durable_ok_def)

lemma good_step:
  assumes "move x y" "good x"
  shows "good y"
  using assms(1)
proof cases
  case (hub h)
  then show ?thesis using good_hub [OF assms(2)] by simp
next
  case (publish bid m r bs)
  then show ?thesis using goodD [OF assms(2)] publish_law [of "du_broker x" bid m r bs] by (simp add: durable_ok_def)
next
  case (final_fetch_fails b bs)
  show ?thesis by (rule fetched [OF assms(2) final_fetch_fails(4)]) simp
next
  case tick
  then show ?thesis using good_turn [OF assms(2)] by simp
next
  case (round_fetch bid ids r bs)
  obtain snap where f: "r = Some snap" "inv bs" "doc bs = doc (du_broker x)" "snapshot_of (doc bs bid) snap"
    "taken (doc bs bid) snap" "fits bid snap"
    by (rule fetched [OF assms(2) round_fetch(3)])
  from data_round [OF goodD(4) [OF assms(2)], of "RoundSaving bid snap ids"] f goodD [OF assms(2)] round_fetch(1)
  show ?thesis by (simp add: durable_ok_def)
next
  case round_ends
  then show ?thesis using good_turn [OF assms(2)] by simp
next
  case (load b p ss)
  show ?thesis unfolding load(1) by (rule good_load [OF assms(2) load(2-4)])
next
  case (hydrate b snap r bs)
  show ?thesis unfolding hydrate(1) by (rule good_hydrate [OF assms(2) hydrate(2-4)])
next
  case (apply_op c b i sh del r bs)
  show ?thesis unfolding apply_op(1) by (rule good_apply [OF assms(2) apply_op(2-5)])
next
  case (final_fetch b snap bs)
  show ?thesis unfolding final_fetch(1) by (rule good_final_fetch [OF assms(2) final_fetch(2-4)])
next
  case (final_store b snap r ss)
  show ?thesis unfolding final_store(1) by (rule good_final_store [OF assms(2) final_store(2-3)])
next
  case (returns b h)
  show ?thesis unfolding returns(1) by (rule good_returns [OF assms(2) returns(2-4)])
next
  case (round_store bid snap ids r ss)
  show ?thesis unfolding round_store(1) by (rule good_round [OF assms(2) round_store(2-3)])
qed

lemma good_start:
  assumes "inv bs" "\<And>bid. doc bs bid = empty_doc" "sinv ss" "\<And>bid y. stored ss bid = Some y \<Longrightarrow> proper y"
    "\<And>bid. storable fits bid empty_doc"
  shows "good (du_start bs ss)"
proof -
  have "data_ok norm fits (doc bs) (stored ss) [] (\<lambda>b. Starting) Sleeping []"
    using assms(2,4,5) by (intro data_okI) (auto simp: stored_ok_def doc_proper_def empty_doc_def promised_def)
  then show ?thesis
    using assms(1,3) hub_reach.start [of True] by (simp add: durable_ok_def du_start_def life_ok_def New_def)
qed

lemma good_reach:
  assumes "durable_reach B S doc cap fits bs ss x" "good (du_start bs ss)"
  shows "good x"
  using assms by (induction rule: durable_reach.induct) (auto intro: good_step)

text \<open>A board all of whose goroutines have returned is stored as it is, and a restart brings it back.\<close>

lemma rest_durable:
  assumes "good x" "bid \<in> set (h_ids (du_hub x))" "boards_of (h_ids (du_hub x)) bid \<subseteq> set (h_done (du_hub x))"
    "bid \<notin> set (du_late x)"
  obtains y where "stored (du_store x) bid = Some y" "matches norm (doc (du_broker x) bid) y"
    "doc (fst (hydrate B S (fresh, du_store x) bid)) bid = doc_of_snapshot y"
proof -
  note g = goodD [OF assms(1)]
  obtain b where b: "b \<in> boards_of (h_ids (du_hub x)) bid" using assms(2) by (auto simp: in_set_conv_nth)
  have "du_phase x a = Ended" if "a \<in> boards_of (h_ids (du_hub x)) bid" for a
    using that assms(3) g(5) by (auto simp: life_ok_def)
  then have "du_phase x ` boards_of (h_ids (du_hub x)) bid = (\<lambda>a. Ended) ` boards_of (h_ids (du_hub x)) bid"
    by (intro image_cong) auto
  with b have "du_phase x ` boards_of (h_ids (du_hub x)) bid = {Ended}" by (simp only: image_constant)
  moreover have "promised (doc (du_broker x) bid) (stored (du_store x) bid) (du_phase x ` boards_of (h_ids (du_hub x)) bid)"
    using data_okD(6) [OF g(4), of bid] assms(4) by blast
  ultimately obtain y where y: "stored (du_store x) bid = Some y" "matches norm (doc (du_broker x) bid) y"
    using promise_kept [OF _ _ data_okD(1,2) [OF g(4)], of bid] by metis
  have ok: "snap_ok y" using data_okD(1) [OF g(4), of bid] y(1) by (simp add: stored_ok_def proper_def)
  obtain r ss where l: "st_LoadSnapshot S (du_store x) bid = (Inr r, ss)" using load_ok [OF g(3), of bid] by blast
  then have r: "r = Some y" using load_law [OF g(3) l] y(1) by simp
  obtain bs where h: "br_Hydrate B fresh bid y = (Inr True, bs)" using fresh_loads [OF ok, of bid] by blast
  then have "doc bs bid = doc_of_snapshot y" using hydrate_law [OF fresh_inv ok h] by simp
  with y show thesis by (intro that [of y]) (simp_all add: hydrate_def l r h)
qed

text \<open>While the hub is open no operation comes too late.\<close>

lemma late_closing: "good x \<Longrightarrow> du_late x \<noteq> [] \<Longrightarrow> h_closing (du_hub x)"
  using goodD(5) by (auto simp: life_ok_def)

end

section \<open>The in-process broker with either store\<close>

lemma mem_empty_loads:
  assumes "Memory_ok m" "\<not> has_state (mem_doc m b)" "mem_Hydrate m b snap = (Inr l, m')" "snap_ok snap"
  shows l
  using mem_Hydrate_law(1) [OF assms(1,4,3)] assms(2) by simp

lemma mem_apply_answers: "\<exists>n m'. mem_ApplyShape m b i sh del = (Inr n, m')"
  by (cases "mem_board m b") (simp add: mem_ApplyShape_def Let_def)

interpretation memdur: checkpointed memory_broker Memory_ok mem_doc mem_roster "- 1"
  memory_store "\<lambda>m. gomap_ok (sm_snaps m)" "\<lambda>m. gomap_get (sm_snaps m)" "\<lambda>b x. True" "\<lambda>x. x" NewMemory
  by unfold_locales (auto simp: memory_broker_def mem_apply_answers dest: mem_empty_loads)

sublocale postgres_up \<subseteq> pgdur: checkpointed memory_broker Memory_ok mem_doc mem_roster "- 1"
  "postgres_store D" "\<lambda>p. rows_ok (rows p)" "\<lambda>p b. map_option row_snapshot (rows p b)" "pg_fits accepts" "jsonb_snapshot jsonb"
  NewMemory
proof (unfold_locales, goal_cases)
  case (1 p b r p')
  then show ?case by (rule ps.load_law)
next
  case (2 p b x u p')
  then show ?case using ps.save_law [of p x b u p'] by (simp add: pg_fits_def)
next
  case (5 bs b)
  then show ?case by (rule mm.snapshot_ok)
next
  case (6 bs b snap)
  then show ?case by (rule mm.hydrate_ok)
next
  case (7 ss b)
  then show ?case using load_up [of ss b] by (simp add: postgres_store_def)
next
  case (8 ss b snap)
  then show ?case using save_up [of b snap ss] by (simp add: postgres_store_def)
next
  case (10 snap b)
  then show ?case by (rule mm.fresh_loads)
next
  case (11 bs b i sh del)
  then show ?case by (rule memdur.apply_ok)
next
  case (12 bs snap b l bs')
  then show ?case by (rule memdur.hydrate_empty)
qed (simp_all add: jsonb_snapshot_def comp_def NewMemory_ok)

section \<open>An operation after the last checkpoint\<close>

text \<open>
  The hub is shut down while a client's read pump is handling a frame: the board closes the
  connection, saves its final snapshot and returns, and then the frame's operation is applied. The
  session ends, \<^verbatim>\<open>Shutdown\<close> has seen everybody return and returns nil.
\<close>

abbreviation mem_durable :: "(Memory, MemStore) Durable \<Rightarrow> bool" where
  "mem_durable \<equiv> durable_reach memory_broker memory_store mem_doc (- 1) (\<lambda>b x. True) NewMemory NewMemStore"

definition with_hub :: "Hub \<Rightarrow> ('b, 's) Durable \<Rightarrow> ('b, 's) Durable" where
  "with_hub h x = x\<lparr>du_hub := h\<rparr>"

lemma with_hub_simps [simp]:
  "du_hub (with_hub h x) = h" "du_broker (with_hub h x) = du_broker x" "du_store (with_hub h x) = du_store x"
  "du_phase (with_hub h x) = du_phase x" "du_round (with_hub h x) = du_round x" "du_late (with_hub h x) = du_late x"
  by (simp_all add: with_hub_def)

lemma hub_moves:
  assumes "durable_reach B S doc cap fits bs ss x" "hub_step (du_hub x) h" "h_done h = h_done (du_hub x)"
    "list_all2 (\<lambda>p q. \<forall>b. p = Registering b \<longrightarrow> q = Serving b \<longrightarrow> du_phase x b = Looping) (h_conns (du_hub x)) (take (length (h_conns (du_hub x))) (h_conns h))"
  shows "durable_reach B S doc cap fits bs ss (with_hub h x)"
  unfolding with_hub_def
  by (rule durable_reach.step [OF assms(1) durable_step.hub]) (use assms(2-4) in \<open>auto simp: list_all2_conv_all_nth\<close>)

definition joined :: "(Memory, MemStore) Durable" where
  "joined =
     (let x0 = du_start NewMemory NewMemStore;
          x1 = with_hub (serve_begin ''b'' (du_hub x0)) x0;
          x2 = x1\<lparr>du_store := snd (hydrate_load memory_store ''b'' (du_store x1)), du_phase := (du_phase x1)(0 := Looping)\<rparr>
      in with_hub (goto_pc 0 (Serving 0) (add_member 0 0 (du_hub x2))) x2)"

definition drawn :: Memory where
  "drawn = snd (mem_ApplyShape NewMemory ''b'' ''a'' (Some ''2'') False)"

definition at_work :: "(Memory, MemStore) Durable" where
  "at_work = joined\<lparr>du_broker := drawn, du_late := []\<rparr>"

definition at_checkpoint :: "(Memory, MemStore) Durable" where
  "at_checkpoint =
     (let x = with_hub (Shutdown (du_hub at_work)) at_work
      in with_hub ((closeQuit 0 (du_hub x))\<lparr>h_shutdown := TellingQuit []\<rparr>) x)"

definition at_rest :: "(Memory, MemStore) Durable" where
  "at_rest =
     (let x = at_checkpoint;
          f = save_fetch memory_broker ''b'' (du_broker x);
          y = x\<lparr>du_broker := snd f, du_phase := (du_phase x)(0 := Saving (the (fst f))), du_late := removeAll ''b'' (du_late x)\<rparr>;
          z = y\<lparr>du_store := snd (sm_SaveSnapshot (du_store y) ''b'' (the (fst f))), du_phase := (du_phase y)(0 := Ended), du_late := du_late y\<rparr>
      in z\<lparr>du_hub := h_emit BoardClosed ((du_hub z)\<lparr>h_members := (h_members (du_hub z))(0 := []), h_done := 0 # h_done (du_hub z)\<rparr>)\<rparr>)"

definition released :: "(Memory, MemStore) Durable" where
  "released =
     (let x = at_rest;
          y = x\<lparr>du_broker := snd (mem_ApplyShape (du_broker x) ''b'' ''s'' (Some ''1'') False), du_late := ''b'' # du_late x\<rparr>;
          y1 = with_hub (goto_pc 0 (Releasing 0) (h_emit ConnClosed (du_hub y))) y
      in with_hub (goto_pc 0 Finishing (snd (release 0 (du_hub y1)))) y1)"

definition lost_operation :: "(Memory, MemStore) Durable" where
  "lost_operation =
     (let y = released;
          y1 = with_hub (goto_pc 0 Returned ((du_hub y)\<lparr>h_sessions := h_sessions (du_hub y) - 1\<rparr>)) y;
          y2 = with_hub ((du_hub y1)\<lparr>h_shutdown := WaitingBoards (h_draining (du_hub y1))\<rparr>) y1;
          y3 = with_hub ((du_hub y2)\<lparr>h_shutdown := WaitingBoards []\<rparr>) y2;
          y4 = with_hub ((du_hub y3)\<lparr>h_shutdown := WaitingSessions\<rparr>) y3
      in with_hub (stopCoordinator ((du_hub y4)\<lparr>h_shutdown := Drained\<rparr>)) y4)"

lemmas run_eval = hub_eval du_start_def hydrate_load_def memory_store_def sm_LoadSnapshot_def NewMemStore_def

lemma joined_reach: "mem_durable joined"
  unfolding joined_def Let_def
  apply (rule hub_moves [OF _ hub_step.register])
     apply (rule durable_reach.step [OF _ durable_step.load])
        apply (rule hub_moves [OF durable_reach.start hub_step.serve])
         apply (simp_all add: run_eval)
  done

lemma joined_state:
  "h_ids (du_hub joined) = [''b'']" "h_quit (du_hub joined) = []" "h_done (du_hub joined) = []"
  "h_conns (du_hub joined) = [Serving 0]" "h_boards (du_hub joined) = [(''b'', \<lparr>e_board = 0, e_count = 1\<rparr>)]"
  "\<not> h_closing (du_hub joined)" "h_sessions (du_hub joined) = 1" "du_phase joined 0 = Looping" "du_late joined = []"
  "du_broker joined = NewMemory" "du_store joined = NewMemStore"
  by (simp_all add: joined_def run_eval)

lemma drawn_doc: "mem_doc drawn ''b'' = doc_apply ''a'' ''2'' False empty_doc" "Memory_ok drawn"
proof -
  have d: "mem_doc NewMemory ''b'' = empty_doc" "mb_seq (the_board NewMemory ''b'') \<noteq> - 1"
    by (simp_all add: mem_doc_def the_board_get NewMemory_def new_memBoard_def memBoard_doc_def empty_doc_def fun_eq_iff)
  note l = mem_ApplyShape_law [OF NewMemory_ok d(2) surjective_pairing, of "''a''" "Some ''2''" False]
  from l show "mem_doc drawn ''b'' = doc_apply ''a'' ''2'' False empty_doc" "Memory_ok drawn" by (simp_all add: drawn_def d(1))
qed

lemma applied_reach:
  assumes "mem_durable x" "at_pc (du_hub x) 0 (Serving 0)" "h_ids (du_hub x) = [''b'']" "d_seq (mem_doc (du_broker x) ''b'') \<noteq> - 1"
  shows "mem_durable (x\<lparr>du_broker := snd (mem_ApplyShape (du_broker x) ''b'' i sh del),
    du_late := if du_phase x 0 = Looping then du_late x else ''b'' # du_late x\<rparr>)"
proof -
  let ?m = "snd (mem_ApplyShape (du_broker x) ''b'' i sh del)"
  obtain n where "mem_ApplyShape (du_broker x) ''b'' i sh del = (Inr n, ?m)"
    using mem_apply_answers [of "du_broker x" "''b''" i sh del] by force
  then have a: "br_ApplyShape memory_broker (du_broker x) (board_id x 0) i sh del = (Inr n, ?m)"
    by (simp add: assms(3) memory_broker_def)
  have c: "d_seq (mem_doc (du_broker x) (board_id x 0)) < - 1" by (simp add: assms(3,4) less_max_u64)
  have "storable (\<lambda>b x. True) (board_id x 0) (mem_doc ?m (board_id x 0))" by (simp add: storable_def)
  from durable_reach.step [OF assms(1) durable_step.apply_op [where doc = mem_doc, OF assms(2) c a this]] show ?thesis
    by (simp only: assms(3) nth_Cons_0)
qed

lemma at_work_state:
  "h_ids (du_hub at_work) = [''b'']" "h_quit (du_hub at_work) = []" "h_done (du_hub at_work) = []"
  "h_conns (du_hub at_work) = [Serving 0]" "h_boards (du_hub at_work) = [(''b'', \<lparr>e_board = 0, e_count = 1\<rparr>)]"
  "\<not> h_closing (du_hub at_work)" "h_sessions (du_hub at_work) = 1" "du_phase at_work 0 = Looping" "du_late at_work = []"
  "du_broker at_work = drawn" "du_store at_work = NewMemStore"
  by (simp_all add: at_work_def joined_state)

lemma at_work_reach: "mem_durable at_work"
proof -
  have "d_seq (mem_doc (du_broker joined) ''b'') \<noteq> - 1"
    by (simp add: joined_state mem_doc_def the_board_get NewMemory_def empty_doc_def)
  from applied_reach [OF joined_reach _ joined_state(1) this, of "''a''" "Some ''2''" False] show ?thesis
    by (simp add: joined_state at_work_def drawn_def)
qed

lemma at_checkpoint_reach: "mem_durable at_checkpoint"
  unfolding at_checkpoint_def Let_def
  apply (rule hub_moves [OF _ hub_step.tell_quit])
     apply (rule hub_moves [OF at_work_reach hub_step.shutdown])
      apply (simp_all add: hub_eval at_work_state)
  done

lemma at_checkpoint_state:
  "h_ids (du_hub at_checkpoint) = [''b'']" "h_quit (du_hub at_checkpoint) = [0]" "h_done (du_hub at_checkpoint) = []"
  "h_conns (du_hub at_checkpoint) = [Serving 0]" "h_boards (du_hub at_checkpoint) = []"
  "h_draining (du_hub at_checkpoint) = [0]" "h_shutdown (du_hub at_checkpoint) = TellingQuit []"
  "h_sessions (du_hub at_checkpoint) = 1" "du_phase at_checkpoint 0 = Looping" "du_late at_checkpoint = []"
  "du_broker at_checkpoint = drawn" "du_store at_checkpoint = NewMemStore"
  by (simp_all add: at_checkpoint_def hub_eval at_work_state)

lemma at_rest_reach: "mem_durable at_rest"
proof -
  let ?f = "save_fetch memory_broker ''b'' drawn"
  have f: "?f = (Some (the (fst ?f)), snd ?f)"
    by (cases "mem_board drawn ''b''") (simp add: save_fetch_def memory_broker_def mem_Snapshot_def)
  let ?x = at_checkpoint
  let ?y = "?x\<lparr>du_broker := snd ?f, du_phase := (du_phase ?x)(0 := Saving (the (fst ?f))), du_late := removeAll ''b'' (du_late ?x)\<rparr>"
  let ?z = "?y\<lparr>du_store := snd (sm_SaveSnapshot (du_store ?y) ''b'' (the (fst ?f))), du_phase := (du_phase ?y)(0 := Ended), du_late := du_late ?y\<rparr>"
  have y: "mem_durable ?y"
    using durable_step.final_fetch [of 0 ?x memory_broker "the (fst ?f)" "snd ?f"] f
    by (intro durable_reach.step [OF at_checkpoint_reach]) (simp add: at_checkpoint_state)
  have "st_SaveSnapshot memory_store (du_store ?y) ''b'' (the (fst ?f)) = (Inr (), snd (sm_SaveSnapshot (du_store ?y) ''b'' (the (fst ?f))))"
    by (simp add: at_checkpoint_state memory_store_def sm_SaveSnapshot_def NewMemStore_def)
  then have z: "mem_durable ?z"
    using durable_step.final_store [of ?y 0 "the (fst ?f)" memory_store "Inr ()" "snd (sm_SaveSnapshot (du_store ?y) ''b'' (the (fst ?f)))"]
    by (intro durable_reach.step [OF y]) (simp add: at_checkpoint_state)
  show ?thesis
    using durable_step.returns [of ?z 0 "du_hub ?z"] unfolding at_rest_def Let_def at_checkpoint_state(11)
    by (intro durable_reach.step [OF z]) (simp add: at_checkpoint_state)
qed

lemma at_rest_state:
  "h_ids (du_hub at_rest) = [''b'']" "h_quit (du_hub at_rest) = [0]" "h_done (du_hub at_rest) = [0]"
  "h_conns (du_hub at_rest) = [Serving 0]" "h_boards (du_hub at_rest) = []"
  "h_draining (du_hub at_rest) = [0]" "h_shutdown (du_hub at_rest) = TellingQuit []"
  "h_sessions (du_hub at_rest) = 1" "du_phase at_rest 0 = Ended" "du_late at_rest = []"
  by (simp_all add: at_rest_def Let_def h_emit_def at_checkpoint_state)

lemma at_rest_data: "mem_doc (du_broker at_rest) ''b'' = doc_apply ''a'' ''2'' False empty_doc" "Memory_ok (du_broker at_rest)"
  "gomap_get (sm_snaps (du_store at_rest)) ''b'' =
    Some \<lparr>snap_Seq = 1, snap_Shapes = [\<lparr>ss_Seq = 1, ss_ID = ''a'', ss_Shape = Some ''2''\<rparr>]\<rparr>"
proof -
  show "gomap_get (sm_snaps (du_store at_rest)) ''b'' =
      Some \<lparr>snap_Seq = 1, snap_Shapes = [\<lparr>ss_Seq = 1, ss_ID = ''a'', ss_Shape = Some ''2''\<rparr>]\<rparr>"
    unfolding at_rest_def Let_def at_checkpoint_state by code_simp
  obtain r m where s: "mem_Snapshot drawn ''b'' = (r, m)" by fastforce
  have m: "du_broker at_rest = m"
    using s by (cases r) (simp_all add: at_rest_def Let_def at_checkpoint_state save_fetch_def memory_broker_def)
  note l = mem_Snapshot_law [OF drawn_doc(2) s]
  show "Memory_ok (du_broker at_rest)" using l m by simp
  show "mem_doc (du_broker at_rest) ''b'' = doc_apply ''a'' ''2'' False empty_doc"
    using l(2) m drawn_doc(1) by (simp add: mem_doc_def)
qed

lemma released_reach: "mem_durable released"
proof -
  let ?m = "snd (mem_ApplyShape (du_broker at_rest) ''b'' ''s'' (Some ''1'') False)"
  have "mem_durable (at_rest\<lparr>du_broker := ?m, du_late := ''b'' # du_late at_rest\<rparr>)"
    using applied_reach [OF at_rest_reach, of "''s''" "Some ''1''" False] by (simp add: at_rest_state at_rest_data empty_doc_def)
  then show ?thesis
    unfolding released_def Let_def
    apply (intro hub_moves [OF hub_moves [OF _ hub_step.serve_end] release_step])
          apply (simp_all add: hub_eval at_rest_state)
    done
qed

lemma released_state:
  "h_ids (du_hub released) = [''b'']" "h_done (du_hub released) = [0]" "h_conns (du_hub released) = [Finishing]"
  "h_draining (du_hub released) = [0]" "h_shutdown (du_hub released) = TellingQuit []" "h_sessions (du_hub released) = 1"
  "mem_doc (du_broker released) ''b'' = doc_apply ''s'' ''1'' False (doc_apply ''a'' ''2'' False empty_doc)" "du_store released = du_store at_rest"
proof -
  have "d_seq (mem_doc (du_broker at_rest) ''b'') \<noteq> - 1" by (simp add: at_rest_data empty_doc_def)
  then have "mb_seq (the_board (du_broker at_rest) ''b'') \<noteq> - 1" by (auto simp: mem_doc_def memBoard_doc_def)
  from mem_ApplyShape_law(4) [OF at_rest_data(2) this surjective_pairing]
  show "mem_doc (du_broker released) ''b'' = doc_apply ''s'' ''1'' False (doc_apply ''a'' ''2'' False empty_doc)"
    by (simp add: released_def Let_def at_rest_data(1))
qed (simp_all add: released_def hub_eval at_rest_state)

lemma mem_start: "durable_ok Memory_ok mem_doc (\<lambda>m. gomap_ok (sm_snaps m)) (\<lambda>m. gomap_get (sm_snaps m)) (\<lambda>b x. True) (\<lambda>x. x)
    (du_start NewMemory NewMemStore)"
  by (rule memdur.good_start) (simp_all add: mem_doc_def the_board_get NewMemory_def NewMemStore_def storable_def
    NewMemory_ok [unfolded NewMemory_def])

lemma at_rest_restart:
  "mem_doc (fst (hydrate memory_broker memory_store (NewMemory, du_store at_rest) ''b'')) ''b'' = doc_apply ''a'' ''2'' False empty_doc"
proof -
  have "boards_of (h_ids (du_hub at_rest)) ''b'' \<subseteq> set (h_done (du_hub at_rest))" by (auto simp: at_rest_state)
  then obtain y where "matches (\<lambda>x. x) (mem_doc (du_broker at_rest) ''b'') y"
    "mem_doc (fst (hydrate memory_broker memory_store (NewMemory, du_store at_rest) ''b'')) ''b'' = doc_of_snapshot y"
    using memdur.rest_durable [OF memdur.good_reach [OF at_rest_reach mem_start], of "''b''"] by (auto simp: at_rest_state)
  then show ?thesis by (auto simp: matches_def snapshot_of_def at_rest_data(1))
qed

lemma lost_operation_reach: "mem_durable lost_operation"
  unfolding lost_operation_def Let_def
  apply (rule hub_moves [OF _ hub_step.sessions_done])
     apply (rule hub_moves [OF _ hub_step.boards_done])
       apply (rule hub_moves [OF _ hub_step.board_done [where b = 0]])
          apply (rule hub_moves [OF _ hub_step.told_quit])
            apply (rule hub_moves [OF released_reach hub_step.finish])
              apply (simp_all add: goto_pc_def released_state)
  done

lemma lost_operation_state:
  "h_shutdown (du_hub lost_operation) = Drained" "h_ids (du_hub lost_operation) = [''b'']" "h_done (du_hub lost_operation) = [0]"
  "mem_doc (du_broker lost_operation) ''b'' = doc_apply ''s'' ''1'' False (doc_apply ''a'' ''2'' False empty_doc)" "du_store lost_operation = du_store at_rest"
  by (simp_all add: lost_operation_def Let_def released_state)

end
