(* ===== verification/WebClient.thy ===== *)
theory WebClient
  imports Protocol JsonArray Float64
begin

text \<open>
  The browser's side of the protocol, \<^verbatim>\<open>web/src/App.tsx\<close> and \<^verbatim>\<open>web/src/protocol.ts\<close>: what a client
  makes of every message the server sends, and what it sends when a rectangle has been drawn.
  Rendering and React are left out. A JavaScript value is kept as its JSON text, \<open>None\<close> is
  \<^verbatim>\<open>undefined\<close>; a string is its UTF-8 text; a number that is a sequence number is the double it
  is rounded to. An exception is an error beside the state it leaves.
\<close>

section \<open>JavaScript values\<close>

definition nullish :: "bytes option \<Rightarrow> bool" where
  "nullish v \<longleftrightarrow> v = None \<or> v = Some json_null"

text \<open>A property of a value: reading one of \<^verbatim>\<open>null\<close> or \<^verbatim>\<open>undefined\<close> throws; the last of equal keys counts.\<close>

definition js_prop :: "bytes option \<Rightarrow> bytes \<Rightarrow> bytes option go_result" where
  "js_prop v k =
     (if nullish v then Inl ''TypeError''
      else Inr (case object_members (the v) of None \<Rightarrow> None | Some ms \<Rightarrow> map_of (rev ms) k))"

text \<open>Ids and names are strings in all the server sends; any other value is outside the model.\<close>

definition js_string :: "bytes option \<Rightarrow> bytes go_result" where
  "js_string v = (case v of None \<Rightarrow> Inl ''no string'' | Some t \<Rightarrow> (case unquote t of None \<Rightarrow> Inl ''no string'' | Some s \<Rightarrow> Inr s))"

text \<open>\<^verbatim>\<open>env.seq ?? 0\<close>, for the integers the server sends: rounded to a double.\<close>

definition js_seq :: "bytes option \<Rightarrow> int go_result" where
  "js_seq v =
     (if nullish v then Inr 0
      else if the v \<noteq> [] \<and> list_all is_digit (the v) then Inr (f64_round (digits_val (the v)))
      else Inl ''no sequence number'')"

text \<open>
  Truthiness. A number is falsy if it is zero or so small that it rounds to zero: its digits
  without the point are \<open>d\<close>, the point stands \<open>f\<close> digits from the right and the exponent is \<open>x\<close>.
\<close>

definition js_zero_number :: "bytes \<Rightarrow> bool" where
  "js_zero_number v =
     (let mant = takeWhile (\<lambda>c. c \<noteq> CHR ''e'' \<and> c \<noteq> CHR ''E'') v;
          ex = drop (Suc (length mant)) v;
          d = digits_val (filter is_digit mant);
          f = int (length (drop 1 (dropWhile (\<lambda>c. c \<noteq> CHR ''.'') mant)));
          x = (if ex = [] then 0 else if hd ex = CHR ''-'' then - digits_val (filter is_digit ex) else digits_val (filter is_digit ex))
      in d = 0 \<or> x - f < 0 \<and> d * 2 ^ 1075 \<le> 10 ^ nat (f - x))"

definition js_truthy :: "bytes option \<Rightarrow> bool" where
  "js_truthy v =
     (case v of
        None \<Rightarrow> False
      | Some t \<Rightarrow> t \<noteq> json_null \<and> t \<noteq> ''false'' \<and> unquote t \<noteq> Some [] \<and> \<not> (scan_number t = Some [] \<and> js_zero_number t))"

section \<open>State\<close>

record StoredShape =
  sh_seq :: int
  sh_shape :: "bytes option"

record LiveCursor =
  lcu_x :: "bytes option"
  lcu_y :: "bytes option"
  lcu_color :: "bytes option"
  lcu_name :: "bytes option"

text \<open>The refs of the component; a JavaScript \<^verbatim>\<open>Map\<close> keeps the order of insertion.\<close>

record App =
  app_shapes :: "(bytes, StoredShape) gomap"
  app_cursors :: "(bytes, LiveCursor) gomap"
  app_presence :: "(bytes, bytes) gomap"
  app_self :: "bytes option"

definition App_init :: App where
  "App_init =
     \<lparr>app_shapes = [], app_cursors = [], app_presence = [],
      app_self = Some (json_object [(''clientId'', marshal_string []), (''color'', marshal_string ''#334155''), (''name'', marshal_string [])])\<rparr>"

section \<open>Messages\<close>

datatype MsgType =
    ShapeCreate | ShapeUpdate | ShapeDelete | CursorMsg | PresenceJoin | PresenceLeave | PresenceStateMsg | SnapshotMsg

definition msg_type :: "bytes \<Rightarrow> MsgType option" where
  "msg_type t =
     map_of [(''shape.create'', ShapeCreate), (''shape.update'', ShapeUpdate), (''shape.delete'', ShapeDelete),
       (''cursor'', CursorMsg), (''presence.join'', PresenceJoin), (''presence.leave'', PresenceLeave),
       (''presence.state'', PresenceStateMsg), (''snapshot'', SnapshotMsg)] t"

text \<open>A snapshot replaces the shapes; an exception in the loop leaves what was set before it.\<close>

definition stored_shape :: "bytes \<Rightarrow> (bytes \<times> StoredShape) go_result" where
  "stored_shape s =
     bind_result (bind_result (js_prop (Some s) ''id'') js_string) (\<lambda>i.
     bind_result (bind_result (js_prop (Some s) ''seq'') js_seq) (\<lambda>q.
     bind_result (js_prop (Some s) ''shape'') (\<lambda>sh. Inr (i, \<lparr>sh_seq = q, sh_shape = sh\<rparr>))))"

fun snapshot_loop :: "bytes list \<Rightarrow> App \<Rightarrow> go_error option \<times> App" where
  "snapshot_loop [] a = (None, a)"
| "snapshot_loop (s # ss) a =
     (case stored_shape s of
        Inl e \<Rightarrow> (Some e, a)
      | Inr (i, sh) \<Rightarrow> snapshot_loop ss (a\<lparr>app_shapes := gomap_put i sh (app_shapes a)\<rparr>))"

definition on_Snapshot :: "bytes option \<Rightarrow> App \<Rightarrow> go_error option \<times> App" where
  "on_Snapshot payload a =
     (let a1 = a\<lparr>app_shapes := []\<rparr> in
      case js_prop payload ''shapes'' of
        Inl e \<Rightarrow> (Some e, a1)
      | Inr v \<Rightarrow>
          if nullish v then (None, a1)
          else (case array_elements (the v) of None \<Rightarrow> (Some ''TypeError'', a1) | Some ss \<Rightarrow> snapshot_loop ss a1))"

text \<open>Last write wins by the server's sequence number; an operation without a shape is ignored.\<close>

definition on_ShapeUpdate :: "bytes option \<Rightarrow> bytes option \<Rightarrow> App \<Rightarrow> go_error option \<times> App" where
  "on_ShapeUpdate seq payload a =
     (case bind_result (bind_result (js_prop payload ''id'') js_string) (\<lambda>i.
           bind_result (js_prop payload ''shape'') (\<lambda>sh.
           bind_result (js_seq seq) (\<lambda>q. Inr (i, sh, q)))) of
        Inl e \<Rightarrow> (Some e, a)
      | Inr (i, sh, q) \<Rightarrow>
          (None,
           if js_truthy sh \<and> (case gomap_get (app_shapes a) i of None \<Rightarrow> True | Some cur \<Rightarrow> q \<ge> sh_seq cur)
           then a\<lparr>app_shapes := gomap_put i \<lparr>sh_seq = q, sh_shape = sh\<rparr> (app_shapes a)\<rparr> else a))"

definition on_ShapeDelete :: "bytes option \<Rightarrow> App \<Rightarrow> go_error option \<times> App" where
  "on_ShapeDelete payload a =
     (case bind_result (js_prop payload ''id'') js_string of
        Inl e \<Rightarrow> (Some e, a)
      | Inr i \<Rightarrow> (None, a\<lparr>app_shapes := gomap_del i (app_shapes a)\<rparr>))"

text \<open>\<^verbatim>\<open>p?.k ?? d\<close>.\<close>

definition or_else :: "bytes option \<Rightarrow> bytes \<Rightarrow> bytes \<Rightarrow> bytes option" where
  "or_else p k d =
     (case p of
        None \<Rightarrow> Some (marshal_string d)
      | Some v \<Rightarrow> (case js_prop (Some v) k of Inl e \<Rightarrow> Some (marshal_string d) | Inr x \<Rightarrow> if nullish x then Some (marshal_string d) else x))"

definition on_Cursor :: "bytes option \<Rightarrow> App \<Rightarrow> go_error option \<times> App" where
  "on_Cursor payload a =
     (case bind_result (bind_result (js_prop payload ''clientId'') js_string) (\<lambda>i.
           bind_result (js_prop payload ''x'') (\<lambda>x. bind_result (js_prop payload ''y'') (\<lambda>y. Inr (i, x, y)))) of
        Inl e \<Rightarrow> (Some e, a)
      | Inr (i, x, y) \<Rightarrow>
          let p = gomap_get (app_presence a) i in
          (None, a\<lparr>app_cursors := gomap_put i
             \<lparr>lcu_x = x, lcu_y = y, lcu_color = or_else p ''color'' ''#888'', lcu_name = or_else p ''name'' []\<rparr> (app_cursors a)\<rparr>))"

definition set_presence :: "bytes option \<Rightarrow> App \<Rightarrow> go_error option \<times> App" where
  "set_presence p a =
     (case bind_result (js_prop p ''clientId'') js_string of
        Inl e \<Rightarrow> (Some e, a)
      | Inr i \<Rightarrow> (None, a\<lparr>app_presence := gomap_put i (the p) (app_presence a)\<rparr>))"

fun presence_loop :: "bytes option list \<Rightarrow> App \<Rightarrow> go_error option \<times> App" where
  "presence_loop [] a = (None, a)"
| "presence_loop (p # ps) a =
     (case set_presence p a of (Some e, a1) \<Rightarrow> (Some e, a1) | (None, a1) \<Rightarrow> presence_loop ps a1)"

definition on_PresenceState :: "bytes option \<Rightarrow> App \<Rightarrow> go_error option \<times> App" where
  "on_PresenceState payload a =
     (case js_prop payload ''self'' of
        Inl e \<Rightarrow> (Some e, a)
      | Inr self \<Rightarrow>
          let a1 = a\<lparr>app_self := self, app_presence := []\<rparr> in
          (case js_prop payload ''others'' of
             Inl e \<Rightarrow> (Some e, a1)
           | Inr v \<Rightarrow>
               if nullish v then (Some ''TypeError'', a1)
               else (case array_elements (the v) of
                 None \<Rightarrow> (Some ''TypeError'', a1)
               | Some ps \<Rightarrow> presence_loop (self # map Some ps) a1)))"

definition on_PresenceLeave :: "bytes option \<Rightarrow> App \<Rightarrow> go_error option \<times> App" where
  "on_PresenceLeave payload a =
     (case bind_result (js_prop payload ''clientId'') js_string of
        Inl e \<Rightarrow> (Some e, a)
      | Inr i \<Rightarrow> (None, a\<lparr>app_presence := gomap_del i (app_presence a), app_cursors := gomap_del i (app_cursors a)\<rparr>))"

text \<open>The handler of one envelope by its fields, and \<^verbatim>\<open>onmessage\<close>, which parses it first.\<close>

definition handle_fields :: "bytes \<Rightarrow> bytes option \<Rightarrow> bytes option \<Rightarrow> App \<Rightarrow> go_error option \<times> App" where
  "handle_fields typ seq payload a =
     (case msg_type typ of
        None \<Rightarrow> (None, a)
      | Some SnapshotMsg \<Rightarrow> on_Snapshot payload a
      | Some ShapeCreate \<Rightarrow> on_ShapeUpdate seq payload a
      | Some ShapeUpdate \<Rightarrow> on_ShapeUpdate seq payload a
      | Some ShapeDelete \<Rightarrow> on_ShapeDelete payload a
      | Some CursorMsg \<Rightarrow> on_Cursor payload a
      | Some PresenceStateMsg \<Rightarrow> on_PresenceState payload a
      | Some PresenceJoin \<Rightarrow> set_presence payload a
      | Some PresenceLeave \<Rightarrow> on_PresenceLeave payload a)"

definition handleMessage :: "bytes \<Rightarrow> App \<Rightarrow> go_error option \<times> App" where
  "handleMessage data a =
     (if \<not> json_valid data then (Some ''SyntaxError'', a)
      else
        let env = map_option fst (take_value data) in
        (case bind_result (js_prop env ''type'') (\<lambda>t. bind_result (js_prop env ''seq'') (\<lambda>q.
              bind_result (js_prop env ''payload'') (\<lambda>p. Inr (t, q, p)))) of
           Inl e \<Rightarrow> (Some e, a)
         | Inr (t, q, p) \<Rightarrow>
             (case js_string t of Inl e \<Rightarrow> (None, a) | Inr typ \<Rightarrow> handle_fields typ q p a)))"

text \<open>Every message is handled, whatever became of the one before.\<close>

definition handle_all :: "bytes list \<Rightarrow> App \<Rightarrow> App" where
  "handle_all ms a = fold (\<lambda>m a. snd (handleMessage m a)) ms a"

text \<open>
  A finished rectangle: it is drawn at once under sequence number 0 and sent; the server's echo
  is meant to reconcile it. \<open>rect\<close> is the text of the shape, \<open>uid\<close> the random id.
\<close>

definition onPointerUp :: "bytes \<Rightarrow> bytes \<Rightarrow> App \<Rightarrow> bytes \<times> App" where
  "onPointerUp uid rect a =
     (json_object [(''type'', marshal_string ''shape.create''),
        (''payload'', json_object [(''id'', marshal_string uid), (''shape'', rect)])],
      a\<lparr>app_shapes := gomap_put uid \<lparr>sh_seq = 0, sh_shape = Some rect\<rparr> (app_shapes a)\<rparr>)"

text \<open>What the render loop touches: painting a shape that is null or undefined throws, and ends the loop.\<close>

definition paintable :: "StoredShape \<Rightarrow> bool" where
  "paintable s \<longleftrightarrow> \<not> nullish (sh_shape s)"

definition paint_ok :: "App \<Rightarrow> bool" where
  "paint_ok a \<longleftrightarrow> list_all (paintable \<circ> snd) (app_shapes a)"

section \<open>The client understands the server\<close>

definition shown :: "App \<Rightarrow> bytes \<rightharpoonup> int \<times> bytes option" where
  "shown a i = map_option (\<lambda>s. (sh_seq s, sh_shape s)) (gomap_get (app_shapes a) i)"

lemma js_prop_object:
  "list_all (canonical \<circ> snd) ms \<Longrightarrow> js_prop (Some (json_object ms)) k = Inr (map_of (rev ms) k)"
  by (simp add: js_prop_def nullish_def object_members_object) (simp add: json_object_def json_null_def)

lemma js_string_marshal [simp]: "js_string (Some (marshal_string s)) = Inr s"
  by (simp add: js_string_def)

lemma js_seq_format: "js_seq (if q = 0 then None else Some (format_uint q)) = Inr (f64_round (uint q))"
  "js_seq (Some (format_uint q)) = Inr (f64_round (uint q))"
proof -
  have d: "format_uint q \<noteq> []" "list_all is_digit (format_uint q)" "digits_val (format_uint q) = uint q"
    using format_int_digits [of "uint q"] by (simp_all add: format_uint_def)
  then have "format_uint q \<noteq> json_null" by (auto simp: json_null_def is_digit_def)
  with d show s: "js_seq (Some (format_uint q)) = Inr (f64_round (uint q))" by (simp add: js_seq_def nullish_def)
  have "js_seq None = Inr 0" by (simp add: js_seq_def nullish_def)
  with s show "js_seq (if q = 0 then None else Some (format_uint q)) = Inr (f64_round (uint q))"
    by (simp add: f64_round_exact)
qed

lemma js_envelope:
  assumes "canonical raw"
  obtains data where "Marshal t seq (Inr raw) = Inr data"
    "\<And>a. handleMessage data a = handle_fields t (if seq = 0 then None else Some (format_uint seq)) (Some raw) a"
proof -
  let ?ms = "(''type'', marshal_string t) # omit_empty (seq = 0) ''seq'' (format_uint seq) @ [(''payload'', raw)]"
  have ms: "list_all (canonical \<circ> snd) ?ms"
    using assms by (simp add: omit_empty_def canonical_string canonical_uint)
  have c: "canonical (json_object ?ms)" using ms by (rule canonical_object)
  have m: "Marshal t seq (Inr raw) = Inr (json_object ?ms)"
    using assms by (simp add: Marshal_def marshal_Envelope_def canonical_ne marshal_raw_canonical)
  have "take_value (json_object ?ms) = Some (json_object ?ms, [])"
    using take_value_canonical [OF c, of "[]"] by simp
  then have "handleMessage (json_object ?ms) a = handle_fields t (if seq = 0 then None else Some (format_uint seq)) (Some raw) a" for a
    using canonical_json_valid [OF c]
    by (simp add: handleMessage_def js_prop_object [OF ms] Let_def) (simp add: omit_empty_def)
  with m that show thesis by blast
qed

lemma msg_type_tags:
  "msg_type TypeShapeCreate = Some ShapeCreate" "msg_type TypeShapeUpdate = Some ShapeUpdate"
  "msg_type TypeShapeDelete = Some ShapeDelete" "msg_type TypeSnapshot = Some SnapshotMsg" "msg_type TypeCursor = Some CursorMsg"
  "msg_type TypePresenceJoin = Some PresenceJoin" "msg_type TypePresenceLeave = Some PresenceLeave"
  "msg_type TypePresenceState = Some PresenceStateMsg" "msg_type TypeError = None"
  by code_simp+

text \<open>A shape operation as the server relays it.\<close>

lemma handle_shape_message:
  assumes "op_Shape op = None \<or> (\<exists>s. op_Shape op = Some s \<and> json_valid s)"
    "t \<in> {TypeShapeCreate, TypeShapeUpdate, TypeShapeDelete}" "Marshal t q (marshal_ShapeOp op) = Inr msg"
  shows "handleMessage msg a = (None,
    if t = TypeShapeDelete then a\<lparr>app_shapes := gomap_del (op_ID op) (app_shapes a)\<rparr>
    else if js_truthy (map_option (compact False) (op_Shape op)) \<and>
      (case gomap_get (app_shapes a) (op_ID op) of None \<Rightarrow> True | Some cur \<Rightarrow> f64_round (uint q) \<ge> sh_seq cur)
    then a\<lparr>app_shapes := gomap_put (op_ID op)
      \<lparr>sh_seq = f64_round (uint q), sh_shape = map_option (compact False) (op_Shape op)\<rparr> (app_shapes a)\<rparr>
    else a)"
proof -
  define ms where "ms = (''id'', marshal_string (op_ID op)) #
    (case op_Shape op of None \<Rightarrow> [] | Some s \<Rightarrow> [(''shape'', compact False s)])"
  have valid: "json_valid s \<Longrightarrow> s \<noteq> []" for s by (auto simp: json_valid_def scan_def)
  have m: "marshal_ShapeOp op = Inr (json_object ms)"
    using assms(1) valid by (auto simp: marshal_ShapeOp_def ms_def marshal_raw_def)
  have ms: "list_all (canonical \<circ> snd) ms"
    using assms(1) by (auto simp: ms_def canonical_string canonical_compact)
  obtain data where data: "Marshal t q (Inr (json_object ms)) = Inr data"
    "\<And>a. handleMessage data a = handle_fields t (if q = 0 then None else Some (format_uint q)) (Some (json_object ms)) a"
    by (rule js_envelope [OF canonical_object [OF ms], of t q]) (rule that)
  have props: "js_prop (Some (json_object ms)) ''id'' = Inr (Some (marshal_string (op_ID op)))"
    "js_prop (Some (json_object ms)) ''shape'' = Inr (map_option (compact False) (op_Shape op))"
    using ms by (simp_all add: js_prop_object) (simp_all add: ms_def split: option.split)
  have tags: "TypeShapeCreate \<noteq> TypeShapeDelete" "TypeShapeUpdate \<noteq> TypeShapeDelete" by code_simp+
  obtain sv where sv: "sv = (if q = 0 then None else Some (format_uint q))" "js_seq sv = Inr (f64_round (uint q))"
    using js_seq_format(1) by blast
  have "handleMessage msg a = handle_fields t sv (Some (json_object ms)) a"
    using assms(3) data(1) data(2) [of a] m by (simp add: sv(1))
  then show ?thesis
    using assms(2) tags
    by (elim insertE) (simp_all add: handle_fields_def msg_type_tags on_ShapeUpdate_def on_ShapeDelete_def props sv(2))
qed

text \<open>A snapshot as the server sends it.\<close>

definition shape_text :: "slice \<Rightarrow> bytes" where
  "shape_text sh = (case sh of None \<Rightarrow> json_null | Some s \<Rightarrow> compact False s)"

definition snapshot_entry_js :: "SnapshotShape \<Rightarrow> bytes \<times> StoredShape" where
  "snapshot_entry_js x = (ss_ID x, \<lparr>sh_seq = f64_round (uint (ss_Seq x)), sh_shape = Some (shape_text (ss_Shape x))\<rparr>)"

definition shape_encodes :: "slice \<Rightarrow> bool" where
  "shape_encodes sh \<longleftrightarrow> (case sh of None \<Rightarrow> True | Some s \<Rightarrow> json_valid s)"

lemma canonical_null: "canonical json_null"
proof -
  have "marshal_raw None = Inr json_null" by (simp add: marshal_raw_def)
  then show ?thesis by (rule marshal_raw_Inr)
qed

lemma shape_text_canonical: "shape_encodes sh \<Longrightarrow> canonical (shape_text sh)"
  by (auto simp: shape_encodes_def shape_text_def canonical_null canonical_compact split: option.splits)

definition snapshot_members :: "SnapshotShape \<Rightarrow> (bytes \<times> bytes) list" where
  "snapshot_members x = [(''seq'', format_uint (ss_Seq x)), (''id'', marshal_string (ss_ID x)), (''shape'', shape_text (ss_Shape x))]"

lemma marshal_shape_members:
  "shape_encodes (ss_Shape x) \<Longrightarrow> marshal_SnapshotShape x = Inr (json_object (snapshot_members x))"
  by (auto simp: marshal_SnapshotShape_def snapshot_members_def shape_encodes_def shape_text_def marshal_raw_def split: option.splits)

lemma snapshot_members_canonical: "shape_encodes (ss_Shape x) \<Longrightarrow> list_all (canonical \<circ> snd) (snapshot_members x)"
  by (simp add: snapshot_members_def canonical_uint canonical_string shape_text_canonical)

lemma stored_shape_object:
  "shape_encodes (ss_Shape x) \<Longrightarrow> stored_shape (json_object (snapshot_members x)) = Inr (snapshot_entry_js x)"
  using snapshot_members_canonical [of x]
  by (simp add: stored_shape_def js_prop_object) (simp add: snapshot_members_def js_seq_format(2) snapshot_entry_js_def)

lemma gomap_put_new: "k \<notin> fst ` set m \<Longrightarrow> gomap_put k v m = m @ [(k, v)]"
  by (induction m) auto

lemma snapshot_loop_objects:
  assumes "list_all (shape_encodes \<circ> ss_Shape) xs" "distinct (map fst (app_shapes a) @ map ss_ID xs)"
  shows "snapshot_loop (map (\<lambda>x. json_object (snapshot_members x)) xs) a =
    (None, a\<lparr>app_shapes := app_shapes a @ map snapshot_entry_js xs\<rparr>)"
  using assms
proof (induction xs arbitrary: a)
  case (Cons x xs)
  obtain sh where sh: "snapshot_entry_js x = (ss_ID x, sh)" by (simp add: snapshot_entry_js_def)
  have "gomap_put (ss_ID x) sh (app_shapes a) = app_shapes a @ [(ss_ID x, sh)]"
    using Cons.prems(2) by (intro gomap_put_new) auto
  with Cons.IH [of "a\<lparr>app_shapes := app_shapes a @ [(ss_ID x, sh)]\<rparr>"] Cons.prems sh show ?case
    by (simp add: stored_shape_object)
qed simp

lemma map_result_members:
  "list_all (shape_encodes \<circ> ss_Shape) xs \<Longrightarrow>
    map_result marshal_SnapshotShape xs = Inr (map (\<lambda>x. json_object (snapshot_members x)) xs)"
  by (induction xs) (simp_all add: marshal_shape_members)

lemma handle_snapshot_message:
  assumes "list_all (shape_encodes \<circ> ss_Shape) (snap_Shapes snap)" "distinct (map ss_ID (snap_Shapes snap))"
  obtains msg where "Marshal TypeSnapshot 0 (marshal_Snapshot snap) = Inr msg"
    "\<And>a. handleMessage msg a = (None, a\<lparr>app_shapes := map snapshot_entry_js (snap_Shapes snap)\<rparr>)"
proof -
  let ?vs = "map (\<lambda>x. json_object (snapshot_members x)) (snap_Shapes snap)"
  let ?ms = "[(''seq'', format_uint (snap_Seq snap)), (''shapes'', json_array ?vs)]"
  have vs: "list_all canonical ?vs"
    using assms(1) by (auto simp: list_all_iff intro!: canonical_object snapshot_members_canonical)
  have ms: "list_all (canonical \<circ> snd) ?ms" using canonical_array [OF vs] by (simp add: canonical_uint)
  obtain msg where msg: "Marshal TypeSnapshot 0 (Inr (json_object ?ms)) = Inr msg"
    "\<And>a. handleMessage msg a = handle_fields TypeSnapshot None (Some (json_object ?ms)) a"
    using js_envelope [OF canonical_object [OF ms], of TypeSnapshot 0] by auto
  have nn: "json_array ?vs \<noteq> json_null" by (simp add: json_array_def json_null_def)
  have "on_Snapshot (Some (json_object ?ms)) a = (None, a\<lparr>app_shapes := map snapshot_entry_js (snap_Shapes snap)\<rparr>)" for a
    using snapshot_loop_objects [OF assms(1), of "a\<lparr>app_shapes := []\<rparr>"] assms(2) nn
    by (simp add: on_Snapshot_def Let_def js_prop_object [OF ms] nullish_def array_elements_array [OF vs])
  moreover have "marshal_Snapshot snap = Inr (json_object ?ms)"
    using map_result_members [OF assms(1)] by (simp add: marshal_Snapshot_def)
  ultimately show thesis using that [of msg] msg by (simp add: handle_fields_def msg_type_tags)
qed

text \<open>No other message touches the shapes.\<close>

lemma presence_loop_shapes: "app_shapes (snd (presence_loop ps a)) = app_shapes a"
  by (induction ps arbitrary: a) (auto simp: set_presence_def split: sum.split)

lemma handle_other_message:
  assumes "canonical raw" "t \<notin> {TypeShapeCreate, TypeShapeUpdate, TypeShapeDelete, TypeSnapshot}" "Marshal t q (Inr raw) = Inr msg"
  shows "app_shapes (snd (handleMessage msg a)) = app_shapes a"
proof -
  have ty: "msg_type t \<notin> {Some ShapeCreate, Some ShapeUpdate, Some ShapeDelete, Some SnapshotMsg}"
    using assms(2) by (auto simp: msg_type_def type_tags split: if_splits)
  obtain data where d: "Marshal t q (Inr raw) = Inr data"
    "\<And>a. handleMessage data a = handle_fields t (if q = 0 then None else Some (format_uint q)) (Some raw) a"
    by (rule js_envelope [OF assms(1), of t q]) (rule that)
  have "app_shapes (snd (handle_fields t s p a)) = app_shapes a" for s p
    using ty
    by (auto simp: handle_fields_def on_Cursor_def on_PresenceState_def on_PresenceLeave_def set_presence_def Let_def presence_loop_shapes
        split: option.splits MsgType.splits sum.splits)
  with d assms(3) show ?thesis by simp
qed

end
