(* ===== verification/Screen.thy ===== *)
theory Screen
  imports WebClient ClientLaws
begin

text \<open>
  What a browser shows of a board, against the document the broker keeps: the shapes a client
  draws as a function of the messages queued for it, how one operation changes them, and why a
  client that has had a snapshot needs nothing but the operations that follow, in their order,
  some of them possibly a second time.
\<close>

section \<open>The screen\<close>

text \<open>A document as a browser shows it: stamps as doubles, shapes as JSON texts.\<close>

definition shown_doc :: "doc \<Rightarrow> bytes \<rightharpoonup> int \<times> bytes option" where
  "shown_doc d i = map_option (\<lambda>(q, b). (f64_round (uint q), Some (compact False b))) (d_shapes d i)"

text \<open>The operation with sequence number \<open>q\<close>, as a browser applies it.\<close>

definition react :: "u64 \<Rightarrow> shape_write \<Rightarrow> (bytes \<rightharpoonup> int \<times> bytes option) \<Rightarrow> (bytes \<rightharpoonup> int \<times> bytes option)" where
  "react q op X =
     (case op of (i, b, del) \<Rightarrow>
        if del then X(i := None)
        else if (case X i of None \<Rightarrow> True | Some (p, v) \<Rightarrow> p \<le> f64_round (uint q))
        then X(i \<mapsto> (f64_round (uint q), Some (compact False b))) else X)"

definition screen :: "bytes list \<Rightarrow> bytes \<rightharpoonup> int \<times> bytes option" where
  "screen ms = shown (handle_all ms App_init)"

text \<open>Messages that leave the shapes alone, and messages that carry an operation.\<close>

definition inert :: "bytes \<Rightarrow> bool" where
  "inert m \<longleftrightarrow> (\<forall>a. shown (snd (handleMessage m a)) = shown a)"

definition writes :: "u64 \<Rightarrow> shape_write \<Rightarrow> bytes \<Rightarrow> bool" where
  "writes q op m \<longleftrightarrow> \<not> is_cursor m \<and> (\<forall>a. shown (snd (handleMessage m a)) = react q op (shown a))"

definition shows_doc :: "doc \<Rightarrow> bytes \<Rightarrow> bool" where
  "shows_doc d m \<longleftrightarrow> (\<forall>a. shown (snd (handleMessage m a)) = shown_doc d)"

lemma screen_snoc: "screen (ms @ [m]) = shown (snd (handleMessage m (handle_all ms App_init)))"
  by (simp add: screen_def handle_all_def)

lemma screen_snoc_cases:
  "inert m \<Longrightarrow> screen (ms @ [m]) = screen ms"
  "writes q op m \<Longrightarrow> screen (ms @ [m]) = react q op (screen ms)"
  "shows_doc d m \<Longrightarrow> screen (ms @ [m]) = shown_doc d"
  unfolding screen_snoc by (simp_all add: inert_def writes_def shows_doc_def screen_def)

section \<open>What the server's messages do\<close>

text \<open>An operation a browser can draw: a deletion, or a shape that is truthy.\<close>

definition drawable :: "shape_write \<Rightarrow> bool" where
  "drawable op \<longleftrightarrow> (case op of (i, b, del) \<Rightarrow> del \<or> b \<noteq> [] \<and> js_truthy (Some (compact False b)))"

lemma shown_upd:
  "shown (a\<lparr>app_shapes := gomap_put i s (app_shapes a)\<rparr>) = (shown a)(i \<mapsto> (sh_seq s, sh_shape s))"
  "shown (a\<lparr>app_shapes := gomap_del i (app_shapes a)\<rparr>) = (shown a)(i := None)"
  by (auto simp: shown_def fun_eq_iff)

lemma shape_message_writes:
  assumes "DecodePayload env set_ShapeOp zero_ShapeOp = (None, op)" "t \<in> {TypeShapeCreate, TypeShapeUpdate, TypeShapeDelete}"
    "drawable (op_ID op, slice_bytes (op_Shape op), t = TypeShapeDelete)" "Marshal t q (marshal_ShapeOp op) = Inr msg"
  shows "writes q (op_ID op, slice_bytes (op_Shape op), t = TypeShapeDelete) msg"
proof -
  have sh: "op_Shape op = None \<or> (\<exists>s. op_Shape op = Some s \<and> json_valid s)" using decoded_shape_valid [OF assms(1)] .
  obtain msg' env' where "Marshal t q (marshal_ShapeOp op) = Inr msg'" "unmarshal_Envelope msg' = (None, env')" "env_Type env' = t"
    using shape_message [OF assms(1)] by metis
  then have "\<not> is_cursor msg" using assms(2,4) by (auto simp: is_cursor_def type_tags)
  moreover have "shown (snd (handleMessage msg a)) = react q (op_ID op, slice_bytes (op_Shape op), t = TypeShapeDelete) (shown a)" for a
  proof (cases "t = TypeShapeDelete")
    case True
    then show ?thesis by (simp add: handle_shape_message [OF sh assms(2,4)] react_def shown_upd)
  next
    case False
    then obtain s where s: "op_Shape op = Some s" "js_truthy (Some (compact False s))"
      using assms(3) by (cases "op_Shape op") (auto simp: drawable_def)
    have "(case gomap_get (app_shapes a) (op_ID op) of None \<Rightarrow> True | Some cur \<Rightarrow> sh_seq cur \<le> f64_round (uint q)) =
        (case shown a (op_ID op) of None \<Rightarrow> True | Some (p, v) \<Rightarrow> p \<le> f64_round (uint q))"
      by (simp add: shown_def split: option.split)
    with False s show ?thesis by (simp add: handle_shape_message [OF sh assms(2,4)] react_def shown_upd)
  qed
  ultimately show ?thesis by (simp add: writes_def)
qed

lemma other_message_inert:
  assumes "canonical raw" "t \<notin> {TypeShapeCreate, TypeShapeUpdate, TypeShapeDelete, TypeSnapshot}" "Marshal t q (Inr raw) = Inr msg"
  shows "inert msg"
  using handle_other_message [OF assms] by (simp add: inert_def shown_def fun_eq_iff)

lemma presence_message_inert:
  "t \<in> {TypePresenceJoin, TypePresenceLeave} \<Longrightarrow> Marshal t 0 (marshal_Presence p) = Inr msg \<Longrightarrow> inert msg"
  by (rule other_message_inert [OF canonical_presence [of p]]) (auto simp: marshal_Presence_def type_tags)

lemma state_message_inert:
  assumes "Marshal TypePresenceState 0 (marshal_PresenceState st) = Inr msg"
  shows "inert msg"
proof (rule other_message_inert)
  show "canonical (json_object [(''self'', presence_object (ps_Self st)), (''others'', json_array (map presence_object (ps_Others st)))])"
    by (rule canonical_object) (simp add: canonical_presence canonical_array list_all_iff)
  show "Marshal TypePresenceState 0 (Inr (json_object [(''self'', presence_object (ps_Self st)),
      (''others'', json_array (map presence_object (ps_Others st)))])) = Inr msg"
    using assms by (simp add: marshal_PresenceState_def)
qed (simp add: type_tags)

lemma cursor_message_inert:
  assumes "DecodePayload env set_Cursor zero_Cursor = (None, cur)"
    "Marshal TypeCursor 0 (marshal_Cursor (cur\<lparr>cur_ClientID := i\<rparr>)) = Inr msg"
  shows "inert msg"
proof (rule other_message_inert)
  let ?ms = "[(''clientId'', marshal_string i), (''x'', cur_X cur), (''y'', cur_Y cur)]"
  show "canonical (json_object ?ms)"
    using decoded_cursor_numbers [OF assms(1)] by (intro canonical_object) (simp add: canonical_string canonical_number)
  show "Marshal TypeCursor 0 (Inr (json_object ?ms)) = Inr msg" using assms(2) by (simp add: marshal_Cursor_def)
qed (simp add: type_tags)

text \<open>A snapshot of a document whose blobs are JSON shows exactly that document.\<close>

lemma snapshot_message_shows:
  assumes "snapshot_of d snap" "\<And>i q b. d_shapes d i = Some (q, b) \<Longrightarrow> json_valid b"
  obtains msg where "Marshal TypeSnapshot 0 (marshal_Snapshot snap) = Inr msg" "shows_doc d msg"
proof -
  have dist: "distinct (map ss_ID (snap_Shapes snap))" and d: "doc_of_snapshot snap = d"
    using assms(1) by (simp_all add: snapshot_of_def snap_ok_def)
  have sh: "\<exists>s. ss_Shape x = Some s \<and> json_valid s" if "x \<in> set (snap_Shapes snap)" for x
  proof -
    have v: "json_valid (slice_bytes (ss_Shape x))"
      using that doc_of_snapshot_iff [OF dist, of "ss_ID x" "ss_Seq x"] by (intro assms(2)) (auto simp: d)
    then have "slice_bytes (ss_Shape x) \<noteq> []" by (auto simp: json_valid_def scan_def)
    with v show ?thesis by (cases "ss_Shape x") auto
  qed
  then have enc: "list_all (shape_encodes \<circ> ss_Shape) (snap_Shapes snap)" by (force simp: list_all_iff shape_encodes_def)
  obtain msg where msg: "Marshal TypeSnapshot 0 (marshal_Snapshot snap) = Inr msg"
    "\<And>a. handleMessage msg a = (None, a\<lparr>app_shapes := map snapshot_entry_js (snap_Shapes snap)\<rparr>)"
    using handle_snapshot_message [OF enc dist] by metis
  let ?f = "\<lambda>(q, b). (f64_round (uint q), Some (compact False b))"
  have "map_option (\<lambda>s. (sh_seq s, sh_shape s)) (map_of (map snapshot_entry_js xs) i) = map_option ?f (map_of (map shape_entry xs) i)"
    if "set xs \<subseteq> set (snap_Shapes snap)" for xs i
    using that
  proof (induction xs)
    case (Cons x xs)
    then obtain s where "ss_Shape x = Some s" using sh [of x] by auto
    with Cons show ?case by (simp add: snapshot_entry_js_def shape_entry_def shape_text_def)
  qed simp
  moreover have "distinct (map fst (map shape_entry (snap_Shapes snap)))" using dist by (simp only: shape_entry_fst)
  ultimately have "shown (a\<lparr>app_shapes := map snapshot_entry_js (snap_Shapes snap)\<rparr>) = shown_doc d" for a
    unfolding d [symmetric]
    by (simp add: shown_def shown_doc_def doc_of_snapshot_def map_of_rev_distinct fun_eq_iff del: map_map)
  with msg that show thesis by (simp add: shows_doc_def)
qed

section \<open>Catching up\<close>

text \<open>
  The messages of a subscription carry the operations \<open>ops\<close> of the board, with the sequence
  numbers after \<open>q\<close>, among others that do not concern the shapes.
\<close>

inductive carries :: "u64 \<Rightarrow> shape_write list \<Rightarrow> bytes list \<Rightarrow> bool" where
  none: "carries q [] []"
| other: "inert m \<Longrightarrow> carries q ops ms \<Longrightarrow> carries q ops (m # ms)"
| shape_op: "writes (q + 1) op m \<Longrightarrow> carries (q + 1) ops ms \<Longrightarrow> carries q (op # ops) (m # ms)"

inductive_cases carries_NilE: "carries q ops []"
inductive_cases carries_ConsE: "carries q ops (m # ms)"

lemma carries_append:
  "carries q ops ms \<Longrightarrow> carries (q + of_nat (length ops)) ops' ms' \<Longrightarrow> carries q (ops @ ops') (ms @ ms')"
  by (induction rule: carries.induct) (auto simp: add.assoc intro: carries.intros)

text \<open>
  Each shape on the screen is that of the document at some moment between \<open>d\<close> and the end of the
  log \<open>ops\<close>, not necessarily the same moment for all.
\<close>

definition catching_up :: "doc \<Rightarrow> shape_write list \<Rightarrow> (bytes \<rightharpoonup> int \<times> bytes option) \<Rightarrow> bool" where
  "catching_up d ops X \<longleftrightarrow> (\<forall>i. \<exists>k \<le> length ops. X i = shown_doc (run_log (take k ops) d) i)"

lemma catching_up_snapshot: "catching_up d ops (shown_doc (run_log ops d))"
  by (auto simp: catching_up_def intro: exI [of _ "length ops"])

lemma catching_up_Nil: "catching_up d [] X \<longleftrightarrow> X = shown_doc d"
  by (auto simp: catching_up_def run_log_def fun_eq_iff)

lemma catching_up_more: "catching_up d ops X \<Longrightarrow> catching_up d (ops @ ops') X"
  unfolding catching_up_def by (metis le_add1 length_append take_append order_trans diff_is_0_eq take0 append_Nil2)

lemma catching_up_react:
  assumes "catching_up d (op # ops) X" "doc_ok d" "d_seq d \<noteq> - 1"
  shows "catching_up (run_log [op] d) ops (react (d_seq d + 1) op X)"
  unfolding catching_up_def
proof
  fix j
  obtain i b del where op: "op = (i, b, del)" by (cases op)
  let ?d = "run_log [op] d" and ?X = "react (d_seq d + 1) op X"
  have d1: "run_log [(i, b, del)] d = doc_apply i b del d" by (simp add: run_log_def)
  obtain k where k: "k \<le> Suc (length ops)" "X j = shown_doc (run_log (take k (op # ops)) d) j"
    using assms(1) by (auto simp: catching_up_def)
  have now: "\<exists>k \<le> length ops. shown_doc ?d j = shown_doc (run_log (take k ops) ?d) j"
    by (intro exI [of _ 0]) (simp add: run_log_def)
  show "\<exists>k \<le> length ops. ?X j = shown_doc (run_log (take k ops) ?d) j"
  proof (cases "?X j = shown_doc ?d j")
    case True
    with now show ?thesis by simp
  next
    case False
    have stale: "?X j = X j" using False by (auto simp: react_def op d1 shown_doc_def doc_apply_shapes split: if_splits)
    show ?thesis
    proof (cases k)
      case 0
      then have "X j = shown_doc d j" using k(2) by (simp add: run_log_def)
      moreover from this False stale have "j = i" by (auto simp: op d1 shown_doc_def doc_apply_shapes split: if_splits)
      moreover have "q \<le> d_seq d + 1" if "d_shapes d i = Some (q, c)" for q c
        using assms(2) that less_Suc_u64 [OF assms(3)] unfolding doc_ok_def by (meson order_trans less_imp_le)
      ultimately have "?X j = shown_doc ?d j"
        by (auto simp: react_def op d1 shown_doc_def doc_apply_shapes word_le_def intro!: f64_round_mono split: option.splits)
      with False show ?thesis by blast
    next
      case (Suc n)
      then have "X j = shown_doc (run_log (take n ops) ?d) j" using k(2) by (simp add: op run_log_def)
      with k(1) Suc stale show ?thesis by auto
    qed
  qed
qed

end
