(* ===== verification/Bus.thy ===== *)
theory Bus
  imports Instance Screen
begin

text \<open>
  The message bus between the instances: what a broker promises about its subscriptions on top
  of its document (the locale \<open>bus_broker\<close>), and what one step of an instance means for every
  subscriber and for every connected client. A step adds operations to the document and the
  messages that carry them to every subscription; a client gets them, or is disconnected.
\<close>

section \<open>One client and the board's loop\<close>

text \<open>The client is connected and what was queued for it satisfies \<open>ok\<close>, or it has left for good.\<close>

definition follows :: "(bytes list \<Rightarrow> bool) \<Rightarrow> nat \<Rightarrow> Board \<Rightarrow> bool" where
  "follows ok c s \<longleftrightarrow> c \<in> set (b_clients s) \<and> ok (got (b_heap s c)) \<or> shut (b_heap s c)"

text \<open>What a step of the loop queues for a client, unless there is no room.\<close>

definition sent :: "nat \<Rightarrow> board_event \<Rightarrow> bytes option" where
  "sent c e = (case e of Msg m \<Rightarrow> Some m | Direct d m \<Rightarrow> if d = c then Some m else None | _ \<Rightarrow> None)"

lemma follows_step:
  assumes "board_ok s" "admissible e s" "run_step e s = Inr t" "b_msgs s" "follows ok c s"
    and more: "\<And>g m. ok g \<Longrightarrow> sent c e = Some m \<Longrightarrow> ok' (g @ [m])"
    and same: "\<And>g. ok g \<Longrightarrow> (\<And>m. sent c e = Some m \<Longrightarrow> e = Msg m \<and> is_cursor m) \<Longrightarrow> ok' g"
  shows "follows ok' c t"
proof (cases "shut (b_heap s c)")
  case True
  then show ?thesis using step_shut [OF assms(1-3)] by (simp add: follows_def)
next
  case False
  then have c: "c \<in> set (b_clients s)" "ok (got (b_heap s c))" using assms(5) by (simp_all add: follows_def)
  show ?thesis
  proof (cases e)
    case (Register d)
    with assms(3) c same [OF c(2)] show ?thesis by (auto simp: follows_def join_def sent_def)
  next
    case (Unregister d)
    with c same [OF c(2)] Unregister_client(1,2) [OF assms(1) assms(3) [unfolded Unregister], of c]
    show ?thesis by (auto simp: follows_def sent_def split: if_splits)
  next
    case (Msg m)
    with c same [OF c(2)] more [OF c(2), of m] assms(4) Msg_client(1,2) [OF assms(1) assms(3) [unfolded Msg], of c]
    show ?thesis by (auto simp: follows_def sent_def best_effort_effect_def reliable_effect_def Let_def split: if_splits)
  next
    case (Direct d m)
    with c same [OF c(2)] more [OF c(2), of m] Direct_client(1,2) [OF assms(1) assms(3) [unfolded Direct], of c]
    show ?thesis by (cases "d = c") (auto simp: follows_def sent_def split: if_splits)
  next
    case Quit
    with c Quit_client(1) [OF assms(1) assms(3) [unfolded Quit], of c] show ?thesis by (simp add: follows_def)
  next
    case (Written d)
    with c same [OF c(2)] assms(3) show ?thesis by (auto simp: follows_def sent_def heap_take_written)
  next
    case MsgsEnded
    with c same [OF c(2)] assms(3) show ?thesis by (auto simp: follows_def sent_def)
  next
    case Inspect
    with c same [OF c(2)] assms(3) show ?thesis by (auto simp: follows_def sent_def)
  qed
qed

section \<open>The bus\<close>

text \<open>
  Subscribers of a board and what each has yet to receive. \<open>roomy\<close> says that no buffer on the way
  is full; \<open>tick\<close> is what the broker's own goroutines do.
\<close>

definition bus_unchanged ::
  "('b \<Rightarrow> bytes \<Rightarrow> nat set) \<Rightarrow> ('b \<Rightarrow> nat \<Rightarrow> bytes list) \<Rightarrow> ('b \<Rightarrow> bytes \<Rightarrow> bool) \<Rightarrow> 'b \<Rightarrow> 'b \<Rightarrow> bool" where
  "bus_unchanged subs chan roomy s s' \<longleftrightarrow>
     (\<forall>b. (\<forall>ch \<in> subs s b. ch \<in> subs s' b \<and> chan s' ch = chan s ch) \<and> (roomy s b \<longrightarrow> roomy s' b))"

locale bus_broker = steady_broker B inv doc roster cap
  for B :: "'b Broker" and inv doc roster cap +
  fixes subs :: "'b \<Rightarrow> bytes \<Rightarrow> nat set"
    and chan :: "'b \<Rightarrow> nat \<Rightarrow> bytes list"
    and roomy :: "'b \<Rightarrow> bytes \<Rightarrow> bool"
    and tick :: "'e \<Rightarrow> 'b \<Rightarrow> 'b"
  assumes publish_bus: "inv s \<Longrightarrow> roomy s b \<Longrightarrow> ch \<in> subs s b \<Longrightarrow> br_Publish B s b m = (r, s') \<Longrightarrow>
      ch \<in> subs s' b \<and> chan s' ch = chan s ch @ [m]"
    and recv_bus: "inv s \<Longrightarrow> ch \<in> subs s b \<Longrightarrow> br_recv B s ch2 = (y, s') \<Longrightarrow>
      ch \<in> subs s' b \<and> chan s ch = (if ch2 = ch then (case y of None \<Rightarrow> [] | Some z \<Rightarrow> [z]) else []) @ chan s' ch"
    and apply_bus: "inv s \<Longrightarrow> br_ApplyShape B s b i sh del = (Inr n, s') \<Longrightarrow> bus_unchanged subs chan roomy s s'"
    and snapshot_bus: "inv s \<Longrightarrow> br_Snapshot B s b = (Inr snap, s') \<Longrightarrow> bus_unchanged subs chan roomy s s'"
    and presence_bus: "inv s \<Longrightarrow> br_Presence B s b = (ps, s') \<Longrightarrow> bus_unchanged subs chan roomy s s'"
    and set_presence_bus: "inv s \<Longrightarrow> br_SetPresence B s b c p = (Inr u, s') \<Longrightarrow> bus_unchanged subs chan roomy s s'"
    and remove_presence_bus: "inv s \<Longrightarrow> br_RemovePresence B s b c = (Inr u, s') \<Longrightarrow> bus_unchanged subs chan roomy s s'"
    and tick_bus: "inv s \<Longrightarrow> inv (tick x s) \<and> doc (tick x s) = doc s \<and> bus_unchanged subs chan roomy s (tick x s)"
    and recv_progress: "inv s \<Longrightarrow> ch \<in> subs s b \<Longrightarrow> chan s ch \<noteq> [] \<Longrightarrow> \<exists>xs. fst (br_recv B (fold tick xs s) ch) \<noteq> None"

text \<open>A step that is no receive: the operations it performed, and the messages it published.\<close>

definition grew ::
  "('b \<Rightarrow> bool) \<Rightarrow> ('b \<Rightarrow> bytes \<Rightarrow> doc) \<Rightarrow> ('b \<Rightarrow> bytes \<Rightarrow> nat set) \<Rightarrow> ('b \<Rightarrow> nat \<Rightarrow> bytes list) \<Rightarrow>
   bytes \<Rightarrow> nat \<Rightarrow> 'b \<Rightarrow> shape_write list \<Rightarrow> 'b \<Rightarrow> bool" where
  "grew ok doc subs chan bid ch s ops s' \<longleftrightarrow>
     ok s' \<and> doc s' bid = run_log ops (doc s bid) \<and> ch \<in> subs s' bid \<and>
     length ops \<le> 1 \<and> (\<forall>(i, b, del) \<in> set ops. del \<or> json_valid b) \<and>
     (\<exists>ms. chan s' ch = chan s ch @ ms \<and> carries (d_seq (doc s bid)) ops ms)"

definition frame_drawable :: "bytes \<Rightarrow> bool" where
  "frame_drawable data \<longleftrightarrow> (case frame_write data of None \<Rightarrow> True | Some op \<Rightarrow> drawable op)"

text \<open>A rectangle drawn in a browser is sent in a frame of this kind, and the server's echo replaces it.\<close>

lemma pointer_frame:
  assumes "canonical rect" "js_truthy (Some rect)" "uid \<noteq> []"
  shows "frame_write (fst (onPointerUp uid rect a)) = Some (uid, rect, False)" "frame_drawable (fst (onPointerUp uid rect a))"
proof -
  let ?ms = "[(''id'', marshal_string uid), (''shape'', rect)]"
  have ms: "list_all (canonical \<circ> snd) ?ms" using assms(1) by (simp add: canonical_string)
  have tags: "TypeShapeCreate = ''shape.create''" "TypeShapeCreate \<noteq> TypeShapeDelete" by (simp_all add: type_tags)
  obtain data where d: "Marshal TypeShapeCreate 0 (Inr (json_object ?ms)) = Inr data"
    "unmarshal_Envelope data = (None, \<lparr>env_Type = TypeShapeCreate, env_Seq = 0, env_Payload = Some (json_object ?ms)\<rparr>)"
    by (rule envelope_roundtrip [OF canonical_object [OF ms], of TypeShapeCreate 0]) (rule that)
  have "fst (onPointerUp uid rect a) = data"
    using d(1) canonical_ne [OF canonical_object [OF ms]] marshal_raw_canonical [OF canonical_object [OF ms]]
    by (simp add: onPointerUp_def Marshal_def marshal_Envelope_def omit_empty_def tags(1))
  moreover have "set_fields set_ShapeOp ?ms (None, zero_ShapeOp) = (None, \<lparr>op_ID = uid, op_Shape = Some rect\<rparr>)"
    by (simp add: set_ShapeOp_def key_eval zero_ShapeOp_def)
  ultimately show f: "frame_write (fst (onPointerUp uid rect a)) = Some (uid, rect, False)"
    using d(2) ms assms(3) tags(2) by (simp add: frame_write_def decode_payload_object)
  show "frame_drawable (fst (onPointerUp uid rect a))"
    using f assms canonical_ne by (simp add: frame_drawable_def drawable_def compact_canonical)
qed

lemma echo_reconciles:
  "writes q (uid, rect, False) m \<Longrightarrow>
    shown (snd (handleMessage m (snd (onPointerUp uid rect a)))) = (shown a)(uid \<mapsto> (f64_round (uint q), Some (compact False rect)))"
  using f64_round_mono [of 0 "uint q"] f64_round_exact [of 0]
  by (simp add: writes_def onPointerUp_def shown_upd react_def)

text \<open>Of the loop's cases, messages and greetings come only by way of the subscription and the sessions.\<close>

definition loop_ok :: "instance_event \<Rightarrow> bool" where
  "loop_ok e \<longleftrightarrow>
     (case e of Loop ev \<Rightarrow> (case ev of Msg m \<Rightarrow> False | Direct c m \<Rightarrow> False | MsgsEnded \<Rightarrow> False | _ \<Rightarrow> True)
      | Frame c data \<Rightarrow> utf8_text data \<and> frame_drawable data | _ \<Rightarrow> True)"


lemma readPump_board: "w_board (readPump_step B c data w) = (w_board w)\<lparr>b_events := b_events (w_board (readPump_step B c data w))\<rparr>"
proof -
  have p: "w_board (publish B b r v) = w_board v" for b r and v :: "('a, 'b) World" by (simp add: publish_def split: sum.split)
  have a: "w_board (applyShapeOp B c env v) = w_board v" for env and v :: "('a, 'b) World"
    by (simp add: applyShapeOp_def p Let_def split: prod.split sum.split)
  have "w_board (publishCursor B c env v) = w_board v" for env and v :: "('a, 'b) World"
    by (simp add: publishCursor_def p split: prod.split)
  with a show ?thesis by (simp add: readPump_step_def Let_def split: prod.split option.split)
qed

lemma readPump_kept:
  "b_heap (w_board (readPump_step B c data w)) = b_heap (w_board w)"
  "b_clients (w_board (readPump_step B c data w)) = b_clients (w_board w)"
  "b_msgs (w_board (readPump_step B c data w)) = b_msgs (w_board w)"
  using readPump_board [of B c data w] by (metis Board.select_convs(1,2,4) Board.surjective Board.update_convs(6))+

text \<open>The subscription stays selected.\<close>

lemma Quit_msgs: "board_ok s \<Longrightarrow> run_step Quit s = Inr t \<Longrightarrow> b_msgs t = b_msgs s"
  using shutdown_loop_eq [of s "b_clients s"] by (auto simp: shutdown_def board_ok_def)

lemma on_board_msgs:
  assumes "board_ok (w_board w)" "x \<noteq> MsgsEnded" "on_board x w = Inr w'"
  shows "b_msgs (w_board w') = b_msgs (w_board w)"
proof (cases "live_event x (w_board w)")
  case True
  then have r: "run_step x (w_board w) = Inr (w_board w')" using assms(3) by (auto simp: on_board_def bind_result_Inr)
  show ?thesis using step_flags [OF assms(1) r assms(2)] Quit_msgs [OF assms(1)] r by (cases "x = Quit") auto
qed (use assms(3) in \<open>auto simp: on_board_def\<close>)

lemma instance_msgs:
  assumes "board_ok (w_board w)" "loop_ok e" "instance_step B e w = Inr w'"
  shows "b_msgs (w_board w') = b_msgs (w_board w)"
proof -
  have d: "b_msgs (w_board v') = b_msgs (w_board w)" if "deliverDirect k c m v = Inr v'" "w_board v = w_board w"
    for k c m and v v' :: "('a, 'b) World"
    using that assms(1) on_board_msgs [of v "Direct c m" v'] by (auto simp: deliverDirect_def split: if_splits)
  have m: "b_msgs (w_board v') = b_msgs (w_board w)" if "on_board x v = Inr v'" "x \<noteq> MsgsEnded" "w_board v = w_board w"
    for x and v v' :: "('a, 'b) World"
    using that assms(1) on_board_msgs [of v x v'] by auto
  have "x \<noteq> MsgsEnded" if "e = Loop x" for x using assms(2) that by (auto simp: loop_ok_def)
  with assms(3) show ?thesis
    by (cases e) (auto simp: readPump_kept joinPresence_def leavePresence_def publish_def run_msg_def sendSnapshot_def sendPresenceState_def
        Let_def split: option.splits if_splits prod.splits sum.splits dest!: d m)
qed

context bus_broker
begin

lemma grew_kept:
  assumes "inv s'" "doc s' bid = doc s bid" "ch \<in> subs s bid" "bus_unchanged subs chan roomy s s'"
  shows "grew inv doc subs chan bid ch s [] s'"
  using assms by (auto simp: grew_def bus_unchanged_def run_log_def intro: carries.none)

lemma grew_publish:
  assumes "inv t" "doc t bid = run_log ops (doc s bid)" "ch \<in> subs s bid" "bus_unchanged subs chan roomy s t" "roomy s bid"
    "length ops \<le> 1" "\<forall>(i, b, del) \<in> set ops. del \<or> json_valid b" "carries (d_seq (doc s bid)) ops [m]"
  shows "grew inv doc subs chan bid ch s ops (snd (br_Publish B t bid m))"
proof -
  have t: "roomy t bid" "ch \<in> subs t bid" "chan t ch = chan s ch" using assms(3-5) by (auto simp: bus_unchanged_def)
  note p = publish_bus [OF assms(1) t(1,2) surjective_pairing] publish_law [OF assms(1) surjective_pairing]
  then show ?thesis using assms(2,6-8) t(3) by (auto simp: grew_def)
qed

lemma grew_inert:
  assumes "inv t" "doc t bid = doc s bid" "ch \<in> subs s bid" "bus_unchanged subs chan roomy s t" "roomy s bid" "inert m"
  shows "grew inv doc subs chan bid ch s [] (snd (br_Publish B t bid m))"
  using assms by (intro grew_publish) (auto simp: run_log_def intro: carries.intros)

lemma bus_unchanged_refl: "bus_unchanged subs chan roomy s s"
  by (simp add: bus_unchanged_def)

lemma frame_grew:
  assumes "inv (w_broker w)" "c_boardID (client_of c w) = bid" "d_seq (doc (w_broker w) bid) < cap"
    "ch \<in> subs (w_broker w) bid" "roomy (w_broker w) bid" "frame_drawable data"
  shows "\<exists>ops. grew inv doc subs chan bid ch (w_broker w) ops (w_broker (readPump_step B c data w))"
proof (cases "unmarshal_Envelope data")
  case (Pair err env)
  let ?s = "w_broker w" and ?w = "w\<lparr>w_board := emit MessageReceived (w_board w)\<rparr>"
  have same: "grew inv doc subs chan bid ch ?s [] ?s" using assms by (simp add: grew_kept bus_unchanged_refl)
  obtain e op where dec: "DecodePayload env set_ShapeOp zero_ShapeOp = (e, op)" by fastforce
  obtain e2 cur where dec2: "DecodePayload env set_Cursor zero_Cursor = (e2, cur)" by fastforce
  show ?thesis
  proof (cases "frame_write data")
    case None
    have "grew inv doc subs chan bid ch ?s [] (w_broker (publishCursor B c env ?w))"
    proof (cases e2)
      case None
      obtain msg where "Marshal TypeCursor 0 (marshal_Cursor (cur\<lparr>cur_ClientID := c_id (client_of c w)\<rparr>)) = Inr msg"
        using cursor_message [OF dec2 [unfolded None]] by metis
      with cursor_message_inert [OF dec2 [unfolded None] this] show ?thesis
        using dec2 None assms by (simp add: publishCursor_def publish_def grew_inert bus_unchanged_refl)
    qed (use dec2 same in \<open>simp add: publishCursor_def\<close>)
    then show ?thesis using None Pair dec same
      by (auto simp: frame_write_def readPump_step_def applyShapeOp_def Let_def split: option.splits if_splits)
  next
    case (Some wr)
    let ?op = "(op_ID op, slice_bytes (op_Shape op), env_Type env = TypeShapeDelete)"
    have env: "err = None" "env_Type env \<in> {TypeShapeCreate, TypeShapeUpdate, TypeShapeDelete}" "e = None" "op_ID op \<noteq> []" "drawable ?op"
      using Some Pair dec assms(6) by (auto simp: frame_drawable_def frame_write_def split: option.splits if_splits)
    obtain n t where t: "br_ApplyShape B ?s bid (op_ID op) (op_Shape op) (env_Type env = TypeShapeDelete) = (Inr n, t)"
      using apply_ok [OF assms(1,3)] by blast
    note a = apply_law [OF assms(1,3) t] apply_bus [OF assms(1) t]
    obtain msg where msg: "Marshal (env_Type env) n (marshal_ShapeOp op) = Inr msg"
      using shape_message [OF dec [unfolded env(3)], of "env_Type env" n] by metis
    have wr: "writes n ?op msg" by (rule shape_message_writes [OF dec [unfolded env(3)] env(2,5) msg])
    have "op_Shape op \<noteq> None \<or> env_Type env = TypeShapeDelete" using env(5) by (cases "op_Shape op") (simp_all add: drawable_def)
    then have v: "\<forall>(i, b, del) \<in> set [?op]. del \<or> json_valid b" using decoded_shape_valid [OF dec] by auto
    have "grew inv doc subs chan bid ch ?s [?op] (snd (br_Publish B t bid msg))"
    proof (rule grew_publish [where t = t and m = msg])
      show "carries (d_seq (doc ?s bid)) [?op] [msg]" using wr a by (intro carries.intros) simp
    qed (use a v assms in \<open>auto simp: run_log_def\<close>)
    then show ?thesis
      using Pair env dec t assms(2) msg by (auto simp: readPump_step_def applyShapeOp_def Let_def publish_def)
  qed
qed

lemma quiet_grew:
  assumes "inv (w_broker w)" "\<And>c. c_boardID (client_of c w) = bid" "ch \<in> subs (w_broker w) bid" "roomy (w_broker w) bid"
    "board_ok (w_board w)" "event_ok e w" "e \<noteq> Relay" "\<And>c data. e \<noteq> Frame c data" "instance_step B e w = Inr w'"
  shows "grew inv doc subs chan bid ch (w_broker w) [] (w_broker w')"
proof (cases e)
  case (Loop ev)
  have "admissible ev (w_board w)" using assms(6) Loop by (simp add: event_ok_def admissible_def split: board_event.splits)
  with on_board_cases [OF assms(5)] obtain s where "on_board ev w = Inr (w\<lparr>w_board := s\<rparr>)" by metis
  then show ?thesis using assms Loop by (auto simp: grew_kept bus_unchanged_refl)
next
  case (JoinRoster c)
  let ?x = "client_of c w"
  obtain t where t: "br_SetPresence B (w_broker w) bid (c_id ?x) (Some (presence_object (presence ?x))) = (Inr (), t)"
    using set_presence_ok [OF assms(1)] by blast
  note l = set_presence_law [OF assms(1) t] set_presence_bus [OF assms(1) t]
  obtain m where m: "Marshal TypePresenceJoin 0 (marshal_Presence (presence ?x)) = Inr m"
    using envelope_roundtrip [OF canonical_presence] by (metis marshal_Presence_def)
  have "inert m" using m by (rule presence_message_inert [rotated]) simp
  with l m t assms JoinRoster show ?thesis
    by (auto simp: joinPresence_def marshal_Presence_def publish_def Let_def intro!: grew_inert)
next
  case (LeaveRoster c)
  let ?x = "client_of c w"
  obtain t where t: "br_RemovePresence B (w_broker w) bid (c_id ?x) = (Inr (), t)"
    using remove_presence_ok [OF assms(1)] by blast
  note l = remove_presence_law [OF assms(1) t] remove_presence_bus [OF assms(1) t]
  obtain m where m: "Marshal TypePresenceLeave 0 (marshal_Presence (zero_Presence\<lparr>p_ClientID := c_id ?x\<rparr>)) = Inr m"
    using envelope_roundtrip [OF canonical_presence] by (metis marshal_Presence_def)
  have "inert m" using m by (rule presence_message_inert [rotated]) simp
  with l m t assms LeaveRoster show ?thesis
    by (auto simp: leavePresence_def publish_def Let_def intro!: grew_inert)
next
  case (TellSnapshot c k)
  obtain snap t where t: "br_Snapshot B (w_broker w) bid = (Inr snap, t)" using snapshot_ok [OF assms(1)] by blast
  have "w_broker w' = t"
    using assms(2,9) TellSnapshot t
    by (auto simp: sendSnapshot_def deliverDirect_def on_board_def bind_result_Inr split: sum.splits if_splits)
  then show ?thesis using snapshot_law [OF assms(1) t] snapshot_bus [OF assms(1) t] assms(3) by (auto intro: grew_kept)
next
  case (TellRoster c k)
  obtain r t where t: "br_Presence B (w_broker w) bid = (r, t)" by fastforce
  have "w_broker w' = t"
    using assms(2,9) TellRoster t
    by (auto simp: sendPresenceState_def deliverDirect_def on_board_def bind_result_Inr Let_def split: sum.splits if_splits)
  then show ?thesis using presence_keeps [OF assms(1) t] presence_bus [OF assms(1) t] assms(3) by (auto intro: grew_kept)
qed (use assms(7,8) in auto)

text \<open>What the same step means for a connected client.\<close>

lemma direct_follows:
  assumes "board_ok (w_board w)" "b_msgs (w_board w)" "deliverDirect k d m (w\<lparr>w_broker := t\<rparr>) = Inr w'" "follows ok c (w_board w)"
    "\<And>g. ok g \<Longrightarrow> d = c \<Longrightarrow> ok (g @ [m])"
  shows "follows ok c (w_board w')"
proof (cases "k \<or> b_done (w_board w)")
  case True
  with assms show ?thesis by (auto simp: deliverDirect_def on_board_def live_event_def split: if_splits)
next
  case False
  then have r: "run_step (Direct d m) (w_board w) = Inr (w_board w')"
    using assms(3) by (auto simp: deliverDirect_def on_board_def live_event_def bind_result_Inr)
  show ?thesis
    by (rule follows_step [OF assms(1) _ r assms(2,4)]) (auto simp: admissible_def sent_def assms(5) split: if_splits)
qed

lemma quiet_follows:
  assumes "inv (w_broker w)" "\<And>c. c_boardID (client_of c w) = bid" "board_ok (w_board w)" "b_msgs (w_board w)"
    "event_ok e w" "loop_ok e" "e \<noteq> Relay" "instance_step B e w = Inr w'" "follows ok c (w_board w)"
    "\<And>i q b. d_shapes (doc (w_broker w) bid) i = Some (q, b) \<Longrightarrow> json_valid b"
    and direct: "\<And>g m. ok g \<Longrightarrow> inert m \<or> shows_doc (doc (w_broker w) bid) m \<Longrightarrow> ok (g @ [m])"
  shows "follows ok c (w_board w')"
proof (cases e)
  case (Frame d data)
  then have "w' = readPump_step B d data w" using assms(8) by simp
  then show ?thesis using assms(9) by (simp add: follows_def readPump_kept)
next
  case (Loop ev)
  show ?thesis
  proof (cases "live_event ev (w_board w)")
    case True
    have a: "admissible ev (w_board w)" using assms(5) Loop by (simp add: event_ok_def admissible_def split: board_event.splits)
    have r: "run_step ev (w_board w) = Inr (w_board w')" using True assms(8) Loop by (auto simp: on_board_def bind_result_Inr)
    have n: "sent c ev = None" using assms(6) Loop by (auto simp: loop_ok_def sent_def split: board_event.splits)
    show ?thesis by (rule follows_step [OF assms(3) a r assms(4,9)]) (simp_all add: n)
  qed (use assms Loop in \<open>auto simp: on_board_def\<close>)
next
  case (TellSnapshot d k)
  obtain snap t where t: "br_Snapshot B (w_broker w) bid = (Inr snap, t)" using snapshot_ok [OF assms(1)] by blast
  have "snapshot_of (doc (w_broker w) bid) snap" using snapshot_law [OF assms(1) t] by simp
  then obtain m where m: "Marshal TypeSnapshot 0 (marshal_Snapshot snap) = Inr m" "shows_doc (doc (w_broker w) bid) m"
    using snapshot_message_shows assms(10) by metis
  with t TellSnapshot assms(2,8) have "deliverDirect k d m (w\<lparr>w_broker := t\<rparr>) = Inr w'" by (simp add: sendSnapshot_def)
  then show ?thesis by (rule direct_follows [OF assms(3,4) _ assms(9)]) (erule direct, rule disjI2, rule m(2))
next
  case (TellRoster d k)
  obtain r t where t: "br_Presence B (w_broker w) bid = (r, t)" by fastforce
  show ?thesis
  proof (cases "\<exists>m. inert m \<and> deliverDirect k d m (w\<lparr>w_broker := t\<rparr>) = Inr w'")
    case True
    then obtain m where "inert m" "deliverDirect k d m (w\<lparr>w_broker := t\<rparr>) = Inr w'" by blast
    from this(2) show ?thesis by (rule direct_follows [OF assms(3,4) _ assms(9)]) (erule direct, rule disjI1, rule \<open>inert m\<close>)
  next
    case False
    then have "w' = w\<lparr>w_broker := t\<rparr>"
      using t TellRoster assms(2,8) state_message_inert by (auto simp: sendPresenceState_def Let_def split: sum.splits)
    then show ?thesis using assms(4,9) by simp
  qed
next
  case (JoinRoster d)
  then have "w_board w' = w_board w" using assms(8) by (auto simp: joinPresence_def publish_def Let_def split: sum.splits)
  then show ?thesis using assms(4,9) by simp
next
  case (LeaveRoster d)
  then have "w_board w' = w_board w" using assms(8) by (auto simp: leavePresence_def publish_def Let_def split: sum.splits)
  then show ?thesis using assms(4,9) by simp
qed (use assms(7) in simp)

text \<open>A receive: nothing, or the head of the subscription, which the board's loop then dispatches.\<close>

lemma relay_effect:
  assumes "inv (w_broker w)" "board_ok (w_board w)" "ch \<in> subs (w_broker w) bid" "run_msg B w = Inr w'"
  shows "inv (w_broker w') \<and> doc (w_broker w') = doc (w_broker w) \<and> ch \<in> subs (w_broker w') bid \<and>
    (chan (w_broker w') ch = chan (w_broker w) ch \<and> (w_msgs w = Some ch \<longrightarrow> w_board w' = w_board w) \<or>
     w_msgs w = Some ch \<and> (\<exists>m. chan (w_broker w) ch = m # chan (w_broker w') ch \<and> run_step (Msg m) (w_board w) = Inr (w_board w')))"
proof (cases "w_msgs w = None \<or> b_done (w_board w)")
  case True
  with assms show ?thesis by (auto simp: run_msg_def split: option.splits)
next
  case False
  then obtain x where x: "w_msgs w = Some x" "\<not> b_done (w_board w)" by auto
  obtain y t where t: "br_recv B (w_broker w) x = (y, t)" by fastforce
  note l = recv_keeps [OF assms(1) t] recv_bus [OF assms(1,3) t]
  show ?thesis
  proof (cases y)
    case None
    then show ?thesis using assms(4) x t l by (auto simp: run_msg_def)
  next
    case (Some m)
    then have "on_board (Msg m) (w\<lparr>w_broker := t\<rparr>) = Inr w'" using assms(4) x t by (simp add: run_msg_def)
    then have "run_step (Msg m) (w_board w) = Inr (w_board w')" "w_broker w' = t"
      using x(2) by (auto simp: on_board_def live_event_def bind_result_Inr)
    then show ?thesis using x l Some by auto
  qed
qed

end

end
