(* ===== verification/Cluster.thy ===== *)
theory Cluster
  imports Bus
begin

text \<open>
  Several instances that serve one board over one broker, with the browsers connected to them.
  A client that has been sent a snapshot and is still connected shows the broker's document as
  soon as its instance has caught up with its subscription, whatever the instances did meanwhile.
\<close>

section \<open>Instances that share a broker\<close>

record 'b Cluster =
  cl_broker :: 'b
  cl_board :: "nat \<Rightarrow> Board"
  cl_msgs :: "nat \<Rightarrow> nat option"

definition node :: "nat \<Rightarrow> 'b Cluster \<Rightarrow> ('b, unit) World" where
  "node n k = \<lparr>w_broker = cl_broker k, w_store = (), w_board = cl_board k n, w_msgs = cl_msgs k n\<rparr>"

definition put_node :: "nat \<Rightarrow> ('b, unit) World \<Rightarrow> 'b Cluster \<Rightarrow> 'b Cluster" where
  "put_node n w k =
     \<lparr>cl_broker = w_broker w, cl_board = (cl_board k)(n := w_board w), cl_msgs = (cl_msgs k)(n := w_msgs w)\<rparr>"

datatype 'e cluster_event =
    On nat instance_event   \<comment> \<open>a step of one instance\<close>
  | Background 'e           \<comment> \<open>a step of a goroutine of the broker\<close>

fun cluster_step :: "'b Broker \<Rightarrow> ('e \<Rightarrow> 'b \<Rightarrow> 'b) \<Rightarrow> 'e cluster_event \<Rightarrow> 'b Cluster \<Rightarrow> panic + 'b Cluster" where
  "cluster_step B tick (On n e) k = bind_result (instance_step B e (node n k)) (\<lambda>w. Inr (put_node n w k))"
| "cluster_step B tick (Background x) k = Inr (k\<lparr>cl_broker := tick x (cl_broker k)\<rparr>)"

fun cluster_run :: "'b Broker \<Rightarrow> ('e \<Rightarrow> 'b \<Rightarrow> 'b) \<Rightarrow> 'e cluster_event list \<Rightarrow> 'b Cluster \<Rightarrow> panic + 'b Cluster" where
  "cluster_run B tick [] k = Inr k"
| "cluster_run B tick (e # es) k = bind_result (cluster_step B tick e k) (cluster_run B tick es)"

text \<open>
  Clients register once, frames are UTF-8 and carry shapes a browser can draw, no buffer of the bus is full, and
  the board's loop gets its messages from the bus and its greetings from the sessions.
\<close>

definition step_ok :: "('b \<Rightarrow> bytes \<Rightarrow> bool) \<Rightarrow> bytes \<Rightarrow> 'e cluster_event \<Rightarrow> 'b Cluster \<Rightarrow> bool" where
  "step_ok roomy bid e k \<longleftrightarrow>
     (case e of On n x \<Rightarrow> event_ok x (node n k) \<and> loop_ok x \<and> (x = Relay \<or> roomy (cl_broker k) bid) | Background x \<Rightarrow> True)"

fun steps_ok :: "'b Broker \<Rightarrow> ('e \<Rightarrow> 'b \<Rightarrow> 'b) \<Rightarrow> ('b \<Rightarrow> bytes \<Rightarrow> bool) \<Rightarrow> bytes \<Rightarrow> 'e cluster_event list \<Rightarrow> 'b Cluster \<Rightarrow> bool" where
  "steps_ok B tick roomy bid [] k = True"
| "steps_ok B tick roomy bid (e # es) k =
     (step_ok roomy bid e k \<and> (case cluster_step B tick e k of Inl p \<Rightarrow> True | Inr k1 \<Rightarrow> steps_ok B tick roomy bid es k1))"

text \<open>
  The instances serve the board; the instance watched has a subscription of its own. \<open>d\<close> is the
  document up to which that subscription has been read, \<open>ops\<close> are the operations since.
\<close>

definition serving ::
  "('b \<Rightarrow> bool) \<Rightarrow> ('b \<Rightarrow> bytes \<Rightarrow> doc) \<Rightarrow> ('b \<Rightarrow> bytes \<Rightarrow> nat set) \<Rightarrow> bytes \<Rightarrow> nat \<Rightarrow> nat \<Rightarrow> 'b Cluster \<Rightarrow> bool" where
  "serving ok doc subs bid n ch k \<longleftrightarrow>
     ok (cl_broker k) \<and> ch \<in> subs (cl_broker k) bid \<and> (\<forall>m. cl_msgs k m = Some ch \<longleftrightarrow> m = n) \<and>
     (\<forall>m. board_ok (cl_board k m) \<and> b_msgs (cl_board k m)) \<and> (\<forall>m c. c_boardID (b_heap (cl_board k m) c) = bid) \<and>
     (\<forall>i q b. d_shapes (doc (cl_broker k) bid) i = Some (q, b) \<longrightarrow> json_valid b)"

definition behind ::
  "('b \<Rightarrow> bytes \<Rightarrow> doc) \<Rightarrow> ('b \<Rightarrow> nat \<Rightarrow> bytes list) \<Rightarrow> bytes \<Rightarrow> nat \<Rightarrow> doc \<Rightarrow> shape_write list \<Rightarrow> 'b \<Rightarrow> bool" where
  "behind doc chan bid ch d ops s \<longleftrightarrow>
     doc_ok d \<and> doc s bid = run_log ops d \<and> unat (d_seq d) + length ops < 2 ^ 64 \<and> carries (d_seq d) ops (chan s ch)"

lemma unat_run_log:
  "unat (d_seq d) + length ops < 2 ^ 64 \<Longrightarrow> unat (d_seq (run_log ops d)) = unat (d_seq d) + length ops"
  by (simp add: run_log_seq unat_word_ariths(1) unat_of_nat)

lemma run_log_Nil: "run_log [] d = d"
  by (simp add: run_log_def)

lemma run_log_append: "run_log (ops @ ops') d = run_log ops' (run_log ops d)"
  by (simp add: run_log_def)

lemma run_log_json:
  assumes "\<forall>i q b. d_shapes d i = Some (q, b) \<longrightarrow> json_valid b" "\<forall>(i, b, del) \<in> set ops. del \<or> json_valid b" "length ops \<le> 1"
  shows "\<forall>i q b. d_shapes (run_log ops d) i = Some (q, b) \<longrightarrow> json_valid b"
  using assms by (cases ops) (auto simp: run_log_def doc_apply_shapes split: if_splits prod.splits)

lemma step_msgs: "instance_step B e w = Inr w' \<Longrightarrow> w_msgs w' = w_msgs w"
proof -
  have p: "w_msgs (publish B b r v) = w_msgs v" for b r and v :: "('a, 'b) World" by (simp add: publish_def split: sum.split)
  have o: "w_msgs v' = w_msgs v" if "on_board x v = Inr v'" for x and v v' :: "('a, 'b) World"
    using that by (auto simp: on_board_def bind_result_Inr split: if_splits)
  have d: "w_msgs v' = w_msgs v" if "deliverDirect k c m v = Inr v'" for k c m and v v' :: "('a, 'b) World"
    using that o by (auto simp: deliverDirect_def split: if_splits)
  have f: "w_msgs (readPump_step B c data v) = w_msgs v" for c data and v :: "('a, 'b) World"
    by (simp add: readPump_step_def applyShapeOp_def publishCursor_def p Let_def split: prod.split option.split sum.split)
  assume "instance_step B e w = Inr w'"
  then show ?thesis
    by (cases e) (auto simp: f p joinPresence_def leavePresence_def run_msg_def sendSnapshot_def sendPresenceState_def Let_def
        split: option.splits if_splits prod.splits sum.splits dest!: o d)
qed

lemma node_sel [simp]:
  "w_broker (node n k) = cl_broker k" "w_board (node n k) = cl_board k n" "w_msgs (node n k) = cl_msgs k n"
  by (simp_all add: node_def)

lemma put_node_sel [simp]:
  "cl_broker (put_node n w k) = w_broker w" "cl_board (put_node n w k) = (cl_board k)(n := w_board w)"
  "cl_msgs (put_node n w k) = (cl_msgs k)(n := w_msgs w)"
  by (simp_all add: put_node_def)

lemma cluster_run_append:
  "cluster_run B tick (es @ es') k = bind_result (cluster_run B tick es k) (cluster_run B tick es')"
  by (induction es arbitrary: k) (auto simp: bind_result_def split: sum.split)

lemma steps_ok_append:
  "steps_ok B tick roomy bid (es @ es') k \<Longrightarrow> cluster_run B tick es k = Inr k1 \<Longrightarrow>
    steps_ok B tick roomy bid es k \<and> steps_ok B tick roomy bid es' k1"
  by (induction es arbitrary: k) (auto simp: bind_result_Inr)

lemma follows_mono: "follows ok c s \<Longrightarrow> (\<And>g. ok g \<Longrightarrow> ok' g) \<Longrightarrow> follows ok' c s"
  by (auto simp: follows_def)

definition cluster_write :: "'e cluster_event \<Rightarrow> shape_write option" where
  "cluster_write e = (case e of On n x \<Rightarrow> event_write x | Background x \<Rightarrow> None)"

text \<open>Every step but a receive and those of the broker.\<close>

definition active :: "'e cluster_event \<Rightarrow> bool" where
  "active e \<longleftrightarrow> (case e of On n x \<Rightarrow> x \<noteq> Relay | Background x \<Rightarrow> False)"

lemma inactive_write: "\<not> active e \<Longrightarrow> cluster_write e = None"
  by (cases e) (auto simp: active_def cluster_write_def event_write_def)

lemma inactive_steps_ok: "\<forall>e \<in> set es. \<not> active e \<Longrightarrow> steps_ok B tick roomy bid es k"
  by (induction es arbitrary: k)
    (auto simp: active_def step_ok_def event_ok_def loop_ok_def split: cluster_event.splits sum.splits)

section \<open>The invariant\<close>

text \<open>The client's screen is on its way from the document \<open>d\<close> along the operations \<open>ops\<close>.\<close>

abbreviation tracks :: "doc \<Rightarrow> shape_write list \<Rightarrow> nat \<Rightarrow> Board \<Rightarrow> bool" where
  "tracks d ops \<equiv> follows (\<lambda>g. catching_up d ops (screen g))"

lemma behind_grew:
  assumes "behind doc chan bid ch d ops s" "grew ok doc subs chan bid ch s ops' s'" "unat (d_seq (doc s bid)) + 1 < 2 ^ 64"
  shows "behind doc chan bid ch d (ops @ ops') s'"
proof -
  obtain ms where g: "doc s' bid = run_log ops' (doc s bid)" "length ops' \<le> 1" "chan s' ch = chan s ch @ ms" "carries (d_seq (doc s bid)) ops' ms"
    using assms(2) by (auto simp: grew_def)
  have b: "doc_ok d" "doc s bid = run_log ops d" "unat (d_seq d) + length ops < 2 ^ 64" "carries (d_seq d) ops (chan s ch)"
    using assms(1) by (auto simp: behind_def)
  have "carries (d_seq d + of_nat (length ops)) ops' ms" using g(4) b(2) by (simp add: run_log_seq)
  then have "carries (d_seq d) (ops @ ops') (chan s' ch)" using b(4) g(3) by (simp add: carries_append)
  moreover have "unat (d_seq d) + length ops + 1 < 2 ^ 64" using assms(3) b(2,3) unat_run_log by simp
  ultimately show ?thesis using b g by (simp add: behind_def run_log_append)
qed

lemma behind_shape_op:
  assumes "behind doc chan bid ch d (op # ops) s" "writes (d_seq d + 1) op m" "carries (d_seq d + 1) ops ms"
    "doc s' bid = doc s bid" "chan s' ch = ms"
  shows "behind doc chan bid ch (run_log [op] d) ops s'" "d_seq d \<noteq> - 1"
proof -
  have b: "doc_ok d" "doc s bid = run_log (op # ops) d" "unat (d_seq d) + length (op # ops) < 2 ^ 64" using assms(1) by (auto simp: behind_def)
  show ne: "d_seq d \<noteq> - 1" using b(3) by auto
  have "doc_ok (run_log [op] d)" by (rule run_log_ok [OF b(1)]) (use b(3) in simp)
  moreover have "unat (d_seq (run_log [op] d)) = unat (d_seq d) + 1" using b(3) by (subst unat_run_log) simp_all
  moreover have "d_seq (run_log [op] d) = d_seq d + 1" by (simp add: run_log_seq)
  ultimately show "behind doc chan bid ch (run_log [op] d) ops s'"
    using b assms(3-5) run_log_append [of "[op]" ops d] by (simp add: behind_def)
qed

context bus_broker
begin

text \<open>A step of any instance that is no receive.\<close>

lemma node_step:
  assumes "serving inv doc subs bid n ch k" "event_ok e (node m k)" "loop_ok e" "roomy (cl_broker k) bid"
    "d_seq (doc (cl_broker k) bid) < cap" "e \<noteq> Relay"
  obtains w' ops where "instance_step B e (node m k) = Inr w'" "grew inv doc subs chan bid ch (cl_broker k) ops (w_broker w')"
    "board_ok (w_board w')" "\<And>c. c_boardID (client_of c w') = bid"
    "doc (w_broker w') bid = run_log (List.map_filter event_write [e]) (doc (cl_broker k) bid)"
proof -
  let ?w = "node m k" and ?who = "\<lambda>c. presence (client_of c (node m k))"
  have s: "inv (w_broker ?w)" "board_ok (w_board ?w)" "ch \<in> subs (w_broker ?w) bid" "\<And>c. c_boardID (client_of c ?w) = bid"
    "roomy (w_broker ?w) bid" "d_seq (doc (w_broker ?w) bid) < cap"
    using assms by (auto simp: serving_def)
  obtain w' where w': "instance_step B e ?w = Inr w'" "stepped inv doc roster ?w bid (view_step ?who e (seen doc roster bid ?w)) w'"
    using instance_step_refines [OF s(1,2,4,6) assms(2)] by blast
  have ok: "board_ok (w_board w')" "\<And>c. c_boardID (client_of c w') = bid" using w'(2) s(4) by (auto simp: stepped_def ident_def)
  have "seen doc roster bid w' = fold (view_step ?who) [e] (seen doc roster bid ?w)" using w'(2) by (simp add: stepped_def)
  then have d: "doc (w_broker w') bid = run_log (List.map_filter event_write [e]) (doc (cl_broker k) bid)"
    using view_step_doc [of ?who "[e]" "seen doc roster bid ?w"] by (metis board_view.select_convs(1) node_sel(1) seen_def)
  show thesis
  proof (cases "\<exists>c data. e = Frame c data")
    case True
    then obtain c data where e: "e = Frame c data" by blast
    have "frame_drawable data" using assms(3) e by (simp add: loop_ok_def)
    from frame_grew [OF s(1) s(4) s(6,3,5) this] w'(1) ok d e that show thesis by fastforce
  next
    case False
    with quiet_grew [OF s(1,4,3,5,2) assms(2,6) _ w'(1)] w'(1) ok d that show thesis by auto
  qed
qed

lemma quiet_cluster_step:
  assumes "serving inv doc subs bid n ch k" "behind doc chan bid ch d ops (cl_broker k)" "step_ok roomy bid (On m e) k"
    "d_seq (doc (cl_broker k) bid) < cap" "e \<noteq> Relay"
  shows "\<exists>k' ops'. cluster_step B tick (On m e) k = Inr k' \<and> serving inv doc subs bid n ch k' \<and>
    behind doc chan bid ch d (ops @ ops') (cl_broker k') \<and> doc (cl_broker k') bid = run_log (List.map_filter event_write [e]) (doc (cl_broker k) bid) \<and>
    (\<forall>c. tracks d ops c (cl_board k n) \<longrightarrow> tracks d (ops @ ops') c (cl_board k' n))"
proof -
  have e: "event_ok e (node m k)" "loop_ok e" "roomy (cl_broker k) bid" using assms(3,5) by (simp_all add: step_ok_def)
  obtain w' ops' where w': "instance_step B e (node m k) = Inr w'" "grew inv doc subs chan bid ch (cl_broker k) ops' (w_broker w')"
    "board_ok (w_board w')" "\<And>c. c_boardID (client_of c w') = bid"
    "doc (w_broker w') bid = run_log (List.map_filter event_write [e]) (doc (cl_broker k) bid)"
    using node_step [OF assms(1) e assms(4,5)] by metis
  let ?k = "put_node m w' k"
  have g: "inv (w_broker w')" "ch \<in> subs (w_broker w') bid" "doc (w_broker w') bid = run_log ops' (doc (cl_broker k) bid)" "length ops' \<le> 1"
    "\<forall>i q b. d_shapes (run_log ops' (doc (cl_broker k) bid)) i = Some (q, b) \<longrightarrow> json_valid b"
    using w'(2) assms(1) run_log_json [of "doc (cl_broker k) bid" ops'] unfolding grew_def serving_def by blast+
  have b: "board_ok (cl_board k m)" "b_msgs (cl_board k m)" using assms(1) by (simp_all add: serving_def)
  have "b_msgs (w_board w')" using instance_msgs [of "node m k" e B w'] w'(1) e(2) b by simp
  then have sv: "serving inv doc subs bid n ch ?k"
    using assms(1) w'(3,4) g step_msgs [OF w'(1)] unfolding serving_def by simp
  have lt: "unat (d_seq (doc (cl_broker k) bid)) + 1 < 2 ^ 64"
    using assms(4) less_le_trans [OF unsigned_less [of cap], of "2 ^ 64 :: nat"] by (simp add: word_less_nat_alt)
  have bh: "behind doc chan bid ch d (ops @ ops') (cl_broker ?k)" using behind_grew [OF assms(2) w'(2) lt] by simp
  have "tracks d (ops @ ops') c (cl_board ?k n)" if t: "tracks d ops c (cl_board k n)" for c
  proof (rule follows_mono)
    have "tracks d ops c (w_board w')" if "m = n"
    proof (rule quiet_follows [of "node m k" bid e])
      show "catching_up d ops (screen (g @ [x]))" if "catching_up d ops (screen g)" "inert x \<or> shows_doc (doc (w_broker (node m k)) bid) x" for g x
        using that assms(2) catching_up_snapshot [of d ops] by (auto simp: screen_snoc_cases behind_def)
    qed (use assms(1,5) e w'(1) b t that in \<open>auto simp: serving_def\<close>)
    then show "tracks d ops c (cl_board ?k n)" using t by auto
  qed (rule catching_up_more)
  then show ?thesis using w'(1,5) sv bh by auto
qed

text \<open>A receive.\<close>

lemma relay_cluster_step:
  assumes "serving inv doc subs bid n ch k" "behind doc chan bid ch d ops (cl_broker k)"
  shows "\<exists>k' d' ops'. cluster_step B tick (On m Relay) k = Inr k' \<and> serving inv doc subs bid n ch k' \<and>
    behind doc chan bid ch d' ops' (cl_broker k') \<and> doc (cl_broker k') bid = doc (cl_broker k) bid \<and>
    (\<forall>c. tracks d ops c (cl_board k n) \<longrightarrow> tracks d' ops' c (cl_board k' n))"
proof -
  let ?w = "node m k"
  have s: "inv (w_broker ?w)" "board_ok (w_board ?w)" "b_msgs (w_board ?w)" "ch \<in> subs (w_broker ?w) bid" "\<And>c. c_boardID (client_of c ?w) = bid"
    "w_msgs ?w = Some ch \<longleftrightarrow> m = n"
    using assms(1) by (auto simp: serving_def)
  obtain w' where w': "run_msg B ?w = Inr w'" "board_ok (w_board w')" "\<And>c. c_boardID (client_of c w') = bid"
    using relay_step [OF s(1,2), of bid] s(5) by (auto simp: stepped_def ident_def)
  note r = relay_effect [OF s(1,2,4) w'(1)]
  let ?k = "put_node m w' k"
  have st: "instance_step B Relay ?w = Inr w'" using w'(1) by simp
  have "b_msgs (w_board w')" using instance_msgs [OF s(2) _ st] s(3) by (simp add: loop_ok_def)
  then have sv: "serving inv doc subs bid n ch ?k"
    using assms(1) w'(2,3) r step_msgs [OF st] unfolding serving_def by simp
  have step: "cluster_step B tick (On m Relay) k = Inr ?k" "doc (cl_broker ?k) bid = doc (cl_broker k) bid" using w'(1) r by simp_all
  show ?thesis
  proof (cases "chan (w_broker w') ch = chan (w_broker ?w) ch \<and> (w_msgs ?w = Some ch \<longrightarrow> w_board w' = w_board ?w)")
    case True
    then have "behind doc chan bid ch d ops (cl_broker ?k)" "cl_board ?k n = cl_board k n"
      using assms(2) r s(6) by (auto simp: behind_def)
    then show ?thesis using sv step by metis
  next
    case False
    then obtain x where x: "m = n" "chan (cl_broker k) ch = x # chan (w_broker w') ch" "run_step (Msg x) (cl_board k n) = Inr (w_board w')"
      using r s(6) by auto
    have c: "carries (d_seq d) ops (x # chan (w_broker w') ch)" using assms(2) x(2) by (simp add: behind_def)
    have b: "board_ok (cl_board k n)" "b_msgs (cl_board k n)" using s(2,3) x(1) by simp_all
    have fs: "follows ok' c (cl_board ?k n)" if "follows ok c (cl_board k n)" "\<And>g. ok g \<Longrightarrow> ok' (g @ [x])" "\<And>g. ok g \<Longrightarrow> is_cursor x \<Longrightarrow> ok' g"
      for ok ok' c
      using follows_step [OF b(1) _ x(3) b(2) that(1), of ok'] that(2,3) x(1) by (auto simp: admissible_def sent_def)
    show ?thesis
    proof (rule carries_ConsE [OF c])
      assume i: "inert x" "carries (d_seq d) ops (chan (w_broker w') ch)"
      then have "behind doc chan bid ch d ops (cl_broker ?k)" using assms(2) step(2) by (simp add: behind_def)
      moreover have "tracks d ops c (cl_board ?k n)" if "tracks d ops c (cl_board k n)" for c
        using that by (rule fs) (simp_all add: screen_snoc_cases(1) [OF i(1)])
      ultimately show ?thesis using sv step by metis
    next
      fix op ops1
      assume o: "ops = op # ops1" "writes (d_seq d + 1) op x" "carries (d_seq d + 1) ops1 (chan (w_broker w') ch)"
      note bh = behind_shape_op [OF assms(2) [unfolded o(1)] o(2,3), of "cl_broker ?k"]
      have "behind doc chan bid ch (run_log [op] d) ops1 (cl_broker ?k)" using bh(1) step(2) by simp
      moreover have "tracks (run_log [op] d) ops1 c (cl_board ?k n)" if "tracks d ops c (cl_board k n)" for c
        using that
      proof (rule fs)
        have "doc_ok d" "d_seq d \<noteq> - 1" using assms(2) bh(2) step(2) by (simp_all add: behind_def)
        then show "catching_up (run_log [op] d) ops1 (screen (g @ [x]))" if "catching_up d ops (screen g)" for g
          using that catching_up_react o(1) by (simp add: screen_snoc_cases(2) [OF o(2)])
      qed (use o(2) in \<open>simp add: writes_def\<close>)
      ultimately show ?thesis using sv step by metis
    qed
  qed
qed

lemma cluster_step_tracks:
  assumes "serving inv doc subs bid n ch k" "behind doc chan bid ch d ops (cl_broker k)" "step_ok roomy bid e k"
    "active e \<Longrightarrow> d_seq (doc (cl_broker k) bid) < cap"
  shows "\<exists>k' d' ops'. cluster_step B tick e k = Inr k' \<and> serving inv doc subs bid n ch k' \<and>
    behind doc chan bid ch d' ops' (cl_broker k') \<and>
    doc (cl_broker k') bid = run_log (List.map_filter cluster_write [e]) (doc (cl_broker k) bid) \<and>
    (\<forall>c. tracks d ops c (cl_board k n) \<longrightarrow> tracks d' ops' c (cl_board k' n))"
proof (cases e)
  case (On m x)
  then have w: "List.map_filter cluster_write [e] = List.map_filter event_write [x]"
    by (simp add: cluster_write_def map_filter_simps split: option.split)
  show ?thesis
  proof (cases "x = Relay")
    case True
    then have "List.map_filter event_write [x] = []" by (simp add: event_write_def map_filter_simps)
    then show ?thesis using relay_cluster_step [OF assms(1,2), of m] On True w by (simp add: run_log_def)
  next
    case False
    then have "d_seq (doc (cl_broker k) bid) < cap" using assms(4) On by (simp add: active_def)
    then show ?thesis using quiet_cluster_step [OF assms(1,2) assms(3) [unfolded On] _ False] On w by metis
  qed
next
  case (Background x)
  have "inv (cl_broker k)" "ch \<in> subs (cl_broker k) bid" using assms(1) by (simp_all add: serving_def)
  with tick_bus [of "cl_broker k" x] have t: "inv (tick x (cl_broker k))" "doc (tick x (cl_broker k)) = doc (cl_broker k)"
    "ch \<in> subs (tick x (cl_broker k)) bid" "chan (tick x (cl_broker k)) ch = chan (cl_broker k) ch"
    by (auto simp: bus_unchanged_def)
  let ?k = "k\<lparr>cl_broker := tick x (cl_broker k)\<rparr>"
  have "serving inv doc subs bid n ch ?k" "behind doc chan bid ch d ops (cl_broker ?k)"
    using assms(1,2) t by (simp_all add: serving_def behind_def)
  then show ?thesis using Background t(2) by (auto simp: cluster_write_def map_filter_simps run_log_def)
qed

lemma cluster_run_tracks:
  assumes "serving inv doc subs bid n ch k" "behind doc chan bid ch d ops (cl_broker k)" "steps_ok B tick roomy bid es k"
    "filter active es \<noteq> [] \<Longrightarrow> unat (d_seq (doc (cl_broker k) bid)) + length (filter active es) \<le> unat cap"
  shows "\<exists>k' d' ops'. cluster_run B tick es k = Inr k' \<and> serving inv doc subs bid n ch k' \<and>
    behind doc chan bid ch d' ops' (cl_broker k') \<and>
    doc (cl_broker k') bid = run_log (List.map_filter cluster_write es) (doc (cl_broker k) bid) \<and>
    (\<forall>c. tracks d ops c (cl_board k n) \<longrightarrow> tracks d' ops' c (cl_board k' n))"
  using assms
proof (induction es arbitrary: k d ops)
  case Nil
  then show ?case by (auto simp: map_filter_simps run_log_def)
next
  case (Cons e es)
  have lt: "active e \<Longrightarrow> d_seq (doc (cl_broker k) bid) < cap" using Cons.prems(4) by (simp add: word_less_nat_alt)
  have "step_ok roomy bid e k" using Cons.prems(3) by simp
  from cluster_step_tracks [OF Cons.prems(1,2) this lt] obtain k1 d1 ops1 where k1: "cluster_step B tick e k = Inr k1"
    "serving inv doc subs bid n ch k1" "behind doc chan bid ch d1 ops1 (cl_broker k1)"
    "doc (cl_broker k1) bid = run_log (List.map_filter cluster_write [e]) (doc (cl_broker k) bid)"
    "\<And>c. tracks d ops c (cl_board k n) \<Longrightarrow> tracks d1 ops1 c (cl_board k1 n)" by blast
  have "unat (d_seq (doc (cl_broker k1) bid)) \<le> unat (d_seq (doc (cl_broker k) bid)) + (if active e then 1 else 0)"
    using unat_Suc_u64 [OF less_u64_ne_max [OF lt]] inactive_write [of e]
    by (cases "cluster_write e") (auto simp: k1(4) run_log_seq map_filter_simps)
  then have bnd: "unat (d_seq (doc (cl_broker k1) bid)) + length (filter active es) \<le> unat cap" if "filter active es \<noteq> []"
    using Cons.prems(4) that by (simp split: if_splits)
  have "steps_ok B tick roomy bid es k1" using Cons.prems(3) k1(1) by simp
  then obtain k' d' ops' where "cluster_run B tick es k1 = Inr k'" "serving inv doc subs bid n ch k'"
    "behind doc chan bid ch d' ops' (cl_broker k')"
    "doc (cl_broker k') bid = run_log (List.map_filter cluster_write es) (doc (cl_broker k1) bid)"
    "\<And>c. tracks d1 ops1 c (cl_board k1 n) \<Longrightarrow> tracks d' ops' c (cl_board k' n)"
    using Cons.IH [OF k1(2,3)] bnd by blast
  moreover have "List.map_filter cluster_write (e # es) = List.map_filter cluster_write [e] @ List.map_filter cluster_write es"
    by (simp add: map_filter_simps split: option.split)
  ultimately show ?case using k1(1,4,5) by (auto simp: run_log_append)
qed

text \<open>A snapshot puts a connected client on the track.\<close>

lemma snapshot_tracks:
  assumes "serving inv doc subs bid n ch k" "behind doc chan bid ch d ops (cl_broker k)"
    "c \<in> set (b_clients (cl_board k n))" "\<not> b_done (cl_board k n)"
    "cluster_step B tick (On n (TellSnapshot c False)) k = Inr k'"
  shows "tracks d ops c (cl_board k' n)"
proof -
  let ?s = "cl_broker k" and ?b = "cl_board k n"
  have s: "inv ?s" "board_ok ?b" "b_msgs ?b" "c_boardID (b_heap ?b c) = bid"
    "\<And>i q b. d_shapes (doc ?s bid) i = Some (q, b) \<Longrightarrow> json_valid b"
    using assms(1) by (auto simp: serving_def)
  obtain snap t where t: "br_Snapshot B ?s bid = (Inr snap, t)" using snapshot_ok [OF s(1)] by blast
  have "snapshot_of (doc ?s bid) snap" using snapshot_law [OF s(1) t] by simp
  then obtain m where m: "Marshal TypeSnapshot 0 (marshal_Snapshot snap) = Inr m" "shows_doc (doc ?s bid) m"
    using snapshot_message_shows s(5) by metis
  obtain w' where "deliverDirect False c m ((node n k)\<lparr>w_broker := t\<rparr>) = Inr w'" "k' = put_node n w' k"
    using assms(5) t m(1) s(4) by (auto simp: sendSnapshot_def bind_result_Inr)
  then have r: "run_step (Direct c m) ?b = Inr (cl_board k' n)"
    using assms(4) by (auto simp: deliverDirect_def on_board_def live_event_def bind_result_Inr)
  have "screen (g @ [m]) = shown_doc (run_log ops d)" for g
    using m(2) assms(2) by (simp add: screen_snoc_cases(3) behind_def)
  moreover have "follows (\<lambda>g. True) c ?b" using assms(3) by (simp add: follows_def)
  ultimately show ?thesis
    using follows_step [OF s(2) _ r s(3), of "\<lambda>g. True" c] catching_up_snapshot [of d ops] by (simp add: admissible_def sent_def)
qed

lemma writes_le_active: "length (List.map_filter cluster_write es) \<le> length (filter active es)"
proof (induction es)
  case (Cons e es)
  then show ?case using inactive_write [of e] by (cases "cluster_write e"; cases "active e") (simp_all add: map_filter_simps)
qed (simp add: map_filter_simps)

text \<open>A run in which a connected client is sent a snapshot.\<close>

lemma onboarded_run:
  assumes "serving inv doc subs bid n ch k" "chan (cl_broker k) ch = []"
    "unat (d_seq (doc (cl_broker k) bid)) + length (filter active (es1 @ On n (TellSnapshot c False) # es2)) \<le> unat cap"
    "steps_ok B tick roomy bid (es1 @ On n (TellSnapshot c False) # es2) k"
    "cluster_run B tick es1 k = Inr k1" "c \<in> set (b_clients (cl_board k1 n))" "\<not> b_done (cl_board k1 n)"
  obtains k2 d ops where "cluster_run B tick (es1 @ On n (TellSnapshot c False) # es2) k = Inr k2"
    "serving inv doc subs bid n ch k2" "behind doc chan bid ch d ops (cl_broker k2)" "tracks d ops c (cl_board k2 n)"
    "doc (cl_broker k2) bid = run_log (List.map_filter cluster_write (es1 @ es2)) (doc (cl_broker k) bid)"
proof -
  let ?T = "On n (TellSnapshot c False) :: 'e cluster_event"
  have T: "active ?T" by (simp add: active_def)
  have "doc_ok (doc (cl_broker k) bid)" using assms(1) inv_doc by (simp add: serving_def)
  then have b0: "behind doc chan bid ch (doc (cl_broker k) bid) [] (cl_broker k)"
    using assms(2) unsigned_less [of "d_seq (doc (cl_broker k) bid)"] by (simp add: behind_def run_log_def carries.none)
  have ok: "steps_ok B tick roomy bid es1 k" "steps_ok B tick roomy bid (?T # es2) k1"
    using steps_ok_append [OF assms(4,5)] by blast+
  obtain d ops where k1: "serving inv doc subs bid n ch k1" "behind doc chan bid ch d ops (cl_broker k1)"
    "doc (cl_broker k1) bid = run_log (List.map_filter cluster_write es1) (doc (cl_broker k) bid)"
    using cluster_run_tracks [OF assms(1) b0 ok(1)] assms(3,5) by auto
  have "unat (d_seq (doc (cl_broker k1) bid)) = unat (d_seq (doc (cl_broker k) bid)) + length (List.map_filter cluster_write es1)"
    unfolding k1(3) using assms(3) writes_le_active [of es1] less_le_trans [OF unsigned_less [of cap], of "2 ^ 64 :: nat"]
    by (intro unat_run_log) simp
  then have sq: "unat (d_seq (doc (cl_broker k1) bid)) + Suc (length (filter active es2)) \<le> unat cap"
    using assms(3) writes_le_active [of es1] T by simp
  then have lt: "d_seq (doc (cl_broker k1) bid) < cap" by (simp add: word_less_nat_alt)
  have st: "step_ok roomy bid ?T k1" using ok(2) by simp
  have no: "List.map_filter event_write [TellSnapshot c False] = []" by (simp add: event_write_def map_filter_simps)
  obtain kx ops' where kx: "cluster_step B tick ?T k1 = Inr kx" "serving inv doc subs bid n ch kx"
    "behind doc chan bid ch d (ops @ ops') (cl_broker kx)"
    "doc (cl_broker kx) bid = run_log (List.map_filter event_write [TellSnapshot c False]) (doc (cl_broker k1) bid)"
    using quiet_cluster_step [OF k1(1,2) st lt] by blast
  note dx = kx(4) [unfolded no run_log_Nil]
  have "tracks d ops c (cl_board kx n)" by (rule snapshot_tracks [OF k1(1,2) assms(6,7) kx(1)])
  then have tx: "tracks d (ops @ ops') c (cl_board kx n)" by (rule follows_mono) (rule catching_up_more)
  have ok2: "steps_ok B tick roomy bid es2 kx" "unat (d_seq (doc (cl_broker kx) bid)) + length (filter active es2) \<le> unat cap"
    using ok(2) kx(1) sq dx by simp_all
  have run: "cluster_run B tick (es1 @ ?T # es2) k = cluster_run B tick es2 kx" using assms(5) kx(1) by (simp add: cluster_run_append)
  have "List.map_filter cluster_write (es1 @ es2) = List.map_filter cluster_write es1 @ List.map_filter cluster_write es2"
    by (simp add: map_filter_def)
  with cluster_run_tracks [OF kx(2,3) ok2] tx k1(3) dx that show thesis unfolding run by (auto simp: run_log_append)
qed

lemma caught_up:
  assumes "serving inv doc subs bid n ch k" "behind doc chan bid ch d ops (cl_broker k)" "tracks d ops c (cl_board k n)"
    "c \<in> set (b_clients (cl_board k n))" "chan (cl_broker k) ch = []"
  shows "screen (got (b_heap (cl_board k n) c)) = shown_doc (doc (cl_broker k) bid)"
proof -
  have "board_ok (cl_board k n)" using assms(1) by (simp add: serving_def)
  then have "catching_up d ops (screen (got (b_heap (cl_board k n) c)))" using assms(3,4) not_shut by (auto simp: follows_def)
  moreover have "ops = []" using assms(2,5) by (auto simp: behind_def elim: carries_NilE)
  ultimately show ?thesis using assms(2) by (simp add: catching_up_Nil behind_def run_log_def)
qed

text \<open>The instances converge.\<close>

lemma converges:
  assumes "serving inv doc subs bid n ch k" "chan (cl_broker k) ch = []"
    "unat (d_seq (doc (cl_broker k) bid)) + length (filter active (es1 @ On n (TellSnapshot c False) # es2)) \<le> unat cap"
    "steps_ok B tick roomy bid (es1 @ On n (TellSnapshot c False) # es2) k"
    "cluster_run B tick es1 k = Inr k1" "c \<in> set (b_clients (cl_board k1 n))" "\<not> b_done (cl_board k1 n)"
  shows "\<exists>k2. cluster_run B tick (es1 @ On n (TellSnapshot c False) # es2) k = Inr k2 \<and>
    doc (cl_broker k2) bid = run_log (List.map_filter cluster_write (es1 @ es2)) (doc (cl_broker k) bid) \<and>
    (c \<in> set (b_clients (cl_board k2 n)) \<longrightarrow> chan (cl_broker k2) ch = [] \<longrightarrow>
      screen (got (b_heap (cl_board k2 n) c)) = shown_doc (doc (cl_broker k2) bid))"
  by (rule onboarded_run [OF assms]) (blast intro: caught_up)

text \<open>What an instance has not yet received it can receive.\<close>

lemma background_run:
  "cluster_run B tick (map Background xs) k = Inr (k\<lparr>cl_broker := fold tick xs (cl_broker k)\<rparr>)"
  by (induction xs arbitrary: k) simp_all

lemma ticks_kept:
  "inv s \<Longrightarrow> ch \<in> subs s b \<Longrightarrow> inv (fold tick xs s) \<and> ch \<in> subs (fold tick xs s) b \<and> chan (fold tick xs s) ch = chan s ch"
proof (induction xs arbitrary: s)
  case (Cons x xs)
  then show ?case using tick_bus [of s x] by (auto simp: bus_unchanged_def)
qed simp

lemma drains:
  assumes "serving inv doc subs bid n ch k" "behind doc chan bid ch d ops (cl_broker k)" "\<not> b_done (cl_board k n)" "chan (cl_broker k) ch = ms"
  shows "\<exists>es k'. (\<forall>e \<in> set es. \<not> active e) \<and> cluster_run B tick es k = Inr k' \<and> chan (cl_broker k') ch = []"
  using assms
proof (induction ms arbitrary: k d ops)
  case Nil
  then show ?case by (intro exI [of _ "[]"]) simp
next
  case (Cons m ms)
  have s: "inv (cl_broker k)" "ch \<in> subs (cl_broker k) bid" "cl_msgs k n = Some ch" using Cons.prems(1) by (simp_all add: serving_def)
  obtain xs where xs: "fst (br_recv B (fold tick xs (cl_broker k)) ch) \<noteq> None" using recv_progress [OF s(1,2)] Cons.prems(4) by auto
  obtain y t where y: "br_recv B (fold tick xs (cl_broker k)) ch = (Some y, t)" using xs by (metis option.exhaust prod.collapse)
  let ?es = "map Background xs @ [On n Relay]" and ?k = "k\<lparr>cl_broker := fold tick xs (cl_broker k)\<rparr>"
  have ia: "\<forall>e \<in> set ?es. \<not> active e" by (auto simp: active_def)
  then obtain k1 d1 ops1 where k1: "cluster_run B tick ?es k = Inr k1" "serving inv doc subs bid n ch k1" "behind doc chan bid ch d1 ops1 (cl_broker k1)"
    using cluster_run_tracks [OF Cons.prems(1,2) inactive_steps_ok [OF ia]] by (metis filter_False)
  obtain w where w: "run_msg B (node n ?k) = Inr w" "k1 = put_node n w ?k" using k1(1) by (auto simp: cluster_run_append background_run bind_result_Inr)
  then have "on_board (Msg y) ((node n ?k)\<lparr>w_broker := t\<rparr>) = Inr w" using y s(3) Cons.prems(3) by (simp add: run_msg_def)
  then have r: "run_step (Msg y) (cl_board k n) = Inr (w_board w)" "w_broker w = t"
    using Cons.prems(3) by (auto simp: on_board_def live_event_def bind_result_Inr)
  have "board_ok (cl_board k n)" using Cons.prems(1) by (simp add: serving_def)
  from Msg_client(4) [OF this r(1)] have "\<not> b_done (cl_board k1 n)" using Cons.prems(3) w(2) by simp
  moreover have "chan (cl_broker k1) ch = ms"
    using ticks_kept [OF s(1,2), of xs] recv_bus [of "fold tick xs (cl_broker k)" ch bid ch "Some y" t] y Cons.prems(4) w(2) r(2) by simp
  ultimately obtain es k' where "\<forall>e \<in> set es. \<not> active e" "cluster_run B tick es k1 = Inr k'" "chan (cl_broker k') ch = []"
    using Cons.IH [OF k1(2,3)] by blast
  moreover from this(2) have "cluster_run B tick (?es @ es) k = Inr k'" by (simp only: cluster_run_append [of B tick ?es] k1(1) bind_result_simps)
  ultimately show ?case using ia by (intro exI [of _ "?es @ es"] exI [of _ k']) auto
qed

text \<open>Once the clients are quiet, everybody can be brought up to date.\<close>

lemma settles:
  assumes "serving inv doc subs bid n ch k" "chan (cl_broker k) ch = []"
    "unat (d_seq (doc (cl_broker k) bid)) + length (filter active (es1 @ On n (TellSnapshot c False) # es2)) \<le> unat cap"
    "steps_ok B tick roomy bid (es1 @ On n (TellSnapshot c False) # es2) k"
    "cluster_run B tick es1 k = Inr k1" "c \<in> set (b_clients (cl_board k1 n))" "\<not> b_done (cl_board k1 n)"
    "cluster_run B tick (es1 @ On n (TellSnapshot c False) # es2) k = Inr k2" "\<not> b_done (cl_board k2 n)"
  shows "\<exists>es3 k3. (\<forall>e \<in> set es3. \<not> active e) \<and> cluster_run B tick es3 k2 = Inr k3 \<and>
    doc (cl_broker k3) bid = doc (cl_broker k2) bid \<and>
    (c \<in> set (b_clients (cl_board k3 n)) \<longrightarrow> screen (got (b_heap (cl_board k3 n) c)) = shown_doc (doc (cl_broker k3) bid))"
proof (rule onboarded_run [OF assms(1-7)])
  fix k2' d ops
  assume a: "cluster_run B tick (es1 @ On n (TellSnapshot c False) # es2) k = Inr k2'" "serving inv doc subs bid n ch k2'"
    "behind doc chan bid ch d ops (cl_broker k2')" "tracks d ops c (cl_board k2' n)"
  have k2: "k2' = k2" using a(1) assms(8) by simp
  obtain es k3 where es: "\<forall>e \<in> set es. \<not> active e" "cluster_run B tick es k2 = Inr k3" "chan (cl_broker k3) ch = []"
    using drains [OF a(2,3)] assms(9) k2 by blast
  have "\<forall>e \<in> set es. cluster_write e = None" using es(1) inactive_write by blast
  then have f: "filter active es = []" "List.map_filter cluster_write es = []"
    using es(1) by (simp_all add: filter_empty_conv map_filter_def)
  obtain k3' d3 ops3 where "cluster_run B tick es k2 = Inr k3'" "serving inv doc subs bid n ch k3'" "behind doc chan bid ch d3 ops3 (cl_broker k3')"
    "doc (cl_broker k3') bid = doc (cl_broker k2) bid" "tracks d3 ops3 c (cl_board k3' n)"
    using cluster_run_tracks [OF a(2,3) inactive_steps_ok [OF es(1)]] a(4) f unfolding k2 by (auto simp: run_log_Nil)
  with es caught_up show ?thesis by (intro exI [of _ es] exI [of _ k3]) auto
qed

end

section \<open>The in-process broker as a bus\<close>

definition mem_chan :: "Memory \<Rightarrow> nat \<Rightarrow> bytes list" where
  "mem_chan m ch = (case gomap_get (mem_chans m) ch of None \<Rightarrow> [] | Some q \<Rightarrow> q)"

definition mem_roomy :: "Memory \<Rightarrow> bytes \<Rightarrow> bool" where
  "mem_roomy m b \<longleftrightarrow> list_all (\<lambda>ch. length (mem_chan m ch) < sub_buffer) (subs_of m b)"

lemma same_bus_kept: "same_bus m m' \<Longrightarrow> bus_unchanged (\<lambda>m b. set (subs_of m b)) mem_chan mem_roomy m m'"
  by (auto simp: bus_unchanged_def same_bus_def mem_chan_def mem_roomy_def fun_eq_iff)

interpretation membus: bus_broker memory_broker "\<lambda>m. Memory_ok m \<and> Subs_ok m" mem_doc mem_roster "- 1"
  "\<lambda>m b. set (subs_of m b)" mem_chan mem_roomy "\<lambda>x :: unit. \<lambda>m. m"
proof (unfold_locales, goal_cases)
  case (2 s b i sh del n s')
  then show ?case using mem.apply_law [of s b i sh del n s'] bus_kept(1) [of s b i sh del] by (simp add: memory_broker_def)
next
  case (3 s b m r s')
  then show ?case using mem.publish_law [of s b m r s'] mem_Publish_Subs(1) [of s b m r s'] by (simp add: memory_broker_def)
next
  case (4 s b snap s')
  then show ?case using mem.snapshot_law [of s b snap s'] bus_kept(2) [of s b] by (simp add: memory_broker_def)
next
  case (5 s snap b loaded s')
  then show ?case using mem.hydrate_law [of s snap b loaded s'] bus_kept(3) [of s b snap] by (auto simp: memory_broker_def)
next
  case (6 s b c p u s')
  then show ?case using mem.set_presence_law [of s b c p u s'] bus_kept(4) [of s b c p] by (simp add: memory_broker_def)
next
  case (7 s b c u s')
  then show ?case using mem.remove_presence_law [of s b c u s'] bus_kept(5) [of s b c] by (simp add: memory_broker_def)
next
  case (12 s b r s')
  then show ?case using memsteady.presence_keeps [of s b r s'] bus_kept(6) [of s b] by (simp add: memory_broker_def)
next
  case (13 s ch m s')
  then show ?case using memsteady.recv_keeps [of s ch m s'] mem_recv_Subs(2) [of s ch] by (simp add: memory_broker_def)
next
  case (14 s b ch m r s')
  then have "gomap_get (mem_chans s) ch \<noteq> None" by (auto simp: Subs_ok_def subs_ok_def)
  with 14 show ?case
    using mem_Publish_Subs(2) [of s b m r s' ch] mem_Publish_law(3) [of s b m r s']
    by (auto simp: memory_broker_def mem_roomy_def mem_chan_def list_all_iff offer_def split: option.splits)
next
  case (15 s ch b ch2 y s')
  then show ?case
    by (auto simp: memory_broker_def mem_recv_def mem_chan_def the_board_get split: option.splits list.splits)
next
  case (16 s b i sh del n s')
  then show ?case using same_bus_kept [OF mem_same_bus(1) [of s b i sh del]] by (simp add: memory_broker_def)
next
  case (17 s b snap s')
  then show ?case using same_bus_kept [OF mem_same_bus(2) [of s b]] by (simp add: memory_broker_def)
next
  case (18 s b ps s')
  then show ?case using same_bus_kept [OF mem_same_bus(6) [of s b]] by (simp add: memory_broker_def)
next
  case (19 s b c p u s')
  then show ?case using same_bus_kept [OF mem_same_bus(4) [of s b c p]] by (simp add: memory_broker_def)
next
  case (22 s ch b)
  then have "fst (mem_recv s ch) \<noteq> None" by (auto simp: mem_recv_def mem_chan_def split: option.splits list.splits)
  then show ?case by (intro exI [of _ "[]"]) (simp add: memory_broker_def)
next
  case (20 s b c u s')
  then show ?case using same_bus_kept [OF mem_same_bus(5) [of s b c]] by (simp add: memory_broker_def)
qed (auto simp: mem.inv_doc memsteady.apply_ok memsteady.snapshot_ok memp.set_presence_ok memp.remove_presence_ok bus_unchanged_def)

section \<open>The property\<close>

definition example_frame :: bytes where
  "example_frame =
     (case Marshal TypeShapeCreate 0 (marshal_ShapeOp \<lparr>op_ID = ''a'', op_Shape = Some ''[1]''\<rparr>) of Inr m \<Rightarrow> m | Inl e \<Rightarrow> [])"

text \<open>Two instances: the first has two clients and the subscription, the second one client that draws.\<close>

definition example_cluster :: "Memory Cluster" where
  "example_cluster =
     \<lparr>cl_broker = snd (mem_Subscribe NewMemory ''x''), cl_board = (\<lambda>n. if n = 0 then two_clients else newBoard blank_client),
      cl_msgs = (\<lambda>n. if n = 0 then Some 0 else None)\<rparr>"

definition example_steps :: "unit cluster_event list" where
  "example_steps = [On 1 (Loop (Register 5)), On 1 (Frame 5 example_frame)]"

definition example_steps2 :: "unit cluster_event list" where
  "example_steps2 = [On 1 (Frame 5 example_frame), On 0 (JoinRoster 0), On 0 Relay, On 0 Relay, On 0 Relay]"

lemma example_cluster_run:
  "case cluster_run memory_broker (\<lambda>x m. m) example_steps example_cluster of
     Inl e \<Rightarrow> False | Inr k1 \<Rightarrow> 1 \<in> set (b_clients (cl_board k1 0)) \<and> \<not> b_done (cl_board k1 0)"
  "case cluster_run memory_broker (\<lambda>x m. m) (example_steps @ On 0 (TellSnapshot 1 False) # example_steps2) example_cluster of
     Inl e \<Rightarrow> False | Inr k2 \<Rightarrow> 1 \<in> set (b_clients (cl_board k2 0)) \<and> mem_chan (cl_broker k2) 0 = []"
  by code_simp+

lemma example_cluster_serving:
  "serving (\<lambda>m. Memory_ok m \<and> Subs_ok m) mem_doc (\<lambda>m b. set (subs_of m b)) ''x'' 0 0 example_cluster"
  "mem_chan (cl_broker example_cluster) 0 = []" "mem_doc (cl_broker example_cluster) ''x'' = empty_doc"
proof -
  have w: "cl_broker example_cluster = w_broker example_world" by (simp add: example_cluster_def example_world_def)
  show d: "mem_doc (cl_broker example_cluster) ''x'' = empty_doc" by (simp add: w example_world_ok)
  have "Memory_ok (w_broker example_world)" "Subs_ok (w_broker example_world)" "0 \<in> set (subs_of (w_broker example_world) ''x'')"
    using example_world_ok(1) by (auto simp: world_ok_def example_world_def)
  moreover have "board_ok (newBoard blank_client)" by (rule newBoard_ok) (simp add: blank_client_def)
  moreover have "c_boardID (b_heap two_clients c) = ''x''" "c_boardID (blank_client c) = ''x''" for c
    by (simp_all add: two_clients_def newBoard_def join_def blank_client_def)
  ultimately show "serving (\<lambda>m. Memory_ok m \<and> Subs_ok m) mem_doc (\<lambda>m b. set (subs_of m b)) ''x'' 0 0 example_cluster"
    using two_clients_ok(1) two_clients_fields(2) d
    by (simp add: serving_def w) (simp add: example_cluster_def newBoard_def empty_doc_def)
  show "mem_chan (cl_broker example_cluster) 0 = []" by code_simp
qed



end
