(* ===== verification/RedisCluster.thy ===== *)
theory RedisCluster
  imports Production Cluster
begin

text \<open>
  The Redis broker as a message bus: with what Redis and go-redis document of commands and
  subscriptions, instances that share a server keep the contract \<open>bus_broker\<close>, so that their
  clients converge. The forwarding goroutines of all instances are the bus's own steps; the table
  of forwarders is that of all instances, a subscription's number being unique on the server.
\<close>

section \<open>Commands leave subscriptions alone\<close>

fun publishes :: "redis_cmd \<Rightarrow> bool" where
  "publishes (PUBLISH ch m) = True"
| "publishes _ = False"

locale redis_live = redis_up R db + redis_pubsub R db channel_of pending
  for R :: "'r RedisServer" and db and channel_of and pending +
  assumes call_bus: "\<not> publishes cmd \<Longrightarrow> rs_call R s cmd = (r, s') \<Longrightarrow>
      channel_of s' = channel_of s \<and> pending s' = pending s"
    and next_keeps: "rs_next R s ps = (x, s') \<Longrightarrow> db s' = db s"
    and closed_bus: "rs_next R s ps = (Closed, s') \<Longrightarrow> channel_of s' = channel_of s \<and> pending s' = pending s"
    and unsubscribe_bus: "db (rs_unsubscribe R s ps) = db s"
      "ps2 \<noteq> ps \<Longrightarrow> channel_of (rs_unsubscribe R s ps) ps2 = channel_of s ps2 \<and> pending (rs_unsubscribe R s ps) ps2 = pending s ps2"

definition quiet :: "('r \<Rightarrow> nat \<Rightarrow> bytes option) \<Rightarrow> ('r \<Rightarrow> nat \<Rightarrow> bytes list) \<Rightarrow> ('r, 'a) redis \<Rightarrow> bool" where
  "quiet channel_of pending f \<longleftrightarrow>
     (\<forall>s r s'. f s = (r, s') \<longrightarrow> channel_of s' = channel_of s \<and> pending s' = pending s)"

lemma quiet_pure:
  "quiet ch p (return_redis x)" "quiet ch p (fail_redis e)" "quiet ch p (reply_Int64 y)" "quiet ch p (reply_Uint64 y)" "quiet ch p (reply_Map y)"
  by (auto simp: quiet_def return_redis_def fail_redis_def reply_Int64_def reply_Uint64_def reply_Map_def split: reply.splits prod.splits option.splits)

lemma quiet_bind: "quiet ch p f \<Longrightarrow> (\<And>x. quiet ch p (g x)) \<Longrightarrow> quiet ch p (bind_redis f g)"
  unfolding quiet_def bind_redis_def by (auto split: prod.splits sum.splits)

lemma quietD: "quiet ch p f \<Longrightarrow> f s = (r, s') \<Longrightarrow> ch s' = ch s \<and> p s' = p s"
  by (auto simp: quiet_def)

text \<open>A quiet call on the server is no event of the bus.\<close>

abbreviation rd_subs :: "('r \<Rightarrow> nat \<Rightarrow> bytes option) \<Rightarrow> 'r Redis \<Rightarrow> bytes \<Rightarrow> nat set" where
  "rd_subs channel_of s b \<equiv> {ps. listening channel_of s ps b}"

abbreviation rd_unchanged :: "('r \<Rightarrow> nat \<Rightarrow> bytes option) \<Rightarrow> ('r \<Rightarrow> nat \<Rightarrow> bytes list) \<Rightarrow> 'r Redis \<Rightarrow> 'r Redis \<Rightarrow> bool" where
  "rd_unchanged channel_of pending \<equiv> bus_unchanged (rd_subs channel_of) (rd_stream pending) (\<lambda>s b. True)"

lemma on_server_unchanged:
  assumes "quiet channel_of pending f" "on_server f s = (r, s')"
  shows "rd_unchanged channel_of pending s s'"
proof -
  obtain t where t: "f (rb_server s) = (r, t)" "s' = s\<lparr>rb_server := t\<rparr>"
    using assms(2) by (auto simp: on_server_def split: prod.splits)
  from quietD [OF assms(1) t(1)] t(2) show ?thesis by (auto simp: bus_unchanged_def listening_def rd_stream_def)
qed

context redis_live
begin

lemma quiet_call: "\<not> publishes cmd \<Longrightarrow> quiet channel_of pending (call R cmd)"
  using call_bus by (simp add: quiet_def call_def)

lemma quiet_request: "quiet channel_of pending f \<Longrightarrow> quiet channel_of pending (request R f)"
  unfolding quiet_def request_def by (auto split: prod.splits option.splits dest!: send_bus reply_bus)

lemmas quiet_intros = quiet_bind quiet_request quiet_call quiet_pure

lemma quiet_applyShapeScript: "quiet channel_of pending (applyShapeScript R k1 k2 i del blob)"
  unfolding applyShapeScript_def by (auto simp: Let_def intro!: quiet_intros split: reply.split)

lemma methods_unchanged:
  "rd_ApplyShape R s b i sh del = (r1, s') \<Longrightarrow> rd_unchanged channel_of pending s s'"
  "rd_Snapshot R s b = (r2, s') \<Longrightarrow> rd_unchanged channel_of pending s s'"
  "rd_Presence R s b = (r3, s') \<Longrightarrow> rd_unchanged channel_of pending s s'"
  "rd_SetPresence R s b c p = (r4, s') \<Longrightarrow> rd_unchanged channel_of pending s s'"
  "rd_RemovePresence R s b c = (r5, s') \<Longrightarrow> rd_unchanged channel_of pending s s'"
proof -
  show "rd_ApplyShape R s b i sh del = (r1, s') \<Longrightarrow> rd_unchanged channel_of pending s s'"
    unfolding rd_ApplyShape_def by (erule on_server_unchanged [rotated]) (auto intro!: quiet_intros quiet_applyShapeScript)
  have "quiet channel_of pending (\<lambda>t. let shapes = h in
      case bind_redis (request R (call R (GET k))) reply_Uint64 t of
        (Inr cur, u) \<Rightarrow> (Inr \<lparr>snap_Seq = cur, snap_Shapes = shapes\<rparr>, u)
      | (Inl e, u) \<Rightarrow> if e = redis_Nil then (Inr \<lparr>snap_Seq = 0, snap_Shapes = shapes\<rparr>, u) else (Inl e, u))" for h k
  proof -
    have "quiet channel_of pending (bind_redis (request R (call R (GET k))) reply_Uint64)" by (intro quiet_intros) simp
    then show ?thesis unfolding quiet_def by (auto simp: Let_def split: prod.splits sum.splits if_splits)
  qed
  then have "quiet channel_of pending (bind_redis (request R (call R (HGETALL k))) (\<lambda>r.
       bind_redis (reply_Map r) (\<lambda>fields t.
         let shapes = sort_key ss_Seq (List.map_filter snapshot_entry fields) in
         (case bind_redis (request R (call R (GET k'))) reply_Uint64 t of
            (Inr cur, u) \<Rightarrow> (Inr \<lparr>snap_Seq = cur, snap_Shapes = shapes\<rparr>, u)
          | (Inl e, u) \<Rightarrow> if e = redis_Nil then (Inr \<lparr>snap_Seq = 0, snap_Shapes = shapes\<rparr>, u) else (Inl e, u)))))" for k k'
    by (intro quiet_intros) (simp_all add: Let_def)
  then show "rd_Snapshot R s b = (r2, s') \<Longrightarrow> rd_unchanged channel_of pending s s'"
    unfolding rd_Snapshot_def rd_Snapshot_with_def by (rule on_server_unchanged)
  show "rd_Presence R s b = (r3, s') \<Longrightarrow> rd_unchanged channel_of pending s s'"
    unfolding rd_Presence_def by (erule on_server_unchanged [rotated]) (auto intro!: quiet_intros)
  show "rd_SetPresence R s b c p = (r4, s') \<Longrightarrow> rd_unchanged channel_of pending s s'"
    unfolding rd_SetPresence_def by (erule on_server_unchanged [rotated]) (auto intro!: quiet_intros)
  show "rd_RemovePresence R s b c = (r5, s') \<Longrightarrow> rd_unchanged channel_of pending s s'"
    unfolding rd_RemovePresence_def by (erule on_server_unchanged [rotated]) (auto intro!: quiet_intros)
qed

lemma publish_up:
  obtains s' where "rd_Publish R s b m = (Inr (), s')"
proof -
  have "cmd_ok (db (rb_server s)) (PUBLISH (channelKey b) m)" by simp
  then obtain r t where "request R (call R (PUBLISH (channelKey b) m)) (rb_server s) = (Inr r, t)" by (rule request_call_up)
  then show thesis using that by (simp add: rd_Publish_def on_server_def bind_redis_def return_redis_def)
qed

lemma publish_forwarders: "rd_Publish R s b m = (r, s') \<Longrightarrow> s' = s\<lparr>rb_server := rb_server s'\<rparr>"
  by (auto simp: rd_Publish_def on_server_def split: prod.splits)

lemma publish_bus_stream:
  assumes "rd_Publish R s b m = (r, s')" "listening channel_of s ps b"
  shows "listening channel_of s' ps b \<and> rd_stream pending s' ps = rd_stream pending s ps @ [m]"
proof -
  obtain s2 where "rd_Publish R s b m = (Inr (), s2)" by (rule publish_up)
  then have "r = Inr ()" using assms(1) by simp
  with publish_stream [of s b m "()" s' s ps b] assms publish_forwarders [OF assms(1)] show ?thesis by simp
qed

lemma recv_bus_stream:
  assumes "rd_recv s ps2 = (y, s')" "listening channel_of s ps b"
  shows "listening channel_of s' ps b \<and>
    rd_stream pending s ps = (if ps2 = ps then (case y of None \<Rightarrow> [] | Some z \<Rightarrow> [z]) else []) @ rd_stream pending s' ps"
  using assms by (cases "ps2 = ps") (auto simp: rd_recv_def listening_def rd_stream_def held_list_def split: option.splits list.splits)

text \<open>A step of one subscription's forwarder, seen by another subscription.\<close>

lemma next_other:
  assumes "rs_next R s ps2 = (x, t)" "ps2 \<noteq> ps"
  shows "channel_of t ps = channel_of s ps \<and> pending t ps = pending s ps"
proof (cases x)
  case (Message m)
  then have "pending s = (pending t)(ps2 := m # pending t ps2)" "channel_of t = channel_of s" using next_message assms(1) by blast+
  with assms(2) show ?thesis by (metis fun_upd_other)
next
  case Pending
  with next_pending [of s ps2 t] assms(1) show ?thesis by simp
next
  case Closed
  with closed_bus [of s ps2 t] assms(1) show ?thesis by simp
qed

lemma fwd_step_frame:
  assumes "ps2 \<noteq> ps"
  shows "channel_of (rb_server (fwd_step R e ps2 s)) ps = channel_of (rb_server s) ps \<and>
    pending (rb_server (fwd_step R e ps2 s)) ps = pending (rb_server s) ps \<and>
    gomap_get (rb_forwarders (fwd_step R e ps2 s)) ps = gomap_get (rb_forwarders s) ps"
proof (cases "gomap_get (rb_forwarders s) ps2")
  case (Some f)
  obtain x t where x: "rs_next R (rb_server s) ps2 = (x, t)" by fastforce
  note n = next_other [OF x assms] and u = unsubscribe_bus(2) [OF assms [symmetric]]
  show ?thesis
  proof (cases "e = FwdNext \<and> fw_held f = None \<and> fw_live f")
    case True
    with Some x n u assms show ?thesis by (cases x) (simp_all add: fwd_step_def stop_forwarder_def)
  next
    case False
    with Some u assms show ?thesis by (cases e; cases "fw_held f") (auto simp: fwd_step_def stop_forwarder_def)
  qed
qed (simp add: fwd_step_def)

lemma fwd_step_other:
  assumes "listening channel_of s ps b" "ps2 \<noteq> ps"
  shows "listening channel_of (fwd_step R e ps2 s) ps b \<and> rd_stream pending (fwd_step R e ps2 s) ps = rd_stream pending s ps"
  using assms(1) fwd_step_frame [OF assms(2), of e s] by (auto simp: listening_def rd_stream_def)

lemma fwd_step_db: "db (rb_server (fwd_step R e ps s)) = db (rb_server s)"
  by (auto simp: fwd_step_def stop_forwarder_def unsubscribe_bus(1) split: option.splits fwd_case.splits pubsub_next.splits prod.splits dest!: next_keeps)

end

text \<open>The steps of the forwarders, while no subscription is cancelled.\<close>

definition rd_tick :: "'r RedisServer \<Rightarrow> nat \<times> fwd_case \<Rightarrow> 'r Redis \<Rightarrow> 'r Redis" where
  "rd_tick R x s = (case x of (ps, e) \<Rightarrow> if e = FwdDone then s else fwd_step R e ps s)"

sublocale redis_live \<subseteq> rbus: bus_broker "redis_broker R" "\<lambda>s. ks_ok (db (rb_server s))"
  "\<lambda>s. ks_doc (db (rb_server s))" "\<lambda>s. ks_roster (db (rb_server s))" redis_cap
  "rd_subs channel_of" "rd_stream pending" "\<lambda>s b. True" "rd_tick R"
proof (unfold_locales, goal_cases)
  case (1 s b ch m r s')
  then show ?case using publish_bus_stream by (simp add: redis_broker_def)
next
  case (2 s ch b ch2 y s')
  then show ?case using recv_bus_stream by (simp add: redis_broker_def)
next
  case (8 s x)
  have "listening channel_of (rd_tick R x s) ps b \<and> rd_stream pending (rd_tick R x s) ps = rd_stream pending s ps" if "listening channel_of s ps b" for ps b
    using fwd_step_other [OF that, of "fst x" "snd x"] fwd_step_stream [OF that, of "snd x"] that
    by (cases x; cases "fst x = ps") (auto simp: rd_tick_def)
  then show ?case using 8 by (cases x) (auto simp: rd_tick_def fwd_step_db bus_unchanged_def)
next
  case (9 s ch b)
  then obtain m rest where "rd_stream pending s ch = m # rest" by (auto simp: neq_Nil_conv)
  then obtain es s' where es: "FwdDone \<notin> set es" "rd_recv (fwd_run R ch es s) ch = (Some m, s')"
    using stream_head_received [of s ch b m rest] 9(2) by (metis mem_Collect_eq)
  have "fold (rd_tick R) (map (Pair ch) es) t = fwd_run R ch es t" for t
    using es(1) by (induction es arbitrary: t) (auto simp: rd_tick_def fwd_run_def)
  with es(2) show ?case by (intro exI [of _ "map (Pair ch) es"]) (simp add: redis_broker_def)
qed (auto simp: redis_broker_def dest: methods_unchanged)

context redis_live
begin

lemmas redis_bus = rbus.bus_broker_axioms

end

section \<open>A concrete cluster\<close>

lemma sim_up_bus: "rs_next sim_up = rs_next sim_server" "rs_unsubscribe sim_up = rs_unsubscribe sim_server"
  by (simp_all add: sim_up_def)

lemma sim_next_frame: "sim_next s ps = (x, s') \<Longrightarrow> sim_str s' = sim_str s \<and> sim_hash s' = sim_hash s"
  "sim_next s ps = (Closed, s') \<Longrightarrow> s' = s"
  by (auto simp: sim_next_def split: option.splits list.splits)

interpretation simlive: redis_live sim_up sim_db sim_channel sim_pending
proof (unfold_locales, unfold sim_up_fields sim_up_bus, goal_cases)
  case (7 cmd s r s')
  then show ?case
    by (cases cmd) (auto simp: sim_server_def sim_channel_def sim_pending_def fun_eq_iff split: option.splits if_splits)
next
  case (8 s ps x s')
  then show ?case using sim_next_frame(1) [of s ps x s'] by (simp add: sim_server_def sim_db_def sim_fields_def)
next
  case (9 s ps s')
  then show ?case using sim_next_frame(2) [of s ps s'] by (simp add: sim_server_def)
qed (erule sim.publish_bus sim.send_bus sim.next_pending sim.next_message sim.next_closed
  | simp add: sim_server_def sim_db_def sim_channel_def sim_pending_def)+

section \<open>The property\<close>

definition redis_example :: "sim Redis Cluster" where
  "redis_example =
     \<lparr>cl_broker = snd (rd_Subscribe sim_up (snd (rd_Subscribe sim_up (NewRedis sim_empty) ''x'')) ''x''),
      cl_board = (\<lambda>n. if n = 0 then two_clients else newBoard blank_client),
      cl_msgs = (\<lambda>n. if n = 0 then Some 0 else if n = 1 then Some 1 else None)\<rparr>"

definition redis_steps :: "(nat \<times> fwd_case) cluster_event list" where
  "redis_steps = [On 1 (Loop (Register 5)), On 1 (Frame 5 example_frame)]"

definition redis_steps2 :: "(nat \<times> fwd_case) cluster_event list" where
  "redis_steps2 = [On 1 (Frame 5 example_frame), Background (1, FwdNext)]"

lemma redis_example_run:
  "case cluster_run (redis_broker sim_up) (rd_tick sim_up) redis_steps redis_example of
     Inl e \<Rightarrow> False | Inr k1 \<Rightarrow> 1 \<in> set (b_clients (cl_board k1 0)) \<and> \<not> b_done (cl_board k1 0)"
  "case cluster_run (redis_broker sim_up) (rd_tick sim_up) (redis_steps @ On 0 (TellSnapshot 1 False) # redis_steps2) redis_example of
     Inl e \<Rightarrow> False | Inr k2 \<Rightarrow> \<not> b_done (cl_board k2 0)"
  by code_simp+

lemma redis_example_serving:
  "serving (\<lambda>s. ks_ok (sim_db (rb_server s))) (\<lambda>s. ks_doc (sim_db (rb_server s))) (rd_subs sim_channel) ''x'' 0 0 redis_example"
  "rd_stream sim_pending (cl_broker redis_example) 0 = []" "ks_doc (sim_db (rb_server (cl_broker redis_example))) ''x'' = empty_doc"
proof -
  have "sim_db (rb_server (cl_broker redis_example)) = sim_db sim_empty"
    by (simp add: redis_example_def rd_Subscribe_def sim_up_def sim_server_def NewRedis_def sim_db_def)
  then have k: "ks_ok (sim_db (rb_server (cl_broker redis_example)))" "\<And>b. ks_doc (sim_db (rb_server (cl_broker redis_example))) b = empty_doc"
    using sim_empty_ok by simp_all
  then show "ks_doc (sim_db (rb_server (cl_broker redis_example))) ''x'' = empty_doc" by simp
  have l: "listening sim_channel (cl_broker redis_example) 0 ''x''"
    by (simp add: listening_def redis_example_def rd_Subscribe_def sim_up_def sim_server_def NewRedis_def sim_empty_def sim_channel_def)
  have b: "c_boardID (b_heap two_clients c) = ''x''" "c_boardID (blank_client c) = ''x''" for c
    by (simp_all add: two_clients_def newBoard_def join_def blank_client_def)
  have "board_ok (newBoard blank_client)" by (rule newBoard_ok) (simp add: blank_client_def)
  with k l b two_clients_ok(1) two_clients_fields(2)
  show "serving (\<lambda>s. ks_ok (sim_db (rb_server s))) (\<lambda>s. ks_doc (sim_db (rb_server s))) (rd_subs sim_channel) ''x'' 0 0 redis_example"
    by (simp add: serving_def) (simp add: redis_example_def newBoard_def empty_doc_def)
  show "rd_stream sim_pending (cl_broker redis_example) 0 = []" by code_simp
qed



end
