(* ===== verification/Races.thy ===== *)
theory Races
  imports Cluster
begin

text \<open>
  The goroutines of a session between their calls. \<^verbatim>\<open>applyShapeOp\<close> applies an operation and then
  publishes it, \<^verbatim>\<open>sendSnapshot\<close> fetches a snapshot and then hands it to the board; another goroutine
  may run in between. The steps of \<^verbatim>\<open>Instance\<close> are the two halves run back to back. Updates alone
  may be reordered freely; a deletion that overtakes an update, and a snapshot that is overtaken by
  an operation, leave clients with a drawing that is not the document.
\<close>

section \<open>Halves of the operations of a client\<close>

text \<open>\<^verbatim>\<open>applyShapeOp\<close> up to the return of \<^verbatim>\<open>ApplyShape\<close>, with the message it goes on to publish.\<close>

definition apply_half :: "'b Broker \<Rightarrow> nat \<Rightarrow> Envelope \<Rightarrow> ('b, 's) World \<Rightarrow> bytes go_result option \<times> ('b, 's) World" where
  "apply_half B c env w =
     (case DecodePayload env set_ShapeOp zero_ShapeOp of (err, op) \<Rightarrow>
        if err \<noteq> None \<or> op_ID op = [] then (None, w)
        else (case br_ApplyShape B (w_broker w) (c_boardID (client_of c w)) (op_ID op) (op_Shape op) (env_Type env = TypeShapeDelete) of
           (Inl e, b) \<Rightarrow> (None, w\<lparr>w_broker := b\<rparr>)
         | (Inr seq, b) \<Rightarrow> (Some (Marshal (env_Type env) seq (marshal_ShapeOp op)), w\<lparr>w_broker := b\<rparr>)))"

definition read_half :: "'b Broker \<Rightarrow> nat \<Rightarrow> bytes \<Rightarrow> ('b, 's) World \<Rightarrow> bytes go_result option \<times> ('b, 's) World" where
  "read_half B c data w =
     (case unmarshal_Envelope data of
        (Some err, env) \<Rightarrow> (None, w)
      | (None, env) \<Rightarrow>
          let w1 = w\<lparr>w_board := emit MessageReceived (w_board w)\<rparr> in
          if env_Type env \<in> {TypeShapeCreate, TypeShapeUpdate, TypeShapeDelete} then apply_half B c env w1
          else if env_Type env = TypeCursor then (None, publishCursor B c env w1)
          else (None, w1))"

text \<open>\<^verbatim>\<open>sendSnapshot\<close> up to the call of \<^verbatim>\<open>deliverDirect\<close>, with the message it delivers.\<close>

definition fetch_half :: "'b Broker \<Rightarrow> nat \<Rightarrow> ('b, 's) World \<Rightarrow> bytes option \<times> ('b, 's) World" where
  "fetch_half B c w =
     (case br_Snapshot B (w_broker w) (c_boardID (client_of c w)) of
        (Inl err, b) \<Rightarrow> (None, w\<lparr>w_broker := b\<rparr>)
      | (Inr snap, b) \<Rightarrow>
          (case Marshal TypeSnapshot 0 (marshal_Snapshot snap) of
             Inl err \<Rightarrow> (None, w\<lparr>w_broker := b\<rparr>)
           | Inr data \<Rightarrow> (Some data, w\<lparr>w_broker := b\<rparr>)))"

section \<open>Steps\<close>

text \<open>Where the goroutine of a client stands.\<close>

datatype position = Idle | Publishing "bytes go_result" | Delivering bytes

record ('b, 's) Racing =
  rc_world :: "('b, 's) World"
  rc_pos :: "nat \<Rightarrow> position"

datatype race_event =
    ApplyCall nat bytes
  | PublishCall nat
  | SnapshotCall nat
  | DeliverCall nat
  | Whole instance_event

definition begin_call :: "nat \<Rightarrow> position \<Rightarrow> ('b, 's) World \<Rightarrow> ('b, 's) Racing \<Rightarrow> ('b, 's) Racing" where
  "begin_call c p w x = \<lparr>rc_world = w, rc_pos = (rc_pos x)(c := p)\<rparr>"

fun race_step :: "'b Broker \<Rightarrow> race_event \<Rightarrow> ('b, 's) Racing \<Rightarrow> panic + ('b, 's) Racing" where
  "race_step B (ApplyCall c data) x =
     (if rc_pos x c \<noteq> Idle then Inr x
      else (case read_half B c data (rc_world x) of
        (None, w) \<Rightarrow> Inr (begin_call c Idle w x)
      | (Some r, w) \<Rightarrow> Inr (begin_call c (Publishing r) w x)))"
| "race_step B (PublishCall c) x =
     (case rc_pos x c of
        Publishing r \<Rightarrow> Inr (begin_call c Idle (publish B (c_boardID (client_of c (rc_world x))) r (rc_world x)) x)
      | _ \<Rightarrow> Inr x)"
| "race_step B (SnapshotCall c) x =
     (if rc_pos x c \<noteq> Idle then Inr x
      else (case fetch_half B c (rc_world x) of
        (None, w) \<Rightarrow> Inr (begin_call c Idle w x)
      | (Some data, w) \<Rightarrow> Inr (begin_call c (Delivering data) w x)))"
| "race_step B (DeliverCall c) x =
     (case rc_pos x c of
        Delivering data \<Rightarrow> bind_result (deliverDirect False c data (rc_world x)) (\<lambda>w. Inr (begin_call c Idle w x))
      | _ \<Rightarrow> Inr x)"
| "race_step B (Whole e) x = bind_result (instance_step B e (rc_world x)) (\<lambda>w. Inr (x\<lparr>rc_world := w\<rparr>))"

fun race_run :: "'b Broker \<Rightarrow> race_event list \<Rightarrow> ('b, 's) Racing \<Rightarrow> panic + ('b, 's) Racing" where
  "race_run B [] x = Inr x"
| "race_run B (e # es) x = bind_result (race_step B e x) (race_run B es)"

text \<open>Back to back, the halves are the whole step.\<close>

lemma apply_half_client: "apply_half B c env w = (r, w1) \<Longrightarrow> w_board w1 = w_board w"
  by (auto simp: apply_half_def split: prod.splits if_splits sum.splits)

lemma applyShapeOp_halves:
  "applyShapeOp B c env w = (case apply_half B c env w of (None, w1) \<Rightarrow> w1 | (Some r, w1) \<Rightarrow> publish B (c_boardID (client_of c w)) r w1)"
  by (simp add: applyShapeOp_def apply_half_def Let_def split: prod.split sum.split)

lemma readPump_halves:
  "readPump_step B c data w = (case read_half B c data w of (None, w1) \<Rightarrow> w1 | (Some r, w1) \<Rightarrow> publish B (c_boardID (client_of c w1)) r w1)"
proof (cases "unmarshal_Envelope data")
  case (Pair err env)
  let ?w = "w\<lparr>w_board := emit MessageReceived (w_board w)\<rparr>"
  obtain r w1 where h: "apply_half B c env ?w = (r, w1)" by fastforce
  have "client_of c w1 = client_of c w" using apply_half_client [OF h] by simp
  with Pair h show ?thesis
    by (simp add: readPump_step_def read_half_def applyShapeOp_halves Let_def split: option.split)
qed

lemma sendSnapshot_halves:
  "sendSnapshot B False c w = (case fetch_half B c w of (None, w1) \<Rightarrow> Inr w1 | (Some data, w1) \<Rightarrow> deliverDirect False c data w1)"
  by (simp add: sendSnapshot_def fetch_half_def split: prod.split sum.split)

lemma halves_whole:
  assumes "rc_pos x c = Idle"
  shows "race_run B [ApplyCall c data, PublishCall c] x = race_run B [Whole (Frame c data)] x"
    "race_run B [SnapshotCall c, DeliverCall c] x = race_run B [Whole (TellSnapshot c False)] x"
proof -
  have id: "(rc_pos x)(c := Idle) = rc_pos x" using assms by auto
  show "race_run B [ApplyCall c data, PublishCall c] x = race_run B [Whole (Frame c data)] x"
    using assms id by (auto simp: readPump_halves begin_call_def split: prod.split option.split)
  show "race_run B [SnapshotCall c, DeliverCall c] x = race_run B [Whole (TellSnapshot c False)] x"
    using assms id by (auto simp: sendSnapshot_halves begin_call_def bind_result_def split: prod.split option.split sum.split)
qed

section \<open>Updates commute\<close>

text \<open>The message the server publishes for an update with sequence number \<open>q\<close>.\<close>

definition update_message :: "u64 \<times> ShapeOp \<Rightarrow> bytes" where
  "update_message u = (case u of (q, op) \<Rightarrow> (case Marshal TypeShapeUpdate q (marshal_ShapeOp op) of Inr m \<Rightarrow> m | Inl e \<Rightarrow> []))"

definition update_ok :: "u64 \<times> ShapeOp \<Rightarrow> bool" where
  "update_ok u \<longleftrightarrow> (case op_Shape (snd u) of None \<Rightarrow> False | Some s \<Rightarrow> json_valid s \<and> js_truthy (Some (compact False s)))"

definition react_update :: "u64 \<times> ShapeOp \<Rightarrow> (bytes \<rightharpoonup> int \<times> bytes option) \<Rightarrow> (bytes \<rightharpoonup> int \<times> bytes option)" where
  "react_update u = react (fst u) (op_ID (snd u), slice_bytes (op_Shape (snd u)), False)"

lemma update_message_shown:
  assumes "update_ok u"
  shows "shown (snd (handleMessage (update_message u) a)) = react_update u (shown a)"
proof -
  obtain q op s where u: "u = (q, op)" "op_Shape op = Some s" "json_valid s" "js_truthy (Some (compact False s))"
    using assms by (cases u) (auto simp: update_ok_def split: option.splits)
  have sh: "op_Shape op = None \<or> (\<exists>s. op_Shape op = Some s \<and> json_valid s)" using u by simp
  have t: "TypeShapeUpdate \<in> {TypeShapeCreate, TypeShapeUpdate, TypeShapeDelete}" "TypeShapeUpdate \<noteq> TypeShapeDelete" by (simp_all add: type_tags)
  obtain ms where "marshal_ShapeOp op = Inr (json_object ms)" "list_all (canonical \<circ> snd) ms" using marshal_ShapeOp_cases [OF sh] by metis
  then obtain m where m: "Marshal TypeShapeUpdate q (marshal_ShapeOp op) = Inr m"
    using envelope_roundtrip [OF canonical_object, of ms TypeShapeUpdate q] by metis
  have "(case gomap_get (app_shapes a) (op_ID op) of None \<Rightarrow> True | Some cur \<Rightarrow> sh_seq cur \<le> f64_round (uint q)) =
      (case shown a (op_ID op) of None \<Rightarrow> True | Some (p, v) \<Rightarrow> p \<le> f64_round (uint q))"
    by (simp add: shown_def split: option.split)
  with u m t(2) show ?thesis
    by (simp add: update_message_def handle_shape_message [OF sh t(1) m] react_update_def react_def shown_upd)
qed

lemma react_update_commute:
  assumes "f64_round (uint (fst u)) \<noteq> f64_round (uint (fst v))"
  shows "react_update u \<circ> react_update v = react_update v \<circ> react_update u"
proof
  fix X
  show "(react_update u \<circ> react_update v) X = (react_update v \<circ> react_update u) X"
    using assms by (cases "op_ID (snd u) = op_ID (snd v)")
      (auto simp: react_update_def react_def fun_upd_twist split: option.splits)
qed

lemma handle_updates:
  "list_all update_ok us \<Longrightarrow> shown (handle_all (map update_message us) a) = fold react_update us (shown a)"
  by (induction us arbitrary: a) (simp_all add: handle_all_def update_message_shown)



section \<open>Deletions and snapshots do not\<close>

definition op_frame :: "bytes \<Rightarrow> bytes \<Rightarrow> slice \<Rightarrow> bytes" where
  "op_frame t i sh = (case Marshal t 0 (marshal_ShapeOp \<lparr>op_ID = i, op_Shape = sh\<rparr>) of Inr m \<Rightarrow> m | Inl e \<Rightarrow> [])"

definition race_start :: "(Memory, MemStore) Racing" where
  "race_start = \<lparr>rc_world = example_world, rc_pos = (\<lambda>c. Idle)\<rparr>"

text \<open>Client 0 moves a shape and client 1 deletes it; the deletion is published first.\<close>

definition resurrection :: "race_event list" where
  "resurrection =
     [Whole (Frame 0 (op_frame TypeShapeCreate ''a'' (Some ''[1]''))), Whole Relay,
      ApplyCall 0 (op_frame TypeShapeUpdate ''a'' (Some ''[2]'')), ApplyCall 1 (op_frame TypeShapeDelete ''a'' None),
      PublishCall 1, PublishCall 0, Whole Relay, Whole Relay]"

text \<open>Client 1 is sent a snapshot; client 0 draws a shape between its making and its delivery.\<close>

definition overtaken_snapshot :: "race_event list" where
  "overtaken_snapshot =
     [SnapshotCall 1, Whole (Frame 0 (op_frame TypeShapeCreate ''a'' (Some ''[1]''))), Whole Relay, DeliverCall 1]"




end
