(* ===== verification/WebSocket.thy ===== *)
theory WebSocket
  imports Client Hub
begin

text \<open>
  The HTTP end of a connection, \<^verbatim>\<open>internal/ws/websocket.go\<close>: the upgrade handler and the
  adapter from a WebSocket connection to the hub's \<^verbatim>\<open>Conn\<close>. The WebSocket library is a
  parameter, the table of the methods the adapter calls; what the adapter relies on of them is
  the locale \<open>websocket_conn\<close>.
\<close>

section \<open>The library's connection\<close>

datatype message_type = MessageText | MessageBinary

record 'c websocket_lib =
  wl_SetReadLimit :: "int \<Rightarrow> 'c \<Rightarrow> 'c"
  wl_Read :: "'c \<Rightarrow> (message_type \<times> bytes) go_result \<times> 'c"
  wl_Write :: "message_type \<Rightarrow> bytes \<Rightarrow> 'c \<Rightarrow> go_error option \<times> 'c"
  wl_Ping :: "'c \<Rightarrow> go_error option \<times> 'c"
  wl_CloseNow :: "'c \<Rightarrow> go_error option \<times> 'c"

section \<open>The adapter\<close>

definition maxMessageBytes :: int where
  "maxMessageBytes = 2 ^ 20"

definition conn_Read :: "'c websocket_lib \<Rightarrow> 'c \<Rightarrow> bytes go_result \<times> 'c" where
  "conn_Read L c =
     (case wl_Read L c of
        (Inl err, c') \<Rightarrow> (Inl err, c')
      | (Inr (typ, data), c') \<Rightarrow> (Inr data, c'))"

definition conn_Write :: "'c websocket_lib \<Rightarrow> bytes \<Rightarrow> 'c \<Rightarrow> go_error option \<times> 'c" where
  "conn_Write L data c = wl_Write L MessageText data c"

definition conn_Ping :: "'c websocket_lib \<Rightarrow> 'c \<Rightarrow> go_error option \<times> 'c" where
  "conn_Ping L c = wl_Ping L c"

definition conn_Close :: "'c websocket_lib \<Rightarrow> 'c \<Rightarrow> go_error option \<times> 'c" where
  "conn_Close L c = wl_CloseNow L c"

text \<open>What the read pump gets out of the connection in at most \<open>n\<close> reads.\<close>

fun conn_frames :: "'c websocket_lib \<Rightarrow> nat \<Rightarrow> 'c \<Rightarrow> bytes option list" where
  "conn_frames L 0 c = []"
| "conn_frames L (Suc n) c =
     (case conn_Read L c of
        (Inl err, c') \<Rightarrow> [None]
      | (Inr data, c') \<Rightarrow> Some data # conn_frames L n c')"

text \<open>What the write pump puts into it, up to the first write that fails.\<close>

fun conn_writes :: "'c websocket_lib \<Rightarrow> bytes list \<Rightarrow> 'c \<Rightarrow> bool \<times> 'c" where
  "conn_writes L [] c = (True, c)"
| "conn_writes L (d # ds) c =
     (case conn_Write L d c of (Some err, c') \<Rightarrow> (False, c') | (None, c') \<Rightarrow> conn_writes L ds c')"

section \<open>The handler\<close>

text \<open>\<^verbatim>\<open>Query().Get\<close>: the first value of a key, the empty string without one.\<close>

definition query_get :: "(bytes \<times> bytes) list \<Rightarrow> bytes \<Rightarrow> bytes" where
  "query_get q k = (case map_of q k of None \<Rightarrow> [] | Some v \<Rightarrow> v)"

datatype http_outcome =
    HttpError nat bytes     \<comment> \<open>status and body\<close>
  | AcceptFailed go_error   \<comment> \<open>the library has answered\<close>
  | Upgraded ClientInfo     \<comment> \<open>the connection is in \<open>Serve\<close> with this identity\<close>

text \<open>
  The handler up to the point where \<^verbatim>\<open>Serve\<close> blocks on the registration: its outcome, the
  connection it hands over and the hub. \<open>accept\<close> is what the library's \<^verbatim>\<open>Accept\<close> returned.
\<close>

definition Handler ::
  "'c websocket_lib \<Rightarrow> bytes \<Rightarrow> (bytes \<times> bytes) list \<Rightarrow> 'c go_result \<Rightarrow> Hub \<Rightarrow> http_outcome \<times> 'c option \<times> Hub" where
  "Handler L boardID query accept h =
     (if boardID = [] then (HttpError 400 ''missing board id'', None, h)
      else case accept of
        Inl err \<Rightarrow> (AcceptFailed err, None, h)
      | Inr c \<Rightarrow>
          let c1 = wl_SetReadLimit L maxMessageBytes c;
              info = \<lparr>info_Name = query_get query ''name'', info_Color = query_get query ''color''\<rparr>
          in (Upgraded info, Some c1, serve_begin boardID h))"

text \<open>After \<^verbatim>\<open>Serve\<close> has returned the connection is closed, for the last time.\<close>

definition Handler_end :: "'c websocket_lib \<Rightarrow> 'c \<Rightarrow> 'c" where
  "Handler_end L c = snd (wl_CloseNow L c)"

section \<open>What the adapter relies on\<close>

text \<open>
  The documented behaviour of a connection: \<open>inbox\<close> is what the peer will still have sent before
  the connection ends, \<open>sent\<close> what was written so far. A message over the limit fails the read.
\<close>

locale websocket_conn =
  fixes L :: "'c websocket_lib"
    and inbox :: "'c \<Rightarrow> (message_type \<times> bytes) list"
    and limit :: "'c \<Rightarrow> int"
    and sent :: "'c \<Rightarrow> (message_type \<times> bytes) list"
  assumes set_limit: "0 \<le> n \<Longrightarrow> limit (wl_SetReadLimit L n c) = n"
      "inbox (wl_SetReadLimit L n c) = inbox c" "sent (wl_SetReadLimit L n c) = sent c"
    and read_message: "inbox c = (t, d) # ms \<Longrightarrow> int (length d) \<le> limit c \<Longrightarrow>
      \<exists>c'. wl_Read L c = (Inr (t, d), c') \<and> inbox c' = ms \<and> limit c' = limit c \<and> sent c' = sent c"
    and read_over: "inbox c = (t, d) # ms \<Longrightarrow> limit c < int (length d) \<Longrightarrow> \<exists>err c'. wl_Read L c = (Inl err, c')"
    and read_end: "inbox c = [] \<Longrightarrow> \<exists>err c'. wl_Read L c = (Inl err, c')"
    and write_message: "wl_Write L t d c = (None, c') \<Longrightarrow>
      sent c' = sent c @ [(t, d)] \<and> inbox c' = inbox c \<and> limit c' = limit c"
begin

lemma frames_within_limit:
  "length (inbox c) < n \<Longrightarrow>
   conn_frames L n c = map Some (takeWhile (\<lambda>d. int (length d) \<le> limit c) (map snd (inbox c))) @ [None]"
proof (induction "inbox c" arbitrary: n c)
  case Nil
  then obtain k where "n = Suc k" by (cases n) auto
  with read_end [OF Nil.hyps [symmetric]] Nil.hyps show ?case by (auto simp: conn_Read_def)
next
  case (Cons m ms)
  obtain t d where m: "m = (t, d)" by (cases m)
  obtain k where n: "n = Suc k" using Cons.prems by (cases n) auto
  have ib: "inbox c = (t, d) # ms" using Cons.hyps(2) m by simp
  show ?case
  proof (cases "int (length d) \<le> limit c")
    case True
    from read_message [OF ib this] obtain c' where
      "wl_Read L c = (Inr (t, d), c')" "inbox c' = ms" "limit c' = limit c" by blast
    with Cons.hyps(1) [of c' k] Cons.prems True n ib show ?thesis by (simp add: conn_Read_def)
  next
    case False
    with read_over [OF ib] n ib show ?thesis by (auto simp: conn_Read_def)
  qed
qed

lemma writes_are_text:
  "conn_writes L ds c = (True, c') \<Longrightarrow> sent c' = sent c @ map (Pair MessageText) ds"
proof (induction ds arbitrary: c)
  case (Cons d ds)
  from Cons.prems obtain c1 where c1: "wl_Write L MessageText d c = (None, c1)" "conn_writes L ds c1 = (True, c')"
    by (auto simp: conn_Write_def split: prod.splits option.splits)
  from Cons.IH [OF c1(2)] write_message [OF c1(1)] show ?case by simp
qed simp

end

lemma readPump_frames:
  "readPump B c (map Some ds @ None # fs) w = fold (readPump_step B c) ds w"
  by (induction ds arbitrary: w) simp_all

section \<open>A connection in memory\<close>

text \<open>The library over two queues, the instance that shows the requirements can be met.\<close>

record mem_conn =
  mc_in :: "(message_type \<times> bytes) list"
  mc_out :: "(message_type \<times> bytes) list"
  mc_limit :: int

definition mem_ws :: "mem_conn websocket_lib" where
  "mem_ws =
     \<lparr>wl_SetReadLimit = (\<lambda>n c. c\<lparr>mc_limit := n\<rparr>),
      wl_Read = (\<lambda>c. case mc_in c of
          [] \<Rightarrow> (Inl ''EOF'', c)
        | m # ms \<Rightarrow> if int (length (snd m)) \<le> mc_limit c then (Inr m, c\<lparr>mc_in := ms\<rparr>)
            else (Inl ''message too big'', c\<lparr>mc_in := []\<rparr>)),
      wl_Write = (\<lambda>t d c. (None, c\<lparr>mc_out := mc_out c @ [(t, d)]\<rparr>)),
      wl_Ping = (\<lambda>c. (None, c)),
      wl_CloseNow = (\<lambda>c. (None, c\<lparr>mc_in := []\<rparr>))\<rparr>"

interpretation memws: websocket_conn mem_ws mc_in mc_limit mc_out
  by unfold_locales (auto simp: mem_ws_def)

section \<open>Properties\<close>

lemma Handler_cases:
  "Handler L [] q a h = (HttpError 400 ''missing board id'', None, h)"
  "b \<noteq> [] \<Longrightarrow> Handler L b q (Inl err) h = (AcceptFailed err, None, h)"
  "Handler L b q a h = (r, Some c, h') \<Longrightarrow> b \<noteq> [] \<and> h' = serve_begin b h \<and>
     (\<exists>c0. a = Inr c0 \<and> c = wl_SetReadLimit L maxMessageBytes c0)"
  by (auto simp: Handler_def Let_def split: if_splits sum.splits)



end
