(* ===== verification/Server.thy ===== *)
theory Server
  imports PostgresStore HubLaws WebSocket
begin

text \<open>
  The process of \<^verbatim>\<open>cmd/server/main.go\<close>: configuration from the environment, choice of broker
  and store, the routes, and \<^verbatim>\<open>run\<close> with its deferred calls, as a function of everything the
  process cannot decide itself. \<^verbatim>\<open>run\<close> yields its error and the trace of what it opened, closed and
  waited for; the hub's options and its coordinator loop of \<^verbatim>\<open>internal/hub/hub.go\<close> are here too.
\<close>

section \<open>Configuration\<close>

record config =
  cfg_addr :: bytes
  cfg_redisAddr :: bytes
  cfg_databaseURL :: bytes
  cfg_shutdownTimeout :: int  \<comment> \<open>nanoseconds\<close>

definition getenv :: "(bytes, bytes) gomap \<Rightarrow> bytes \<Rightarrow> bytes \<Rightarrow> bytes" where
  "getenv env key fallback = (case gomap_get env key of Some v \<Rightarrow> v | None \<Rightarrow> fallback)"

definition loadConfig :: "(bytes, bytes) gomap \<Rightarrow> config" where
  "loadConfig env =
     \<lparr>cfg_addr = getenv env ''WB_ADDR'' '':8080'',
      cfg_redisAddr = getenv env ''WB_REDIS_ADDR'' [],
      cfg_databaseURL = getenv env ''WB_DATABASE_URL'' [],
      cfg_shutdownTimeout = 15 * 1000000000\<rparr>"

section \<open>Resources and traces\<close>

datatype resource =
    Signals                  \<comment> \<open>\<open>signal.NotifyContext\<close> and its \<open>stop\<close>\<close>
  | PingTimer                \<comment> \<open>the timeout context of the first ping\<close>
  | InProcessBroker
  | RedisClient bytes
  | PostgresPool
  | HubCoordinator           \<comment> \<open>\<open>hub.New\<close> and \<open>h.Close\<close>\<close>
  | ShutdownTimer

datatype effect = Open resource | Close resource | Listen bytes | HttpShutdown | HubShutdown

text \<open>A function's frame: what it has done and its deferred calls, the last deferred first.\<close>

record frame =
  fr_trace :: "effect list"
  fr_defers :: "effect list"

definition perform :: "effect list \<Rightarrow> frame \<Rightarrow> frame" where
  "perform es f = f\<lparr>fr_trace := fr_trace f @ es\<rparr>"

definition go_defer :: "effect \<Rightarrow> frame \<Rightarrow> frame" where
  "go_defer e f = f\<lparr>fr_defers := e # fr_defers f\<rparr>"

definition leave :: "'a \<Rightarrow> frame \<Rightarrow> 'a \<times> effect list" where
  "leave r f = (r, fr_trace f @ fr_defers f)"

definition enter :: frame where
  "enter = \<lparr>fr_trace = [], fr_defers = []\<rparr>"

lemmas frame_defs = perform_def go_defer_def leave_def enter_def

section \<open>Broker, store and hub\<close>

definition errorf :: "bytes \<Rightarrow> go_error \<Rightarrow> go_error" where
  "errorf what err = what @ '': '' @ err"

definition newBroker :: "config \<Rightarrow> go_error option \<Rightarrow> resource go_result \<times> effect list" where
  "newBroker cfg ping =
     (if cfg_redisAddr cfg = [] then leave (Inr InProcessBroker) (perform [Open InProcessBroker] enter)
      else let rdb = RedisClient (cfg_redisAddr cfg);
               f = go_defer (Close PingTimer) (perform [Open rdb, Open PingTimer] enter) in
        case ping of
          Some err \<Rightarrow> leave (Inl (errorf (''connect to redis at '' @ cfg_redisAddr cfg) err)) (perform [Close rdb] f)
        | None \<Rightarrow> leave (Inr rdb) f)"

text \<open>A pool that could not be given its schema was opened and closed again by \<^verbatim>\<open>NewPostgres\<close>.\<close>

definition newStore :: "'d Database \<Rightarrow> config \<Rightarrow> 'd option go_result \<times> effect list" where
  "newStore D cfg =
     (if cfg_databaseURL cfg = [] then leave (Inr None) enter
      else case NewPostgres D (cfg_databaseURL cfg) of
        (Inl err, pool) \<Rightarrow>
          leave (Inl (errorf ''connect to postgres'' err))
            (perform (if pool = None then [] else [Open PostgresPool, Close PostgresPool]) enter)
      | (Inr pg, pool) \<Rightarrow> leave (Inr (Some pg)) (perform [Open PostgresPool] enter))"

text \<open>The options of \<^verbatim>\<open>hub.New\<close>: a nil store disables persistence, a nil collector keeps the no-op one.\<close>

record ('s, 'm) hub_options =
  ho_store :: "'s option"
  ho_metrics :: "'m option"

definition WithStore :: "'s option \<Rightarrow> ('s, 'm) hub_options \<Rightarrow> ('s, 'm) hub_options" where
  "WithStore s opts = opts\<lparr>ho_store := s\<rparr>"

definition WithMetrics :: "'m option \<Rightarrow> ('s, 'm) hub_options \<Rightarrow> ('s, 'm) hub_options" where
  "WithMetrics m opts = (case m of None \<Rightarrow> opts | Some x \<Rightarrow> opts\<lparr>ho_metrics := Some x\<rparr>)"

definition hub_New :: "(('s, 'm) hub_options \<Rightarrow> ('s, 'm) hub_options) list \<Rightarrow> Hub" where
  "hub_New opts = New (ho_store (fold (\<lambda>opt acc. opt acc) opts \<lparr>ho_store = None, ho_metrics = None\<rparr>) \<noteq> None)"

text \<open>
  The coordinator: a tick finds the hub as it then is, and whatever else happened to the broker
  and the store in between; a closed \<^verbatim>\<open>stop\<close> ends the loop.
\<close>

datatype ('b, 's) loop_event = LoopTick Hub | LoopOther "'b \<times> 's \<Rightarrow> 'b \<times> 's" | LoopStop

fun snapshotLoop :: "'b Broker \<Rightarrow> 's Store \<Rightarrow> ('b, 's) loop_event list \<Rightarrow> 'b \<times> 's \<Rightarrow> 'b \<times> 's" where
  "snapshotLoop B S [] w = w"
| "snapshotLoop B S (LoopTick h # es) w = snapshotLoop B S es (snapshotAllBoards B S h w)"
| "snapshotLoop B S (LoopOther f # es) w = snapshotLoop B S es (f w)"
| "snapshotLoop B S (LoopStop # es) w = w"

lemma hub_New_options: "hub_New [WithStore st, WithMetrics m] = New (st \<noteq> None)"
  by (simp add: hub_New_def WithStore_def WithMetrics_def split: option.split)

lemma snapshotLoop_stop: "snapshotLoop B S (es @ LoopStop # fs) w = snapshotLoop B S es w"
  by (induction B S es w rule: snapshotLoop.induct) simp_all

section \<open>Routes\<close>

datatype route = Healthz | WsBoard bytes | MetricsPage | NotFound | MethodNotAllowed

text \<open>
  The patterns on a request's method and decoded path segments: GET patterns also match HEAD, a
  wildcard matches one segment and not the empty rest after a final slash.
\<close>

definition mux :: "bytes \<Rightarrow> bytes list \<Rightarrow> route" where
  "mux meth segs =
     (let found = (if segs = [''healthz''] then Healthz
                   else if segs = [''metrics''] then MetricsPage
                   else if length segs = 2 \<and> segs ! 0 = ''ws'' \<and> segs ! 1 \<noteq> [] then WsBoard (segs ! 1)
                   else NotFound)
      in if found \<noteq> NotFound \<and> meth \<notin> {''GET'', ''HEAD''} then MethodNotAllowed else found)"

definition healthz :: "nat \<times> bytes" where
  "healthz = (200, ''ok'' @ [char_of (10 :: nat)])"

text \<open>A request that reaches the WebSocket handler through the routes always names a board.\<close>

lemma mux_names_board: "mux meth segs = WsBoard b \<Longrightarrow> meth \<in> {''GET'', ''HEAD''} \<and> segs = [''ws'', b] \<and> b \<noteq> []"
  by (auto simp: mux_def Let_def length_Suc_conv numeral_2_eq_2 split: if_splits)

lemma routed_never_missing: "mux meth segs = WsBoard b \<Longrightarrow> fst (Handler L b q a h) \<noteq> HttpError 400 ''missing board id''"
  using mux_names_board [of meth segs b] by (auto simp: Handler_def Let_def split: sum.split)

section \<open>The process\<close>

definition http_ErrServerClosed :: go_error where
  "http_ErrServerClosed = ''http: Server closed''"

text \<open>The goroutine around \<^verbatim>\<open>ListenAndServe\<close>, which never returns nil, and what it puts on \<^verbatim>\<open>serveErr\<close>.\<close>

definition serve_error :: "go_error \<Rightarrow> go_error option" where
  "serve_error err = (if err = http_ErrServerClosed then None else Some err)"

text \<open>What \<^verbatim>\<open>h.Shutdown\<close> returned: \<open>None\<close> as long as it has not.\<close>

definition hub_Shutdown_result :: "Hub \<Rightarrow> go_error option option" where
  "hub_Shutdown_result h =
     (case h_shutdown h of
        Drained \<Rightarrow> Some None
      | Expired \<Rightarrow> Some (Some ''context deadline exceeded'')
      | _ \<Rightarrow> None)"

datatype wake_up = ServeReturned go_error | SignalReceived

record 'd surroundings =
  su_env :: "(bytes, bytes) gomap"
  su_ping :: "go_error option"
  su_db :: "'d Database"
  su_wake :: wake_up
  su_hub :: Hub              \<comment> \<open>the hub when \<open>h.Shutdown\<close> is looked at\<close>

text \<open>
  \<^verbatim>\<open>run\<close>; \<open>None\<close> while it is still blocked in \<^verbatim>\<open>h.Shutdown\<close>. An error of the HTTP server's own
  shutdown is logged and not looked at again.
\<close>

definition server_run :: "'d surroundings \<Rightarrow> (go_error option \<times> effect list) option" where
  "server_run su =
     (let cfg = loadConfig (su_env su);
          f0 = go_defer (Close Signals) (perform [Open Signals] enter) in
      case newBroker cfg (su_ping su) of
        (Inl err, es) \<Rightarrow> Some (leave (Some err) (perform es f0))
      | (Inr b, es) \<Rightarrow>
          let f1 = go_defer (Close b) (perform es f0) in
          case newStore (su_db su) cfg of
            (Inl err, es) \<Rightarrow> Some (leave (Some err) (perform es f1))
          | (Inr st, es) \<Rightarrow>
              let f2 = (if st \<noteq> None then go_defer (Close PostgresPool) else id) (perform es f1);
                  f3 = go_defer (Close HubCoordinator) (perform [Open HubCoordinator] f2);
                  f4 = perform [Listen (cfg_addr cfg)] f3 in
              case su_wake su of
                ServeReturned err \<Rightarrow> Some (leave (serve_error err) f4)
              | SignalReceived \<Rightarrow>
                  let f5 = go_defer (Close ShutdownTimer) (perform [Open ShutdownTimer] f4);
                      f6 = perform [HttpShutdown, HubShutdown] f5 in
                  map_option (\<lambda>err. leave err f6) (hub_Shutdown_result (su_hub su)))"

definition server_main :: "'d surroundings \<Rightarrow> (nat \<times> effect list) option" where
  "server_main su = map_option (\<lambda>(err, tr). (if err = None then 0 else 1, tr)) (server_run su)"

section \<open>The traces\<close>

definition broker_up :: "resource \<Rightarrow> effect list" where
  "broker_up b = (if b = InProcessBroker then [Open b] else [Open b, Open PingTimer, Close PingTimer])"

definition store_up :: "config \<Rightarrow> effect list" where
  "store_up cfg = (if cfg_databaseURL cfg = [] then [] else [Open PostgresPool])"

definition store_down :: "config \<Rightarrow> effect list" where
  "store_down cfg = (if cfg_databaseURL cfg = [] then [] else [Close PostgresPool])"

definition is_broker :: "resource \<Rightarrow> bool" where
  "is_broker b \<longleftrightarrow> (b = InProcessBroker \<or> (\<exists>a. b = RedisClient a))"

lemma newBroker_cases:
  obtains b where "newBroker cfg ping = (Inr b, broker_up b)" "is_broker b"
    "(b = InProcessBroker) = (cfg_redisAddr cfg = [])"
  | a err where "newBroker cfg ping =
      (Inl err, [Open (RedisClient a), Open PingTimer, Close (RedisClient a), Close PingTimer])"
  by (cases "cfg_redisAddr cfg = []"; cases ping)
    (auto simp: newBroker_def broker_up_def is_broker_def frame_defs Let_def intro: that)

lemma newStore_cases:
  obtains st where "newStore D cfg = (Inr st, store_up cfg)" "(st = None) = (cfg_databaseURL cfg = [])"
  | err es where "newStore D cfg = (Inl err, es)" "es \<in> {[], [Open PostgresPool, Close PostgresPool]}"
  by (cases "cfg_databaseURL cfg = []"; cases "NewPostgres D (cfg_databaseURL cfg)"; cases "fst (NewPostgres D (cfg_databaseURL cfg))")
    (auto simp: newStore_def store_up_def frame_defs split: if_splits intro: that)

lemma server_run_cases:
  fixes su :: "'d surroundings"
  defines "cfg \<equiv> loadConfig (su_env su)"
  assumes "server_run su = Some (err, tr)"
  obtains
    (no_redis) a where "tr = [Open Signals, Open (RedisClient a), Open PingTimer, Close (RedisClient a), Close PingTimer, Close Signals]"
      "err \<noteq> None"
  | (no_store) b es where "is_broker b" "es \<in> {[], [Open PostgresPool, Close PostgresPool]}"
      "tr = Open Signals # broker_up b @ es @ [Close b, Close Signals]" "err \<noteq> None"
  | (served) b e where "is_broker b" "su_wake su = ServeReturned e" "err = serve_error e"
      "tr = Open Signals # broker_up b @ store_up cfg @ [Open HubCoordinator, Listen (cfg_addr cfg)] @
        [Close HubCoordinator] @ store_down cfg @ [Close b, Close Signals]"
  | (signalled) b where "is_broker b" "su_wake su = SignalReceived" "hub_Shutdown_result (su_hub su) = Some err"
      "tr = Open Signals # broker_up b @ store_up cfg @ [Open HubCoordinator, Listen (cfg_addr cfg)] @
        [Open ShutdownTimer, HttpShutdown, HubShutdown] @
        [Close ShutdownTimer, Close HubCoordinator] @ store_down cfg @ [Close b, Close Signals]"
proof (rule newBroker_cases [of cfg "su_ping su"])
  fix a e assume "newBroker cfg (su_ping su) =
    (Inl e, [Open (RedisClient a), Open PingTimer, Close (RedisClient a), Close PingTimer])"
  with assms(2) no_redis show thesis by (simp add: server_run_def Let_def frame_defs flip: cfg_def) blast
next
  fix b assume b: "newBroker cfg (su_ping su) = (Inr b, broker_up b)" "is_broker b"
  show thesis
  proof (rule newStore_cases [of "su_db su" cfg])
    fix e es assume "newStore (su_db su) cfg = (Inl e, es)" "es \<in> {[], [Open PostgresPool, Close PostgresPool]}"
    with assms(2) b no_store [of b es] show thesis by (auto simp: server_run_def Let_def frame_defs simp flip: cfg_def)
  next
    fix st assume st: "newStore (su_db su) cfg = (Inr st, store_up cfg)" "(st = None) = (cfg_databaseURL cfg = [])"
    show thesis
    proof (cases "su_wake su")
      case (ServeReturned e)
      with assms(2) b st served show thesis
        by (auto simp: server_run_def Let_def frame_defs store_down_def simp flip: cfg_def split: if_splits)
    next
      case SignalReceived
      with assms(2) b st signalled show thesis
        by (auto simp: server_run_def Let_def frame_defs store_down_def simp flip: cfg_def split: if_splits)
    qed
  qed
qed

text \<open>No occurrence of \<open>x\<close> comes after one of \<open>y\<close>.\<close>

fun never_after :: "'a \<Rightarrow> 'a \<Rightarrow> 'a list \<Rightarrow> bool" where
  "never_after x y [] = True"
| "never_after x y (e # es) = ((e = y \<longrightarrow> x \<notin> set es) \<and> never_after x y es)"

lemma never_after_iff: "never_after x y tr \<longleftrightarrow> (\<forall>p s. tr = p @ y # s \<longrightarrow> x \<notin> set s)"
proof (induction tr)
  case (Cons e es)
  show ?case unfolding never_after.simps Cons.IH
    by (metis append_Cons append_Nil list.inject neq_Nil_conv)
qed simp

lemmas trace_defs = broker_up_def store_up_def store_down_def is_broker_def

section \<open>Properties\<close>

text \<open>(C24)
  Whatever happens around it, a run of the server closes every resource it opened exactly once
  and none before it opened it, and takes the process down in the right order: the hub is drained
  and its coordinator stopped before the database pool is closed, the pool before the broker and
  the broker before the signal handler. It listens only with the broker up, drains only on a
  signal, and then stops the HTTP server first; when the HTTP server fails on its own the
  sessions are not drained and no final checkpoint is awaited.
\<close>

theorem server_resources:
  assumes "server_run su = Some (err, tr)"
  shows "(\<forall>r. count_list tr (Open r) = count_list tr (Close r) \<and> count_list tr (Open r) \<le> 1 \<and> never_after (Open r) (Close r) tr) \<and>
    never_after HubShutdown (Close HubCoordinator) tr \<and>
    never_after (Close HubCoordinator) (Close PostgresPool) tr \<and>
    (\<forall>b. is_broker b \<longrightarrow> never_after (Close PostgresPool) (Close b) tr \<and> never_after (Close b) (Close Signals) tr \<and>
      never_after (Close HubCoordinator) (Close b) tr) \<and>
    never_after HttpShutdown HubShutdown tr \<and>
    (HubShutdown \<in> set tr \<longrightarrow> su_wake su = SignalReceived) \<and>
    (\<forall>e a. su_wake su = ServeReturned e \<and> Listen a \<in> set tr \<longrightarrow> HubShutdown \<notin> set tr \<and> err = serve_error e)"
  using assms by (cases rule: server_run_cases) (auto simp: trace_defs)

theorem server_resources_witness:
  "count_list [Open Signals, Open InProcessBroker, Open HubCoordinator, Listen '':8080'', Close HubCoordinator,
      Close InProcessBroker, Close Signals] (Close InProcessBroker) = 1"
proof -
  let ?su = "\<lparr>su_env = [], su_ping = None, su_db = pgsim_db, su_wake = ServeReturned ''address in use'', su_hub = New False\<rparr>"
  have r: "server_run ?su = Some (Some ''address in use'',
      [Open Signals, Open InProcessBroker, Open HubCoordinator, Listen '':8080'', Close HubCoordinator,
       Close InProcessBroker, Close Signals])"
    by (simp add: server_run_def Let_def newBroker_def newStore_def loadConfig_def getenv_def frame_defs
        serve_error_def http_ErrServerClosed_def)
  from server_resources [OF r] show ?thesis by simp
qed



end
