(* ===== verification/LoadTest.thy ===== *)
theory LoadTest
  imports Protocol Float64 "HOL-Library.Multiset"
begin

text \<open>
  The measuring client of \<^verbatim>\<open>cmd/loadtest/main.go\<close>: which board a client joins, what it sends,
  how it recognises its own operations, what its two loops count, and the percentiles of the
  report. Times are integers, in nanoseconds; sockets, timers and printing are inputs and outputs.
\<close>

section \<open>Configuration and counters\<close>

record lt_config =
  lc_url :: bytes
  lc_clients :: int
  lc_boards :: int
  lc_hold :: bool       \<comment> \<open>rate is zero: hold the connection only\<close>
  lc_dialConc :: int    \<comment> \<open>how many dials may be under way at a time\<close>

text \<open>The flags' defaults.\<close>

definition lt_defaults :: lt_config where
  "lt_defaults = \<lparr>lc_url = ''ws://localhost:8080'', lc_clients = 1000, lc_boards = 20, lc_hold = False, lc_dialConc = 200\<rparr>"

record stats =
  st_connected :: int
  st_dialErrors :: int
  st_sent :: int
  st_received :: int
  st_latencies :: "int list"

definition new_stats :: stats where
  "new_stats = \<lparr>st_connected = 0, st_dialErrors = 0, st_sent = 0, st_received = 0, st_latencies = []\<rparr>"

definition addLatencies :: "int list \<Rightarrow> stats \<Rightarrow> stats" where
  "addLatencies ls s = s\<lparr>st_latencies := st_latencies s @ ls\<rparr>"

section \<open>Dialing\<close>

text \<open>Where client \<open>idx\<close> connects and what it draws; \<open>None\<close> is the panic of an integer division by zero.\<close>

definition dial_target :: "lt_config \<Rightarrow> int \<Rightarrow> (bytes \<times> bytes) option" where
  "dial_target cfg idx =
     (if lc_boards cfg = 0 then None
      else Some (lc_url cfg @ ''/ws/board'' @ format_int (idx mod \<bar>lc_boards cfg\<bar>) @ ''?name=c'' @ format_int idx,
                 CHR ''c'' # format_int idx))"

section \<open>Operations of a client\<close>

definition format_int64 :: "int \<Rightarrow> bytes" where
  "format_int64 n = (if n < 0 then CHR ''-'' # format_int (- n) else format_int n)"

definition update_shape :: "int \<Rightarrow> int \<Rightarrow> int \<Rightarrow> bytes" where
  \<comment> \<open>\<open>json.Marshal\<close> of a map sorts its keys\<close>
  "update_shape ts x y =
     json_object [(''ts'', format_int64 ts), (''x'', format_int x), (''y'', format_int y)]"

definition sendUpdate :: "bytes \<Rightarrow> int \<Rightarrow> int \<Rightarrow> int \<Rightarrow> bytes go_result" where
  "sendUpdate shapeID ts x y =
     Marshal TypeShapeUpdate 0 (marshal_ShapeOp \<lparr>op_ID = shapeID, op_Shape = Some (update_shape ts x y)\<rparr>)"

text \<open>\<^verbatim>\<open>strconv.ParseInt\<close> on the text of a JSON number, and the field of the anonymous struct.\<close>

definition parse_int64 :: "bytes \<Rightarrow> int option" where
  "parse_int64 s =
     (let neg = (s \<noteq> [] \<and> hd s = CHR ''-''); ds = (if neg then tl s else s); n = digits_val ds in
      if ds = [] \<or> \<not> list_all is_digit ds then None
      else if neg then (if n \<le> 2 ^ 63 then Some (- n) else None)
      else if n < 2 ^ 63 then Some n else None)"

definition set_body :: "int setter" where
  "set_body k v ts =
     (if key_matches ''ts'' k then
        (if v = json_null then (None, ts)
         else case parse_int64 v of Some n \<Rightarrow> (None, n) | None \<Rightarrow> (Some ''cannot unmarshal into int64'', ts))
      else (None, ts))"

definition ownOpTimestamp :: "bytes \<Rightarrow> bytes \<Rightarrow> int option" where
  "ownOpTimestamp shapeID data =
     (case unmarshal_Envelope data of (err, env) \<Rightarrow>
        if err \<noteq> None \<or> env_Type env \<noteq> TypeShapeUpdate then None
        else (case DecodePayload env set_ShapeOp zero_ShapeOp of (err, op) \<Rightarrow>
          if err \<noteq> None \<or> op_ID op \<noteq> shapeID then None
          else (case unmarshal set_body (slice_bytes (op_Shape op)) 0 of
            (Some err, ts) \<Rightarrow> None
          | (None, ts) \<Rightarrow> Some ts)))"

text \<open>What a goroutine does to the shared counters, one atomic operation at a time.\<close>

datatype stat_event = Dialed bool | Sent | Received | Finished "int list"

definition stat_step :: "stat_event \<Rightarrow> stats \<Rightarrow> stats" where
  "stat_step e s =
     (case e of
        Dialed ok \<Rightarrow> (if ok then s\<lparr>st_connected := st_connected s + 1\<rparr> else s\<lparr>st_dialErrors := st_dialErrors s + 1\<rparr>)
      | Sent \<Rightarrow> s\<lparr>st_sent := st_sent s + 1\<rparr>
      | Received \<Rightarrow> s\<lparr>st_received := st_received s + 1\<rparr>
      | Finished ls \<Rightarrow> addLatencies ls s)"

text \<open>
  The reader: frames with the time they arrive, up to the first failing read. It counts all of them
  and keeps the age of its own.
\<close>

fun reader_loop :: "bytes \<Rightarrow> (int \<times> bytes option) list \<Rightarrow> int list \<Rightarrow> stat_event list \<times> int list" where
  "reader_loop shapeID [] ls = ([], ls)"
| "reader_loop shapeID ((now, None) # fs) ls = ([], ls)"
| "reader_loop shapeID ((now, Some data) # fs) ls =
     (case reader_loop shapeID fs (case ownOpTimestamp shapeID data of Some ts \<Rightarrow> ls @ [now - ts] | None \<Rightarrow> ls) of
        (es, ls') \<Rightarrow> (Received # es, ls'))"

text \<open>The sender: a tick sends an update, which may fail; a cancelled context ends the loop.\<close>

datatype send_event = SendTick bool | SendDone

fun send_loop_lt :: "send_event list \<Rightarrow> stat_event list" where
  "send_loop_lt [] = []"
| "send_loop_lt (SendDone # es) = []"
| "send_loop_lt (SendTick ok # es) = (if ok then Sent # send_loop_lt es else [])"

text \<open>Two goroutines under a schedule; what is left of either runs to its end.\<close>

fun interleave :: "bool list \<Rightarrow> 'a list \<Rightarrow> 'a list \<Rightarrow> 'a list" where
  "interleave (True # bs) (x # xs) ys = x # interleave bs xs ys"
| "interleave (False # bs) xs (y # ys) = y # interleave bs xs ys"
| "interleave _ xs ys = xs @ ys"

record lt_client =
  cl_dial :: bool
  cl_ticks :: "send_event list"
  cl_frames :: "(int \<times> bytes option) list"
  cl_schedule :: "bool list"

text \<open>The goroutine of client \<open>idx\<close>, from its dial to the delivery of its samples.\<close>

definition client_run :: "lt_config \<Rightarrow> bytes \<Rightarrow> lt_client \<Rightarrow> stat_event list" where
  "client_run cfg shapeID c =
     (case reader_loop shapeID (cl_frames c) [] of
        (rs, ls) \<Rightarrow> interleave (cl_schedule c) (if lc_hold cfg then [] else send_loop_lt (cl_ticks c)) rs @ [Finished ls])"

definition client_goroutine :: "lt_config \<Rightarrow> nat \<Rightarrow> lt_client \<Rightarrow> stat_event list" where
  "client_goroutine cfg idx c =
     (if cl_dial c then Dialed True # client_run cfg (CHR ''c'' # format_int (int idx)) c else [Dialed False])"

text \<open>
  The driver, over what all goroutines do before every client is ready, during the window and
  until the last of them returns: the traffic counters are reset at the start of the window.
\<close>

definition lt_run :: "stat_event list \<Rightarrow> stat_event list \<Rightarrow> stat_event list \<Rightarrow> int \<times> int \<times> int \<times> int list" where
  "lt_run ramp window drain =
     (let s1 = fold stat_step ramp new_stats;
          connected = st_connected s1;
          s2 = fold stat_step window (s1\<lparr>st_sent := 0, st_received := 0\<rparr>);
          s3 = fold stat_step drain s2
      in (connected, st_sent s2, st_received s2, st_latencies s3))"

section \<open>The report\<close>

text \<open>
  \<^verbatim>\<open>int(p * float64(n))\<close> for a percentile \<open>p = m / 2 ^ 53\<close>: the product is rounded to a double
  and then truncated. The three percentiles are the doubles next to 0.50, 0.95 and 0.99.
\<close>

definition pct_index :: "int \<Rightarrow> int \<Rightarrow> int" where
  "pct_index m n = f64_round (m * n) div 2 ^ 53"

definition pct :: "int list \<Rightarrow> int \<Rightarrow> int" where
  "pct xs m =
     (if xs = [] then 0
      else let i = pct_index m (int (length xs));
               j = (if i \<ge> int (length xs) then int (length xs) - 1 else i)
           in xs ! nat j)"

definition p50 :: int where "p50 = 4503599627370496"
definition p95 :: int where "p95 = 8556839292003942"
definition p99 :: int where "p99 = 8917127262193582"

definition latency_report :: "int list \<Rightarrow> (int \<times> int \<times> int \<times> int) option" where
  "latency_report ls =
     (if ls = [] then None
      else let xs = sort ls in Some (pct xs p50, pct xs p95, pct xs p99, last xs))"

definition clients_per_board :: "lt_config \<Rightarrow> int \<Rightarrow> int" where
  "clients_per_board cfg connected = connected div max (lc_boards cfg) 1"

text \<open>\<^verbatim>\<open>Duration.Round\<close>: to the nearest multiple, halves away from zero, saturating at 64 bits.\<close>

definition dur_round :: "int \<Rightarrow> int \<Rightarrow> int" where
  "dur_round m d =
     (if m \<le> 0 then d
      else if d < 0 then
        (let r = (- d) mod m in if 2 * r < m then d + r else max (d - m + r) (- (2 ^ 63)))
      else
        (let r = d mod m in if 2 * r < m then d - r else min (d + m - r) (2 ^ 63 - 1)))"

text \<open>
  The figures of the report, line by line; a rate per second is given by its count and the window it
  is divided by, and the text around the figures is left out.
\<close>

datatype report_line =
    TargetURL bytes
  | ClientsConnected int int
  | Boards int int
  | ConnectTime int
  | Window int
  | MessagesSent int int
  | MessagesReceived int int
  | RoundTrip int int int int nat

definition report :: "lt_config \<Rightarrow> int \<Rightarrow> int \<Rightarrow> int \<Rightarrow> int \<Rightarrow> int \<Rightarrow> int list \<Rightarrow> report_line list" where
  "report cfg connected connectDur window sent received latencies =
     [TargetURL (lc_url cfg), ClientsConnected connected (lc_clients cfg),
      Boards (lc_boards cfg) (clients_per_board cfg connected),
      ConnectTime (dur_round 1000000 connectDur), Window (dur_round 1000000 window),
      MessagesSent sent window, MessagesReceived received window] @
     (case latency_report latencies of
        None \<Rightarrow> []
      | Some (a, b, c, m) \<Rightarrow>
          [RoundTrip (dur_round 1000 a) (dur_round 1000 b) (dur_round 1000 c) (dur_round 1000 m) (length latencies)])"

section \<open>Laws\<close>

lemma pct_index_bounds:
  assumes "0 \<le> m" "m < 2 ^ 53" "0 \<le> n"
  shows "0 \<le> pct_index m n"
  using f64_round_mono [of 0 "m * n"] assms by (simp add: pct_index_def f64_round_exact)

lemma pct_index_mono: "0 \<le> n \<Longrightarrow> m \<le> m' \<Longrightarrow> pct_index m n \<le> pct_index m' n"
  by (simp add: pct_index_def zdiv_mono1 f64_round_mono mult_right_mono)

lemma pct_nth:
  assumes "xs \<noteq> []" "0 \<le> m" "m < 2 ^ 53"
  obtains i where "i < length xs" "pct xs m = xs ! i" "i = nat (min (pct_index m (int (length xs))) (int (length xs) - 1))"
proof -
  let ?i = "nat (min (pct_index m (int (length xs))) (int (length xs) - 1))"
  have "0 < int (length xs)" using assms(1) by simp
  then have "int ?i < int (length xs)" by linarith
  then have "?i < length xs" by (simp only: of_nat_less_iff)
  moreover have "pct xs m = xs ! ?i" using assms(1) by (simp add: pct_def Let_def min_def)
  ultimately show thesis using that by blast
qed

lemma pct_mono:
  assumes "sorted xs" "0 \<le> m" "m \<le> m'" "m' < 2 ^ 53"
  shows "pct xs m \<le> pct xs m'"
proof (cases "xs = []")
  case False
  obtain i where i: "i < length xs" "pct xs m = xs ! i" "i = nat (min (pct_index m (int (length xs))) (int (length xs) - 1))"
    using pct_nth [OF False assms(2)] assms(3,4) by auto
  obtain j where j: "j < length xs" "pct xs m' = xs ! j" "j = nat (min (pct_index m' (int (length xs))) (int (length xs) - 1))"
    using pct_nth [OF False _ assms(4)] assms(2,3) by auto
  have "i \<le> j" using pct_index_mono [of "int (length xs)" m m'] assms(3) by (simp add: i(3) j(3) nat_mono min.coboundedI1 le_nat_iff)
  then show ?thesis using i j assms(1) by (simp add: sorted_nth_mono)
qed (simp add: pct_def)

lemma sorted_le_last: "sorted xs \<Longrightarrow> x \<in> set xs \<Longrightarrow> x \<le> last xs" for x :: int
  by (induction xs) auto

text \<open>Clients are dealt out to the boards in turn; with no boards to deal them to, dialing panics.\<close>

lemma dial_target_spread:
  "0 < lc_boards cfg \<Longrightarrow> \<exists>k. 0 \<le> k \<and> k < lc_boards cfg \<and> k = idx mod lc_boards cfg \<and>
     dial_target cfg idx = Some (lc_url cfg @ ''/ws/board'' @ format_int k @ ''?name=c'' @ format_int idx, CHR ''c'' # format_int idx)"
  by (simp add: dial_target_def)

lemma defaults_dial: "dial_target lt_defaults idx \<noteq> None"
  by (simp add: dial_target_def lt_defaults_def)

lemma dial_target_panics: "lc_boards cfg = 0 \<Longrightarrow> dial_target cfg idx = None"
  by (simp add: dial_target_def)

lemma clients_per_board_total: "0 \<le> n \<Longrightarrow> 0 \<le> clients_per_board cfg n \<and> clients_per_board cfg n \<le> n"
  unfolding clients_per_board_def using zdiv_mono2 [of n 1 "max (lc_boards cfg) 1"] by (auto simp: pos_imp_zdiv_nonneg_iff)

section \<open>Counting over interleavings\<close>

fun samples :: "stat_event \<Rightarrow> int list" where
  "samples (Finished ls) = ls"
| "samples _ = []"

definition tally :: "stat_event \<Rightarrow> stat_event list \<Rightarrow> int" where
  "tally e es = int (count_list es e)"

lemma fold_stats:
  "st_connected (fold stat_step es s) = st_connected s + tally (Dialed True) es"
  "st_dialErrors (fold stat_step es s) = st_dialErrors s + tally (Dialed False) es"
  "st_sent (fold stat_step es s) = st_sent s + tally Sent es"
  "st_received (fold stat_step es s) = st_received s + tally Received es"
  "st_latencies (fold stat_step es s) = st_latencies s @ concat (map samples es)"
  by (induction es arbitrary: s) (simp_all add: tally_def stat_step_def addLatencies_def split: stat_event.split)

text \<open>The events of one goroutine among those of all, in order.\<close>

definition events_of :: "nat \<Rightarrow> (nat \<times> stat_event) list \<Rightarrow> stat_event list" where
  "events_of i tes = map snd (filter (\<lambda>te. fst te = i) tes)"

lemma sum_events_of:
  assumes "fst ` set tes \<subseteq> {..<n}"
  shows "(\<Sum>i<n. sum_list (map g (events_of i tes))) = sum_list (map g (map snd tes))"
  using assms
proof (induction tes)
  case (Cons te tes)
  have "(\<Sum>i<n. sum_list (map g (events_of i (te # tes)))) =
      (\<Sum>i<n. (if i = fst te then g (snd te) else 0) + sum_list (map g (events_of i tes)))"
    by (rule sum.cong) (auto simp: events_of_def)
  also have "\<dots> = g (snd te) + (\<Sum>i<n. sum_list (map g (events_of i tes)))"
    using Cons.prems by (simp add: sum.distrib)
  finally show ?case using Cons by simp
qed (simp add: events_of_def)

lemma tally_sum: "tally e es = sum_list (map (\<lambda>x. if x = e then 1 else 0) es)"
  by (induction es) (simp_all add: tally_def)

lemma samples_sum: "mset (concat (map samples es)) = sum_list (map (\<lambda>x. mset (samples x)) es)"
  by (induction es) simp_all

text \<open>The ages of a client's own operations among the frames it reads.\<close>

definition own_ages :: "bytes \<Rightarrow> (int \<times> bytes option) list \<Rightarrow> int list" where
  "own_ages shapeID fs =
     List.map_filter (\<lambda>(now, data). map_option (\<lambda>ts. now - ts) (ownOpTimestamp shapeID (the data)))
       (takeWhile (\<lambda>f. snd f \<noteq> None) fs)"

lemma reader_loop_eq:
  "reader_loop shapeID fs ls =
     (replicate (length (takeWhile (\<lambda>f. snd f \<noteq> None) fs)) Received, ls @ own_ages shapeID fs)"
  by (induction shapeID fs ls rule: reader_loop.induct)
    (auto simp: own_ages_def map_filter_simps split: option.split)

lemma set_interleave [simp]: "set (interleave bs xs ys) = set xs \<union> set ys"
  by (induction bs xs ys rule: interleave.induct) auto

lemma send_loop_events: "set (send_loop_lt es) \<subseteq> {Sent}"
  by (induction es rule: send_loop_lt.induct) auto

lemma client_run_events:
  obtains es where "client_run cfg shapeID c = es @ [Finished (own_ages shapeID (cl_frames c))]" "set es \<subseteq> {Sent, Received}"
proof (rule that)
  let ?ss = "if lc_hold cfg then [] else send_loop_lt (cl_ticks c)"
  let ?rs = "replicate (length (takeWhile (\<lambda>f. snd f \<noteq> None) (cl_frames c))) Received"
  show "client_run cfg shapeID c = interleave (cl_schedule c) ?ss ?rs @ [Finished (own_ages shapeID (cl_frames c))]"
    by (simp add: client_run_def reader_loop_eq)
  show "set (interleave (cl_schedule c) ?ss ?rs) \<subseteq> {Sent, Received}"
    using send_loop_events [of "cl_ticks c"] by auto
qed

lemma traffic_only:
  assumes "set es \<subseteq> {Sent, Received}"
  shows "tally (Dialed ok) es = 0" "concat (map samples es) = []"
  using assms by (induction es) (auto simp: tally_def)

lemma goroutine_totals:
  "tally (Dialed ok) (client_goroutine cfg i c) = (if cl_dial c = ok then 1 else 0)"
  "concat (map samples (client_goroutine cfg i c)) =
     (if cl_dial c then own_ages (CHR ''c'' # format_int (int i)) (cl_frames c) else [])"
proof -
  obtain es where es: "client_run cfg (CHR ''c'' # format_int (int i)) c =
      es @ [Finished (own_ages (CHR ''c'' # format_int (int i)) (cl_frames c))]" "set es \<subseteq> {Sent, Received}"
    by (rule client_run_events)
  note t = traffic_only [OF es(2)]
  show "tally (Dialed ok) (client_goroutine cfg i c) = (if cl_dial c = ok then 1 else 0)"
    using t(1) by (simp add: client_goroutine_def es(1) tally_def)
  show "concat (map samples (client_goroutine cfg i c)) =
     (if cl_dial c then own_ages (CHR ''c'' # format_int (int i)) (cl_frames c) else [])"
    using t(2) by (simp add: client_goroutine_def es(1))
qed

lemma tally_append [simp]: "tally e (xs @ ys) = tally e xs + tally e ys"
  by (simp add: tally_def)

lemma canonical_format: "0 \<le> n \<Longrightarrow> n < 2 ^ 64 \<Longrightarrow> canonical (format_int n)"
  using canonical_uint [of "of_int n"] by (simp add: format_int_uint)

lemma update_shape_canonical:
  assumes "0 \<le> ts" "ts < 2 ^ 63" "0 \<le> x" "x < 1000" "0 \<le> y" "y < 1000"
  shows "canonical (update_shape ts x y)" "unmarshal set_body (update_shape ts x y) 0 = (None, ts)"
proof -
  let ?ms = "[(''ts'', format_int ts), (''x'', format_int x), (''y'', format_int y)]"
  have eq: "update_shape ts x y = json_object ?ms" using assms(1) by (simp add: update_shape_def format_int64_def)
  have c: "list_all (canonical \<circ> snd) ?ms" using assms by (simp add: canonical_format)
  then show "canonical (update_shape ts x y)" unfolding eq by (rule canonical_object)
  note d = format_int_digits [OF assms(1)]
  have "hd (format_int ts) \<noteq> CHR ''-''" "format_int ts \<noteq> json_null"
    using d by (cases "format_int ts"; auto simp: is_digit_def json_null_def)+
  then have "parse_int64 (format_int ts) = Some ts" using d assms(2) by (simp add: parse_int64_def Let_def)
  with \<open>format_int ts \<noteq> json_null\<close> show "unmarshal set_body (update_shape ts x y) 0 = (None, ts)"
    unfolding eq using c by (simp add: unmarshal_object set_body_def key_eval)
qed

text \<open>An operation whose shape is compact JSON survives the wire unchanged.\<close>

lemma compact_op_roundtrip:
  assumes "canonical sh"
  obtains data env where "Marshal t seq (marshal_ShapeOp \<lparr>op_ID = i, op_Shape = Some sh\<rparr>) = Inr data"
    "unmarshal_Envelope data = (None, env)" "env_Type env = t" "env_Seq env = seq"
    "DecodePayload env set_ShapeOp zero_ShapeOp = (None, \<lparr>op_ID = i, op_Shape = Some sh\<rparr>)"
proof -
  have "op_Shape \<lparr>op_ID = i, op_Shape = Some sh\<rparr> = None \<or> (\<exists>s. op_Shape \<lparr>op_ID = i, op_Shape = Some sh\<rparr> = Some s \<and> json_valid s)"
    using canonical_json_valid [OF assms] by simp
  then obtain ms where ms: "marshal_ShapeOp \<lparr>op_ID = i, op_Shape = Some sh\<rparr> = Inr (json_object ms)" "list_all (canonical \<circ> snd) ms"
    "set_fields set_ShapeOp ms (None, zero_ShapeOp) = (None, \<lparr>op_ID = i, op_Shape = Some sh\<rparr>)"
    using compact_canonical [OF assms] by (elim marshal_ShapeOp_cases) auto
  obtain data where "Marshal t seq (Inr (json_object ms)) = Inr data"
    "unmarshal_Envelope data = (None, \<lparr>env_Type = t, env_Seq = seq, env_Payload = Some (json_object ms)\<rparr>)"
    using envelope_roundtrip [OF canonical_object [OF ms(2)]] by metis
  with ms that show thesis by (auto simp: decode_payload_object)
qed

section \<open>Properties\<close>

text \<open>(C31)
  A load-test client times exactly its own operations: what it sends decodes to a shape
  operation, and the message the server relays for it, whatever its sequence number, yields the
  time stamp it was sent with to this client and nothing to a client with another shape.
\<close>

theorem loadtest_times_own_ops:
  assumes "utf8_text i" "0 \<le> ts" "ts < 2 ^ 63" "0 \<le> x" "x < 1000" "0 \<le> y" "y < 1000"
  shows "\<exists>msg env op. sendUpdate i ts x y = Inr msg \<and> unmarshal_Envelope msg = (None, env) \<and>
    env_Type env = TypeShapeUpdate \<and> DecodePayload env set_ShapeOp zero_ShapeOp = (None, op) \<and> op_ID op = i \<and>
    (\<forall>seq. \<exists>relay. Marshal (env_Type env) seq (marshal_ShapeOp op) = Inr relay \<and>
      (\<forall>other. ownOpTimestamp other relay = (if other = i then Some ts else None)))"
proof -
  note c = update_shape_canonical [OF assms(2-7)]
  let ?op = "\<lparr>op_ID = i, op_Shape = Some (update_shape ts x y)\<rparr>"
  have relay: "\<exists>relay. Marshal TypeShapeUpdate seq (marshal_ShapeOp ?op) = Inr relay \<and>
      (\<forall>other. ownOpTimestamp other relay = (if other = i then Some ts else None))" for seq
  proof (rule compact_op_roundtrip [OF c(1), of TypeShapeUpdate seq i])
    fix data env
    assume "Marshal TypeShapeUpdate seq (marshal_ShapeOp ?op) = Inr data" "unmarshal_Envelope data = (None, env)"
      "env_Type env = TypeShapeUpdate" "DecodePayload env set_ShapeOp zero_ShapeOp = (None, ?op)"
    with c(2) show ?thesis by (auto simp: ownOpTimestamp_def)
  qed
  obtain msg env where "sendUpdate i ts x y = Inr msg" "unmarshal_Envelope msg = (None, env)" "env_Type env = TypeShapeUpdate"
    "DecodePayload env set_ShapeOp zero_ShapeOp = (None, ?op)"
    using compact_op_roundtrip [OF c(1), of TypeShapeUpdate 0 i] unfolding sendUpdate_def by metis
  with relay show ?thesis by auto
qed

theorem loadtest_times_own_ops_witness:
  "\<exists>msg. sendUpdate ''c7'' 1700000000000000000 3 999 = Inr msg \<and> fst (unmarshal_Envelope msg) = None"
proof -
  have "utf8_text ''c7''" by code_simp
  then show ?thesis using loadtest_times_own_ops [of "''c7''" 1700000000000000000 3 999] by auto
qed

text \<open>
  What a run of the load test measures does not depend on how its goroutines interleave: when
  every dial is over before the window opens, the number of clients it reports as connected is
  the number of dials that succeeded, the counts of sent and received messages are those of the
  window, and the samples are, as a multiset, the ages of the operations each connected client
  recognised as its own.
\<close>

lemma loadtest_interleaving:
  assumes "fst ` set (ramp @ window @ drain) \<subseteq> {..<length cs}"
    "\<And>i. i < length cs \<Longrightarrow> events_of i (ramp @ window @ drain) = client_goroutine cfg i (cs ! i)"
    "\<And>ok. Dialed ok \<notin> snd ` set (window @ drain)"
    "lt_run (map snd ramp) (map snd window) (map snd drain) = (connected, sent, received, ls)"
  shows "connected = (\<Sum>i<length cs. if cl_dial (cs ! i) then 1 else 0) \<and>
    sent = tally Sent (map snd window) \<and> received = tally Received (map snd window) \<and>
    mset ls = (\<Sum>i<length cs. if cl_dial (cs ! i)
      then mset (own_ages (CHR ''c'' # format_int (int i)) (cl_frames (cs ! i))) else {#})"
proof -
  let ?all = "ramp @ window @ drain"
  have run: "connected = tally (Dialed True) (map snd ramp)" "sent = tally Sent (map snd window)"
    "received = tally Received (map snd window)" "ls = concat (map samples (map snd ?all))"
    using assms(4) by (simp_all add: lt_run_def Let_def fold_stats new_stats_def del: map_map)
  have "tally (Dialed True) (map snd (window @ drain)) = 0"
    using assms(3) [of True] by (simp add: tally_def del: map_append)
  then have "connected = tally (Dialed True) (map snd ?all)" by (simp add: run(1))
  also have "\<dots> = (\<Sum>i<length cs. tally (Dialed True) (events_of i ?all))"
    unfolding tally_sum by (rule sum_events_of [OF assms(1), symmetric])
  also have "\<dots> = (\<Sum>i<length cs. if cl_dial (cs ! i) then 1 else 0)"
    by (rule sum.cong) (simp_all add: assms(2) goroutine_totals(1))
  finally have c: "connected = (\<Sum>i<length cs. if cl_dial (cs ! i) then 1 else 0)" .
  have "mset ls = (\<Sum>i<length cs. mset (concat (map samples (events_of i ?all))))"
    unfolding run(4) samples_sum by (rule sum_events_of [OF assms(1), symmetric])
  also have "\<dots> = (\<Sum>i<length cs. if cl_dial (cs ! i)
      then mset (own_ages (CHR ''c'' # format_int (int i)) (cl_frames (cs ! i))) else {#})"
    by (rule sum.cong) (simp_all add: assms(2) goroutine_totals(2))
  finally show ?thesis using c run(2,3) by blast
qed

text \<open>
  The latency report never indexes out of range and its figures are in order: each percentile
  is one of the samples, \<open>p50 \<le> p95 \<le> p99 \<le> max\<close>, and the maximum is the greatest sample; the
  float64 rounding of the index is part of the model.
\<close>

lemma latency_report_ordered:
  assumes "latency_report ls = Some (a, b, c, m)"
  shows "a \<in> set ls \<and> b \<in> set ls \<and> c \<in> set ls \<and> m \<in> set ls \<and> a \<le> b \<and> b \<le> c \<and> c \<le> m \<and> (\<forall>x \<in> set ls. x \<le> m)"
proof -
  let ?xs = "sort ls"
  have ls: "ls \<noteq> []" "a = pct ?xs p50" "b = pct ?xs p95" "c = pct ?xs p99" "m = last ?xs"
    using assms by (auto simp: latency_report_def Let_def split: if_splits)
  have xs: "?xs \<noteq> []" "sorted ?xs" using ls(1) by (simp_all flip: set_empty)
  have mem: "pct ?xs q \<in> set ls" if "0 \<le> q" "q < 2 ^ 53" for q
    using pct_nth [OF xs(1) that] by (metis nth_mem set_sort)
  have top: "x \<le> m" if "x \<in> set ls" for x
    unfolding ls(5) by (rule sorted_le_last [OF xs(2)]) (simp add: that)
  have "m \<in> set ls" unfolding ls(5) using xs(1) by (metis last_in_set set_sort)
  moreover have "a \<in> set ls" "b \<in> set ls" "c \<in> set ls"
    unfolding ls(2-4) by (rule mem; simp add: p50_def p95_def p99_def)+
  moreover have "a \<le> b" "b \<le> c"
    unfolding ls(2-4) by (rule pct_mono [OF xs(2)]; simp add: p50_def p95_def p99_def)+
  ultimately show ?thesis using top by blast
qed

text \<open>Rounding moves a duration by at most half a unit and keeps the order of durations.\<close>

definition round_unit :: "int \<Rightarrow> int \<Rightarrow> int" where
  "round_unit m d = (if d < 0 then - (((- d) * 2 + m) div (2 * m)) else (d * 2 + m) div (2 * m))"

lemma half_up:
  fixes m d :: int
  assumes "0 < m" "0 \<le> d"
  shows "(if 2 * (d mod m) < m then d - d mod m else d + m - d mod m) = m * ((d * 2 + m) div (2 * m))"
proof -
  let ?q = "d div m" and ?r = "d mod m"
  have "d * 2 + m = (2 * r + m) + q * (2 * m)" if "m * q + r = d" for q r using that by (auto simp: algebra_simps)
  then have d: "d * 2 + m = (2 * ?r + m) + ?q * (2 * m)" using mult_div_mod_eq [of m d] by blast
  have r: "0 \<le> ?r" "?r < m" using assms(1) by simp_all
  have "(2 * r + m) div (2 * m) = (if 2 * r < m then 0 else 1)" if "0 \<le> r" "r < m" for r
    using that assms(1) by (auto intro!: div_pos_pos_trivial int_div_pos_eq [where r = "2 * r - m"])
  from this [OF r] have "(d * 2 + m) div (2 * m) = ?q + (if 2 * ?r < m then 0 else 1)"
    unfolding d using assms(1) by (subst div_mult_self1) auto
  moreover have "d - ?r = m * ?q" by (simp add: minus_mod_eq_mult_div)
  ultimately show ?thesis by (simp add: algebra_simps)
qed

abbreviation int64 :: "int \<Rightarrow> bool" where
  "int64 d \<equiv> - (2 ^ 63) \<le> d \<and> d < 2 ^ 63"

lemma dur_round_unit:
  assumes "0 < m" "int64 d"
  shows "dur_round m d = max (- (2 ^ 63)) (min (2 ^ 63 - 1) (m * round_unit m d))"
proof (cases "d < 0")
  case True
  define r where "r = (- d) mod m"
  have "0 \<le> r" using assms(1) by (simp add: r_def)
  then have "dur_round m d = max (- (2 ^ 63)) (- (if 2 * r < m then - d - r else - d + m - r))"
    using assms True unfolding dur_round_def r_def [symmetric] by (auto simp: Let_def max_def)
  also have "\<dots> = max (- (2 ^ 63)) (m * round_unit m d)"
    using half_up [OF assms(1), of "- d"] True by (simp only: round_unit_def r_def if_True mult_minus_right)
  finally have e: "dur_round m d = max (- (2 ^ 63)) (m * round_unit m d)" .
  have "0 \<le> m * (- round_unit m d)" using True assms(1) by (simp add: round_unit_def pos_imp_zdiv_nonneg_iff)
  then show ?thesis unfolding e by (auto simp: min_def max_def)
next
  case False
  define r where "r = d mod m"
  have "0 \<le> r" using assms(1) by (simp add: r_def)
  then have "dur_round m d = min (2 ^ 63 - 1) (if 2 * r < m then d - r else d + m - r)"
    using assms False unfolding dur_round_def r_def [symmetric] by (auto simp: Let_def min_def)
  also have "\<dots> = min (2 ^ 63 - 1) (m * round_unit m d)"
    using half_up [OF assms(1), of d] False by (simp only: round_unit_def r_def if_False)
  finally have e: "dur_round m d = min (2 ^ 63 - 1) (m * round_unit m d)" .
  have "0 \<le> m * round_unit m d" using False assms(1) by (simp add: round_unit_def pos_imp_zdiv_nonneg_iff)
  then show ?thesis unfolding e by (auto simp: min_def max_def)
qed

lemma round_unit_mono:
  assumes "0 < m" "d \<le> d'"
  shows "round_unit m d \<le> round_unit m d'"
proof (cases "d < 0 \<longleftrightarrow> d' < 0")
  case True
  then show ?thesis using assms by (auto simp: round_unit_def intro!: zdiv_mono1)
next
  case False
  then have "d < 0" "0 \<le> d'" using assms(2) by auto
  then have "round_unit m d \<le> 0" "0 \<le> round_unit m d'" using assms(1) by (simp_all add: round_unit_def pos_imp_zdiv_nonneg_iff)
  then show ?thesis by linarith
qed

lemma dur_round_mono:
  assumes "0 < m" "int64 d" "int64 d'" "d \<le> d'"
  shows "dur_round m d \<le> dur_round m d'"
proof -
  have "m * round_unit m d \<le> m * round_unit m d'" using round_unit_mono [OF assms(1,4)] assms(1) by simp
  then show ?thesis unfolding dur_round_unit [OF assms(1,2)] dur_round_unit [OF assms(1,3)] by (auto simp: min_def max_def)
qed

text \<open>So the rounded figures of the report are in order as well.\<close>

lemma report_ordered:
  assumes "RoundTrip a b c m n \<in> set (report cfg connected dur window sent received ls)" "list_all int64 ls"
  shows "a \<le> b \<and> b \<le> c \<and> c \<le> m \<and> n = length ls \<and> ls \<noteq> []"
proof -
  obtain a' b' c' m' where l: "latency_report ls = Some (a', b', c', m')" "n = length ls"
    "a = dur_round 1000 a'" "b = dur_round 1000 b'" "c = dur_round 1000 c'" "m = dur_round 1000 m'"
    using assms(1) by (cases "latency_report ls") (auto simp: report_def)
  note o = latency_report_ordered [OF l(1)]
  have "int64 a'" "int64 b'" "int64 c'" "int64 m'" using o assms(2) by (auto simp: list_all_iff)
  then have "a \<le> b" "b \<le> c" "c \<le> m" using o unfolding l(3-6) by (auto intro!: dur_round_mono)
  moreover have "ls \<noteq> []" using l(1) by (auto simp: latency_report_def)
  ultimately show ?thesis using l(2) by blast
qed

end
