(* ===== verification/RampUp.thy ===== *)
theory RampUp
  imports LoadTest
begin

text \<open>
  The ramp-up of \<^verbatim>\<open>run\<close> in \<^verbatim>\<open>cmd/loadtest/main.go\<close>: one goroutine per client, a channel used as a
  semaphore around the dials, the channel \<^verbatim>\<open>ready\<close> every goroutine signals on, and the main goroutine
  that receives as many signals as there are clients before it opens the measurement window. A
  step is one channel operation, one dial or one update of the counters.
\<close>

section \<open>State\<close>

datatype ramp_pc =
    AtSem              \<comment> \<open>before \<open>dialSem <- struct{}{}\<close>\<close>
  | Dialing
  | DialOver bool      \<comment> \<open>before \<open><-dialSem\<close>\<close>
  | Counting bool      \<comment> \<open>before the counter is incremented\<close>
  | Signalling bool    \<comment> \<open>before \<open>ready <- struct{}{}\<close>\<close>
  | Running            \<comment> \<open>in \<open>c.run\<close>\<close>
  | Gone

record RampUp =
  rp_sem :: nat        \<comment> \<open>elements in \<open>dialSem\<close>\<close>
  rp_ready :: nat      \<comment> \<open>elements in \<open>ready\<close>\<close>
  rp_got :: nat        \<comment> \<open>signals the main goroutine has received\<close>
  rp_pcs :: "ramp_pc list"
  rp_stats :: stats
  rp_panic :: bool

text \<open>Up to the loop that waits: making a channel of negative size panics.\<close>

definition ramp_start :: "lt_config \<Rightarrow> RampUp" where
  "ramp_start cfg =
     \<lparr>rp_sem = 0, rp_ready = 0, rp_got = 0,
      rp_pcs = replicate (nat (lc_clients cfg)) AtSem, rp_stats = new_stats,
      rp_panic = (lc_dialConc cfg < 0 \<or> lc_clients cfg < 0)\<rparr>"

section \<open>Steps\<close>

abbreviation pc_at :: "RampUp \<Rightarrow> nat \<Rightarrow> ramp_pc \<Rightarrow> bool" where
  "pc_at r c p \<equiv> c < length (rp_pcs r) \<and> rp_pcs r ! c = p"

definition move_to :: "nat \<Rightarrow> ramp_pc \<Rightarrow> RampUp \<Rightarrow> RampUp" where
  "move_to c p r = r\<lparr>rp_pcs := (rp_pcs r)[c := p]\<rparr>"

text \<open>
  A send on a channel goes through when its buffer has room, or when a receive is waiting for it; the
  latter is the only way through a channel without a buffer.
\<close>

inductive ramp_step :: "lt_config \<Rightarrow> RampUp \<Rightarrow> RampUp \<Rightarrow> bool" for cfg where
  acquire: "\<not> rp_panic r \<Longrightarrow> pc_at r c AtSem \<Longrightarrow> int (rp_sem r) < lc_dialConc cfg \<Longrightarrow>
    ramp_step cfg r (move_to c Dialing (r\<lparr>rp_sem := rp_sem r + 1\<rparr>))"
| handover: "\<not> rp_panic r \<Longrightarrow> pc_at r c AtSem \<Longrightarrow> pc_at r d (DialOver ok) \<Longrightarrow> rp_sem r = 0 \<Longrightarrow>
    ramp_step cfg r (move_to c Dialing (move_to d (Counting ok) r))"
| dial: "\<not> rp_panic r \<Longrightarrow> pc_at r c Dialing \<Longrightarrow> dial_target cfg (int c) \<noteq> None \<Longrightarrow>
    ramp_step cfg r (move_to c (DialOver ok) r)"
| dial_panics: "\<not> rp_panic r \<Longrightarrow> pc_at r c Dialing \<Longrightarrow> dial_target cfg (int c) = None \<Longrightarrow>
    ramp_step cfg r (r\<lparr>rp_panic := True\<rparr>)"
| release_sem: "\<not> rp_panic r \<Longrightarrow> pc_at r c (DialOver ok) \<Longrightarrow> 0 < rp_sem r \<Longrightarrow>
    ramp_step cfg r (move_to c (Counting ok) (r\<lparr>rp_sem := rp_sem r - 1\<rparr>))"
| count: "\<not> rp_panic r \<Longrightarrow> pc_at r c (Counting ok) \<Longrightarrow>
    ramp_step cfg r (move_to c (Signalling ok) (r\<lparr>rp_stats := stat_step (Dialed ok) (rp_stats r)\<rparr>))"
| signal: "\<not> rp_panic r \<Longrightarrow> pc_at r c (Signalling ok) \<Longrightarrow> int (rp_ready r) < lc_clients cfg \<Longrightarrow>
    ramp_step cfg r (move_to c (if ok then Running else Gone) (r\<lparr>rp_ready := rp_ready r + 1\<rparr>))"
| receive: "\<not> rp_panic r \<Longrightarrow> int (rp_got r) < lc_clients cfg \<Longrightarrow> 0 < rp_ready r \<Longrightarrow>
    ramp_step cfg r (r\<lparr>rp_ready := rp_ready r - 1, rp_got := rp_got r + 1\<rparr>)"
| traffic: "\<not> rp_panic r \<Longrightarrow> pc_at r c Running \<Longrightarrow> e \<in> {Sent, Received} \<Longrightarrow>
    ramp_step cfg r (r\<lparr>rp_stats := stat_step e (rp_stats r)\<rparr>)"

inductive ramp_reach :: "lt_config \<Rightarrow> RampUp \<Rightarrow> bool" for cfg where
  start: "ramp_reach cfg (ramp_start cfg)"
| step: "ramp_reach cfg r \<Longrightarrow> ramp_step cfg r r' \<Longrightarrow> ramp_reach cfg r'"

inductive_simps ramp_step_iff: "ramp_step cfg r r'"

section \<open>The invariant\<close>

fun in_dial :: "ramp_pc \<Rightarrow> bool" where
  "in_dial Dialing \<longleftrightarrow> True"
| "in_dial (DialOver ok) \<longleftrightarrow> True"
| "in_dial _ \<longleftrightarrow> False"

fun counted :: "bool \<Rightarrow> ramp_pc \<Rightarrow> bool" where
  "counted ok (Signalling b) \<longleftrightarrow> b = ok"
| "counted ok Running \<longleftrightarrow> ok"
| "counted ok Gone \<longleftrightarrow> \<not> ok"
| "counted ok _ \<longleftrightarrow> False"

fun signalled :: "ramp_pc \<Rightarrow> bool" where
  "signalled Running \<longleftrightarrow> True"
| "signalled Gone \<longleftrightarrow> True"
| "signalled _ \<longleftrightarrow> False"

definition how_many :: "(ramp_pc \<Rightarrow> bool) \<Rightarrow> RampUp \<Rightarrow> nat" where
  "how_many P r = length (filter P (rp_pcs r))"

text \<open>The semaphore holds one element per dial under way; every signal was sent by a client that was counted.\<close>

definition ramp_ok :: "lt_config \<Rightarrow> RampUp \<Rightarrow> bool" where
  "ramp_ok cfg r \<longleftrightarrow>
     length (rp_pcs r) = nat (lc_clients cfg) \<and>
     rp_sem r = how_many in_dial r \<and> int (rp_sem r) \<le> max 0 (lc_dialConc cfg) \<and>
     rp_ready r + rp_got r = how_many signalled r \<and>
     st_connected (rp_stats r) = int (how_many (counted True) r) \<and>
     st_dialErrors (rp_stats r) = int (how_many (counted False) r)"

lemma how_many_same [simp]:
  "how_many P (r\<lparr>rp_sem := n\<rparr>) = how_many P r" "how_many P (r\<lparr>rp_ready := n\<rparr>) = how_many P r"
  "how_many P (r\<lparr>rp_got := n\<rparr>) = how_many P r" "how_many P (r\<lparr>rp_stats := s\<rparr>) = how_many P r"
  "how_many P (r\<lparr>rp_panic := b\<rparr>) = how_many P r"
  by (simp_all add: how_many_def)

lemma move_to_fields [simp]:
  "rp_sem (move_to c p r) = rp_sem r" "rp_ready (move_to c p r) = rp_ready r" "rp_got (move_to c p r) = rp_got r"
  "rp_stats (move_to c p r) = rp_stats r" "rp_panic (move_to c p r) = rp_panic r"
  "rp_pcs (move_to c p r) = (rp_pcs r)[c := p]"
  by (simp_all add: move_to_def)

lemma how_many_move:
  assumes "pc_at r c q"
  shows "how_many P (move_to c p r) + (if P q then 1 else 0) = how_many P r + (if P p then 1 else 0)"
  using length_filter_update [of c "rp_pcs r" P p] assms by (auto simp: how_many_def)

lemmas moved = how_many_move [where P = in_dial] how_many_move [where P = signalled]
  how_many_move [where P = "counted True"] how_many_move [where P = "counted False"]

lemma how_many_pos: "pc_at r c q \<Longrightarrow> P q \<Longrightarrow> 0 < how_many P r"
  by (auto simp: how_many_def filter_empty_conv)

lemma how_many_le: "how_many P r \<le> length (rp_pcs r)"
  by (simp add: how_many_def)

lemma ramp_ok_start: "ramp_ok cfg (ramp_start cfg)"
  by (simp add: ramp_ok_def ramp_start_def how_many_def new_stats_def)

lemma ramp_ok_step:
  assumes "ramp_step cfg r r'" "ramp_ok cfg r"
  shows "ramp_ok cfg r'"
  using assms(1)
proof cases
  case (acquire c)
  then show ?thesis
    using moved [of c "r\<lparr>rp_sem := rp_sem r + 1\<rparr>" AtSem Dialing] assms(2) by (auto simp: ramp_ok_def)
next
  case (handover c d ok)
  then show ?thesis using how_many_pos [of d r "DialOver ok" in_dial] assms(2) by (simp add: ramp_ok_def)
next
  case (dial c ok)
  then show ?thesis using moved [of c r Dialing "DialOver ok"] assms(2) by (auto simp: ramp_ok_def)
next
  case (release_sem c ok)
  then show ?thesis
    using moved [of c "r\<lparr>rp_sem := rp_sem r - 1\<rparr>" "DialOver ok" "Counting ok"] assms(2) by (auto simp: ramp_ok_def)
next
  case (count c ok)
  then show ?thesis
    using moved [of c "r\<lparr>rp_stats := stat_step (Dialed ok) (rp_stats r)\<rparr>" "Counting ok" "Signalling ok"] assms(2)
    by (auto simp: ramp_ok_def stat_step_def split: if_splits)
next
  case (signal c ok)
  then show ?thesis
    using moved [of c "r\<lparr>rp_ready := rp_ready r + 1\<rparr>" "Signalling ok" "if ok then Running else Gone"] assms(2)
    by (auto simp: ramp_ok_def split: if_splits)
next
  case (traffic c e)
  then show ?thesis using assms(2) by (auto simp: ramp_ok_def stat_step_def)
qed (use assms(2) in \<open>auto simp: ramp_ok_def\<close>)

lemma ramp_reach_ok: "ramp_reach cfg r \<Longrightarrow> ramp_ok cfg r"
  by (induction rule: ramp_reach.induct) (auto intro: ramp_ok_start ramp_ok_step)

section \<open>The ramp-up comes to its end\<close>

fun rank_pc :: "ramp_pc \<Rightarrow> nat" where
  "rank_pc AtSem = 6"
| "rank_pc Dialing = 5"
| "rank_pc (DialOver ok) = 4"
| "rank_pc (Counting ok) = 3"
| "rank_pc (Signalling ok) = 2"
| "rank_pc Running = 0"
| "rank_pc Gone = 0"

definition to_go :: "RampUp \<Rightarrow> nat" where
  "to_go r = sum_list (map rank_pc (rp_pcs r)) + rp_ready r"

lemma sum_list_update_nat: "c < length xs \<Longrightarrow> sum_list (map f (xs[c := p])) + f (xs ! c) = sum_list (map f xs) + (f p :: nat)"
  by (induction xs arbitrary: c) (auto simp: nth_Cons split: nat.splits)

lemma to_go_move: "pc_at r c q \<Longrightarrow> to_go (move_to c p r) + rank_pc q = to_go r + rank_pc p"
  using sum_list_update_nat [of c "rp_pcs r" rank_pc p] by (simp add: to_go_def)

lemma to_go_fields [simp]:
  "to_go (r\<lparr>rp_sem := n\<rparr>) = to_go r" "to_go (r\<lparr>rp_stats := s\<rparr>) = to_go r"
  by (simp_all add: to_go_def)

text \<open>Whoever is not at the semaphore can go on, and so can somebody at the semaphore if nobody is past it.\<close>

lemma ramp_progress:
  assumes ok: "ramp_ok cfg r" and go: "\<not> rp_panic r" "0 < lc_dialConc cfg" "lc_boards cfg \<noteq> 0" "int (rp_got r) < lc_clients cfg"
  shows "\<exists>r'. ramp_step cfg r r' \<and> \<not> rp_panic r' \<and> to_go r' < to_go r"
proof (cases "rp_ready r = 0")
  case False
  then show ?thesis
    using go by (intro exI [of _ "r\<lparr>rp_ready := rp_ready r - 1, rp_got := rp_got r + 1\<rparr>"]) (auto simp: ramp_step_iff to_go_def)
next
  case True
  have "how_many signalled r < length (rp_pcs r)" using ok go True by (simp add: ramp_ok_def)
  then obtain c where c: "c < length (rp_pcs r)" "\<not> signalled (rp_pcs r ! c)"
    by (metis how_many_def filter_True in_set_conv_nth less_irrefl)
  have moves: "\<exists>r'. ramp_step cfg r r' \<and> \<not> rp_panic r' \<and> to_go r' < to_go r"
    if "pc_at r d q" "q \<noteq> AtSem" "\<not> signalled q" for d q
  proof (cases q)
    case Dialing
    with that(1) go have "ramp_step cfg r (move_to d (DialOver True) r)" by (intro ramp_step.dial) (auto simp: dial_target_def)
    with to_go_move [OF that(1), of "DialOver True"] Dialing go(1) show ?thesis by force
  next
    case (DialOver b)
    let ?r = "r\<lparr>rp_sem := rp_sem r - 1\<rparr>"
    have "0 < rp_sem r" using how_many_pos [OF that(1), of in_dial] DialOver ok by (simp add: ramp_ok_def)
    with that(1) DialOver go(1) have "ramp_step cfg r (move_to d (Counting b) ?r)" by (intro ramp_step.release_sem) auto
    with to_go_move [of d ?r q "Counting b"] that(1) DialOver go(1) show ?thesis by force
  next
    case (Counting b)
    let ?r = "r\<lparr>rp_stats := stat_step (Dialed b) (rp_stats r)\<rparr>"
    from that(1) Counting go(1) have "ramp_step cfg r (move_to d (Signalling b) ?r)" by (intro ramp_step.count) auto
    with to_go_move [of d ?r q "Signalling b"] that(1) Counting go(1) show ?thesis by force
  next
    case (Signalling b)
    let ?r = "r\<lparr>rp_ready := rp_ready r + 1\<rparr>" and ?p = "if b then Running else Gone"
    from that(1) Signalling go True have "ramp_step cfg r (move_to d ?p ?r)" by (intro ramp_step.signal) auto
    moreover have "to_go (move_to d ?p ?r) < to_go r"
      using to_go_move [of d ?r q ?p] that(1) Signalling by (cases b) (simp_all add: to_go_def)
    ultimately show ?thesis using go(1) by force
  qed (use that in auto)
  show ?thesis
  proof (cases "rp_pcs r ! c = AtSem \<and> rp_sem r = 0")
    case True
    let ?r = "r\<lparr>rp_sem := rp_sem r + 1\<rparr>"
    have "ramp_step cfg r (move_to c Dialing ?r)" using True c go by (intro ramp_step.acquire) auto
    with to_go_move [of c ?r AtSem Dialing] True c go(1) show ?thesis by force
  next
    case False
    show ?thesis
    proof (cases "rp_pcs r ! c = AtSem")
      case True
      then have "0 < how_many in_dial r" using False ok by (simp add: ramp_ok_def)
      then obtain q where "q \<in> set (rp_pcs r)" "in_dial q" by (auto simp: how_many_def filter_empty_conv)
      then obtain d where "pc_at r d q" by (auto simp: in_set_conv_nth)
      with moves \<open>in_dial q\<close> show ?thesis by (cases q) auto
    qed (use moves c in blast)
  qed
qed

lemma ramp_no_panic:
  assumes "ramp_reach cfg r" "0 \<le> lc_clients cfg" "0 \<le> lc_dialConc cfg" "lc_boards cfg \<noteq> 0"
  shows "\<not> rp_panic r"
  using assms
proof (induction rule: ramp_reach.induct)
  case (step r r')
  then show ?case by (auto simp: ramp_step_iff dial_target_def)
qed (simp add: ramp_start_def)

lemma ramp_completes:
  assumes "ramp_reach cfg r" "0 \<le> lc_clients cfg" "0 < lc_dialConc cfg" "lc_boards cfg \<noteq> 0"
  shows "\<exists>r'. (ramp_step cfg)\<^sup>*\<^sup>* r r' \<and> int (rp_got r') = lc_clients cfg"
  using assms(1)
proof (induction "to_go r" arbitrary: r rule: less_induct)
  case less
  note ok = ramp_reach_ok [OF less.prems]
  have "rp_got r \<le> nat (lc_clients cfg)" using ok how_many_le [of signalled r] by (auto simp: ramp_ok_def)
  then have le: "int (rp_got r) \<le> lc_clients cfg" using assms(2) by linarith
  show ?case
  proof (cases "int (rp_got r) = lc_clients cfg")
    case False
    have "\<not> rp_panic r" using ramp_no_panic [OF less.prems] assms by simp
    then obtain r1 where r1: "ramp_step cfg r r1" "to_go r1 < to_go r" using ramp_progress [OF ok _ assms(3,4)] le False by force
    obtain r' where "(ramp_step cfg)\<^sup>*\<^sup>* r1 r'" "int (rp_got r') = lc_clients cfg"
      using less.hyps [OF r1(2) ramp_reach.step [OF less.prems r1(1)]] by blast
    with r1(1) show ?thesis by (meson converse_rtranclp_into_rtranclp)
  qed blast
qed

lemma all_signalled:
  assumes "ramp_ok cfg r" "int (rp_got r) = lc_clients cfg"
  shows "set (rp_pcs r) \<subseteq> {Running, Gone}" "st_connected (rp_stats r) = int (count_list (rp_pcs r) Running)"
    "st_connected (rp_stats r) + st_dialErrors (rp_stats r) = lc_clients cfg"
proof -
  have len: "length (rp_pcs r) = rp_got r" using assms by (simp add: ramp_ok_def)
  have "length (filter signalled (rp_pcs r)) = length (rp_pcs r)"
    using assms(1) len how_many_le [of signalled r] by (simp add: ramp_ok_def how_many_def)
  then have all: "list_all signalled (rp_pcs r)"
    using length_filter_less [of _ "rp_pcs r" signalled] by (fastforce simp: list_all_iff)
  then show "set (rp_pcs r) \<subseteq> {Running, Gone}" by (auto simp: list_all_iff elim: signalled.elims)
  have count: "length (filter (counted True) xs) = count_list xs Running"
    "length (filter (counted True) xs) + length (filter (counted False) xs) = length xs" if "list_all signalled xs" for xs
    using that by (induction xs) (auto elim!: signalled.elims)
  have st: "st_connected (rp_stats r) = int (length (filter (counted True) (rp_pcs r)))"
    "st_dialErrors (rp_stats r) = int (length (filter (counted False) (rp_pcs r)))"
    using assms(1) by (simp_all add: ramp_ok_def how_many_def)
  show "st_connected (rp_stats r) = int (count_list (rp_pcs r) Running)" using st(1) count(1) [OF all] by simp
  show "st_connected (rp_stats r) + st_dialErrors (rp_stats r) = lc_clients cfg"
    using st count(2) [OF all] len assms(2) by linarith
qed

section \<open>Properties\<close>



text \<open>
  With \<^verbatim>\<open>-dial-concurrency 0\<close> the semaphore is a channel without a buffer whose receives all come
  after a send of the same goroutine: once the goroutines are started nothing can happen any
  more, and the load test hangs without a word.
\<close>

lemma zero_dial_concurrency_hangs:
  assumes "lc_dialConc cfg = 0" "0 < lc_clients cfg"
  shows "\<not> rp_panic (ramp_start cfg) \<and> int (rp_got (ramp_start cfg)) < lc_clients cfg \<and> \<not> ramp_step cfg (ramp_start cfg) r"
  using assms by (auto simp: ramp_step_iff ramp_start_def)

end
