(* ===== verification/SplitPublish.thy ===== *)
theory SplitPublish
  imports MemoryBroker
begin

text \<open>
  \<^verbatim>\<open>Publish\<close> of the in-process broker takes the mutex only to copy the list of subscribers and sends
  afterwards, one subscriber at a time (\<^verbatim>\<open>internal/broker/memory.go\<close>). Here each of these is a step
  of its own, interleaved with other publishes and with every other method: a subscriber
  may come or go in between. What is said of a channel holds all the same, and a board with one
  subscriber, as every instance has, cannot tell such a publish from one that is a single step.
\<close>

section \<open>Halves of Publish\<close>

definition publish_collect :: "Memory \<Rightarrow> bytes \<Rightarrow> nat list \<times> Memory" where
  "publish_collect m boardID = (let (b, m1) = mem_board m boardID in (mb_subs b, m1))"

definition publish_send :: "bytes \<Rightarrow> nat \<Rightarrow> Memory \<Rightarrow> Memory" where
  "publish_send message sub m = m\<lparr>mem_chans := mem_send message sub (mem_chans m)\<rparr>"

lemma publish_send_fold:
  "fold (publish_send x) subs m = m\<lparr>mem_chans := fold (mem_send x) subs (mem_chans m)\<rparr>"
  by (induction subs arbitrary: m) (simp_all add: publish_send_def)

lemma publish_halves:
  "mem_Publish m b x = (Inr (), case publish_collect m b of (subs, m1) \<Rightarrow> fold (publish_send x) subs m1)"
  by (simp add: mem_Publish_def publish_collect_def publish_send_fold Let_def split: prod.split)

section \<open>Steps\<close>

text \<open>
  A call under way is its board, its message and the subscribers it has yet to send to. The
  lists of what was received from a channel and of what it had no room for are bookkeeping.
\<close>

record Publishing =
  pb_mem :: Memory
  pb_calls :: "(bytes \<times> bytes \<times> nat list) list"
  pb_got :: "nat \<Rightarrow> bytes list"
  pb_lost :: "nat \<Rightarrow> bytes list"

datatype bus_event =
    Collect bytes bytes
  | SendNext nat
  | Recv nat
  | Subscribe bytes
  | Cancel bytes nat
  | Apply bytes bytes slice bool
  | Fetch bytes
  | Load bytes Snapshot
  | Enter bytes bytes slice
  | Leave bytes bytes
  | Roster bytes

definition chan_queue :: "Memory \<Rightarrow> nat \<Rightarrow> bytes list" where
  "chan_queue m c = (case gomap_get (mem_chans m) c of None \<Rightarrow> [] | Some q \<Rightarrow> q)"

fun publish_step :: "bus_event \<Rightarrow> Publishing \<Rightarrow> Publishing" where
  "publish_step (Collect b msg) x =
     (case publish_collect (pb_mem x) b of (subs, m) \<Rightarrow> x\<lparr>pb_mem := m, pb_calls := pb_calls x @ [(b, msg, subs)]\<rparr>)"
| "publish_step (SendNext k) x =
     (if k < length (pb_calls x)
      then (case pb_calls x ! k of
              (b, msg, []) \<Rightarrow> x
            | (b, msg, s # subs) \<Rightarrow>
                x\<lparr>pb_mem := publish_send msg s (pb_mem x), pb_calls := (pb_calls x)[k := (b, msg, subs)],
                  pb_lost := if length (chan_queue (pb_mem x) s) < sub_buffer then pb_lost x
                             else (pb_lost x)(s := pb_lost x s @ [msg])\<rparr>)
      else x)"
| "publish_step (Recv c) x =
     (case mem_recv (pb_mem x) c of
        (None, m) \<Rightarrow> x\<lparr>pb_mem := m\<rparr>
      | (Some msg, m) \<Rightarrow> x\<lparr>pb_mem := m, pb_got := (pb_got x)(c := pb_got x c @ [msg])\<rparr>)"
| "publish_step (Subscribe b) x = x\<lparr>pb_mem := snd (mem_Subscribe (pb_mem x) b)\<rparr>"
| "publish_step (Cancel b c) x = x\<lparr>pb_mem := mem_cancel (pb_mem x) b c\<rparr>"
| "publish_step (Apply b i sh del) x = x\<lparr>pb_mem := snd (mem_ApplyShape (pb_mem x) b i sh del)\<rparr>"
| "publish_step (Fetch b) x = x\<lparr>pb_mem := snd (mem_Snapshot (pb_mem x) b)\<rparr>"
| "publish_step (Load b snap) x = x\<lparr>pb_mem := snd (mem_Hydrate (pb_mem x) b snap)\<rparr>"
| "publish_step (Enter b c p) x = x\<lparr>pb_mem := snd (mem_SetPresence (pb_mem x) b c p)\<rparr>"
| "publish_step (Leave b c) x = x\<lparr>pb_mem := snd (mem_RemovePresence (pb_mem x) b c)\<rparr>"
| "publish_step (Roster b) x = x\<lparr>pb_mem := snd (mem_Presence (pb_mem x) b)\<rparr>"

text \<open>The methods are called as the hub calls them: below the last sequence number, with sound snapshots.\<close>

fun event_fits :: "bus_event \<Rightarrow> Publishing \<Rightarrow> bool" where
  "event_fits (Apply b i sh del) x \<longleftrightarrow> mb_seq (the_board (pb_mem x) b) \<noteq> - 1"
| "event_fits (Load b snap) x \<longleftrightarrow> snap_ok snap"
| "event_fits e x \<longleftrightarrow> True"

fun run_fits :: "bus_event list \<Rightarrow> Publishing \<Rightarrow> bool" where
  "run_fits [] x \<longleftrightarrow> True"
| "run_fits (e # es) x \<longleftrightarrow> event_fits e x \<and> run_fits es (publish_step e x)"

section \<open>Conservation\<close>

text \<open>What a channel has been given, has refused, or is about to be given.\<close>

definition on_its_way :: "Publishing \<Rightarrow> nat \<Rightarrow> bytes multiset" where
  "on_its_way x c = mset (map (fst \<circ> snd) (filter (\<lambda>(b, msg, subs). c \<in> set subs) (pb_calls x)))"

definition ledger :: "Publishing \<Rightarrow> nat \<Rightarrow> bytes multiset" where
  "ledger x c = mset (pb_got x c @ chan_queue (pb_mem x) c) + mset (pb_lost x c) + on_its_way x c"

definition publishing_ok :: "Publishing \<Rightarrow> bool" where
  "publishing_ok x \<longleftrightarrow> Memory_ok (pb_mem x) \<and> Subs_ok (pb_mem x) \<and>
     (\<forall>(b, msg, subs) \<in> set (pb_calls x). distinct subs \<and> (\<forall>s \<in> set subs. gomap_get (mem_chans (pb_mem x)) s \<noteq> None))"

definition start_publishing :: "Memory \<Rightarrow> Publishing" where
  "start_publishing m = \<lparr>pb_mem = m, pb_calls = [], pb_got = (\<lambda>c. []), pb_lost = (\<lambda>c. [])\<rparr>"

fun collects :: "bytes \<Rightarrow> bus_event \<Rightarrow> bytes multiset" where
  "collects b (Collect b' msg) = (if b' = b then {#msg#} else {#})"
| "collects b e = {#}"

lemma publishing_mem: "publishing_ok x \<Longrightarrow> Memory_ok (pb_mem x)"
  by (simp add: publishing_ok_def)

lemma chans_of_calls:
  assumes "publishing_ok x" "\<And>s. gomap_get (mem_chans (pb_mem x)) s \<noteq> None \<Longrightarrow> gomap_get (mem_chans m) s \<noteq> None"
    "Memory_ok m" "Subs_ok m"
  shows "publishing_ok (x\<lparr>pb_mem := m\<rparr>)"
  using assms unfolding publishing_ok_def by fastforce

text \<open>Methods that are not of the message bus.\<close>

lemma bus_frame:
  assumes "publishing_ok x" "same_bus (pb_mem x) m" "Memory_ok m"
  shows "publishing_ok (x\<lparr>pb_mem := m\<rparr>)" "ledger (x\<lparr>pb_mem := m\<rparr>) c = ledger x c" "subs_of m b = subs_of (pb_mem x) b"
proof -
  have b: "mem_chans m = mem_chans (pb_mem x)" "subs_of m = subs_of (pb_mem x)" using assms(2) by (simp_all add: same_bus_def)
  have "Subs_ok m" using Subs_ok_same_bus [OF assms(2)] assms(1) by (simp add: publishing_ok_def)
  then show "publishing_ok (x\<lparr>pb_mem := m\<rparr>)" using b assms(1,3) by (intro chans_of_calls) auto
  show "ledger (x\<lparr>pb_mem := m\<rparr>) c = ledger x c" by (simp add: ledger_def chan_queue_def on_its_way_def b(1))
  show "subs_of m b = subs_of (pb_mem x) b" using fun_cong [OF b(2), of b] .
qed

text \<open>The methods of the message bus.\<close>

lemma collected:
  assumes "publishing_ok x" "publish_collect (pb_mem x) b = (subs, m)"
  shows "subs = subs_of (pb_mem x) b" "same_bus (pb_mem x) m" "Memory_ok m"
proof -
  have "Memory_ok (pb_mem x)" using assms(1) by (simp add: publishing_ok_def)
  then obtain m1 where "mem_board (pb_mem x) b = (the_board (pb_mem x) b, m1)" "Memory_ok m1" "the_board m1 = the_board (pb_mem x)"
    "mem_chans m1 = mem_chans (pb_mem x)" "mem_next m1 = mem_next (pb_mem x)"
    using mem_board_cases by metis
  with assms(2) show "subs = subs_of (pb_mem x) b" "same_bus (pb_mem x) m" "Memory_ok m"
    by (auto simp: publish_collect_def same_bus_def fun_eq_iff)
qed

lemma mset_filter_update:
  "k < length xs \<Longrightarrow> mset (map f (filter P (xs[k := y]))) + (if P (xs ! k) then {#f (xs ! k)#} else {#}) =
    mset (map f (filter P xs)) + (if P y then {#f y#} else {#})"
proof (induction xs arbitrary: k)
  case (Cons a xs)
  then show ?case using Cons.IH [of "k - 1"] by (cases k) (auto split: if_splits)
qed simp

lemma send_ledger:
  assumes ok: "publishing_ok x" and k: "k < length (pb_calls x)" "pb_calls x ! k = (b, msg, s # subs)"
  shows "publishing_ok (publish_step (SendNext k) x)" "ledger (publish_step (SendNext k) x) c = ledger x c"
    "subs_of (pb_mem (publish_step (SendNext k) x)) a = subs_of (pb_mem x) a"
proof -
  let ?m = "pb_mem x" and ?m' = "publish_send msg s (pb_mem x)"
  have call: "(b, msg, s # subs) \<in> set (pb_calls x)" using k nth_mem by metis
  then have s: "distinct (s # subs)" "gomap_get (mem_chans ?m) s \<noteq> None"
    using ok unfolding publishing_ok_def by fastforce+
  then obtain q where q: "gomap_get (mem_chans ?m) s = Some q" by blast
  have get: "gomap_get (mem_chans ?m') a = (if a = s then Some (offer msg q) else gomap_get (mem_chans ?m) a)" for a
    by (simp add: publish_send_def mem_send_get q)
  have board: "the_board ?m' = the_board ?m" by (simp add: publish_send_def the_board_get fun_eq_iff)
  then show "subs_of (pb_mem (publish_step (SendNext k) x)) a = subs_of ?m a" using k by simp
  have "Memory_ok ?m" "Subs_ok ?m" using ok by (simp_all add: publishing_ok_def)
  then have mem: "Memory_ok ?m'" "Subs_ok ?m'"
    using q by (simp add: publish_send_def Memory_ok_def, unfold Subs_ok_def subs_ok_def board get)
      (auto simp: publish_send_def offer_def split: if_splits)
  have old: "distinct subs' \<and> (\<forall>a \<in> set subs'. gomap_get (mem_chans ?m') a \<noteq> None)"
    if "(b', msg', subs') \<in> set (pb_calls x)" for b' msg' subs'
    using that ok unfolding publishing_ok_def by (fastforce simp: get)
  then have "distinct subs \<and> (\<forall>a \<in> set subs. gomap_get (mem_chans ?m') a \<noteq> None)" using call by fastforce
  with old have "\<forall>(b', msg', subs') \<in> set ((pb_calls x)[k := (b, msg, subs)]).
      distinct subs' \<and> (\<forall>a \<in> set subs'. gomap_get (mem_chans ?m') a \<noteq> None)"
    using set_update_subset_insert [of "pb_calls x" k "(b, msg, subs)"] by blast
  with mem k show "publishing_ok (publish_step (SendNext k) x)" by (simp add: publishing_ok_def)
  show "ledger (publish_step (SendNext k) x) c = ledger x c"
    using mset_filter_update [OF k(1), of "fst \<circ> snd" "\<lambda>(b, msg, subs). c \<in> set subs" "(b, msg, subs)"] s(1) k q get [of c]
    by (auto simp: ledger_def on_its_way_def chan_queue_def offer_def split: if_splits)
qed

lemma subscribed:
  assumes "publishing_ok x"
  shows "publishing_ok (publish_step (Subscribe b) x)"
    "c \<in> set (subs_of (pb_mem x) a) \<Longrightarrow> ledger (publish_step (Subscribe b) x) c = ledger x c"
    "c \<in> set (subs_of (pb_mem x) a) \<Longrightarrow> c \<in> set (subs_of (pb_mem (publish_step (Subscribe b) x)) a)"
proof -
  let ?m = "pb_mem x" and ?m' = "snd (mem_Subscribe (pb_mem x) b)"
  have ok: "Memory_ok ?m" "Subs_ok ?m" using assms by (simp_all add: publishing_ok_def)
  note l = mem_Subscribe_Subs [OF ok surjective_pairing, of b]
  have ch: "gomap_get (mem_chans ?m') = (gomap_get (mem_chans ?m))(mem_next ?m \<mapsto> [])"
    and subs: "subs_of ?m' = (subs_of ?m)(b := subs_of ?m b @ [mem_next ?m])"
    by (auto simp: mem_Subscribe_def mem_board_def Let_def the_board_get put_board_def new_memBoard_def fun_eq_iff split: option.splits)
  show "publishing_ok (publish_step (Subscribe b) x)" using chans_of_calls [OF assms _ l(2,3)] ch by simp
  assume c: "c \<in> set (subs_of ?m a)"
  have "c \<noteq> mem_next ?m" using c ok(2) unfolding Subs_ok_def subs_ok_def by fastforce
  then show "ledger (publish_step (Subscribe b) x) c = ledger x c"
    using fun_cong [OF ch, of c] by (simp add: ledger_def chan_queue_def on_its_way_def)
  show "c \<in> set (subs_of (pb_mem (publish_step (Subscribe b) x)) a)"
    using c fun_cong [OF subs, of a] by auto
qed

lemma cancelled:
  assumes "publishing_ok x"
  shows "publishing_ok (publish_step (Cancel b s) x)" "ledger (publish_step (Cancel b s) x) c = ledger x c"
    "c \<in> set (subs_of (pb_mem x) a) \<Longrightarrow> (b, s) \<noteq> (a, c) \<Longrightarrow> c \<in> set (subs_of (pb_mem (publish_step (Cancel b s) x)) a)"
proof -
  let ?m = "pb_mem x" and ?m' = "mem_cancel (pb_mem x) b s"
  have ch: "mem_chans ?m' = mem_chans ?m" by (auto simp: mem_cancel_def split: option.split)
  have ok: "Memory_ok ?m" "Subs_ok ?m" using assms by (simp_all add: publishing_ok_def)
  show "publishing_ok (publish_step (Cancel b s) x)" using chans_of_calls [OF assms _ mem_cancel_Subs [OF ok]] ch by simp
  show "ledger (publish_step (Cancel b s) x) c = ledger x c" by (simp add: ledger_def chan_queue_def on_its_way_def ch)
  show "c \<in> set (subs_of ?m a) \<Longrightarrow> (b, s) \<noteq> (a, c) \<Longrightarrow> c \<in> set (subs_of (pb_mem (publish_step (Cancel b s) x)) a)"
    by (auto simp: mem_cancel_def the_board_get put_board_def split: option.splits)
qed

lemma received:
  assumes "publishing_ok x"
  shows "publishing_ok (publish_step (Recv s) x)" "ledger (publish_step (Recv s) x) c = ledger x c"
    "subs_of (pb_mem (publish_step (Recv s) x)) a = subs_of (pb_mem x) a"
proof -
  let ?m = "pb_mem x"
  have ok: "Memory_ok ?m" "Subs_ok ?m" using assms by (simp_all add: publishing_ok_def)
  have "publishing_ok (x\<lparr>pb_mem := snd (mem_recv ?m s)\<rparr>)"
    using mem_recv_Subs [OF ok] by (intro chans_of_calls [OF assms]) (auto simp: mem_recv_def split: option.splits list.splits)
  then show "publishing_ok (publish_step (Recv s) x)" by (auto simp: publishing_ok_def split: prod.splits option.splits)
  show "ledger (publish_step (Recv s) x) c = ledger x c"
    by (auto simp: mem_recv_def ledger_def chan_queue_def on_its_way_def split: option.splits list.splits)
  show "subs_of (pb_mem (publish_step (Recv s) x)) a = subs_of ?m a"
    by (auto simp: mem_recv_def the_board_get split: option.splits list.splits)
qed

lemma bus_frame_step:
  assumes "publishing_ok x" "publish_step e x = x\<lparr>pb_mem := m\<rparr>" "collects b e = {#}" "c \<in> set (subs_of (pb_mem x) b)"
    "same_bus (pb_mem x) m" "Memory_ok m"
  shows "publishing_ok (publish_step e x) \<and> c \<in> set (subs_of (pb_mem (publish_step e x)) b) \<and>
    ledger (publish_step e x) c = ledger x c + collects b e"
  unfolding assms(2,3) using bus_frame [OF assms(1,5,6)] assms(4) by simp

text \<open>One step: a channel's account changes when its board is published to, and only then.\<close>

lemma publish_step_ledger:
  assumes ok: "publishing_ok x" "event_fits e x" and c: "c \<in> set (subs_of (pb_mem x) b)" "e \<noteq> Cancel b c"
  shows "publishing_ok (publish_step e x) \<and> c \<in> set (subs_of (pb_mem (publish_step e x)) b) \<and>
    ledger (publish_step e x) c = ledger x c + collects b e"
proof (cases e)
  case (Collect b' msg)
  obtain subs m where p: "publish_collect (pb_mem x) b' = (subs, m)" by fastforce
  note l = collected [OF ok(1) p]
  note f = bus_frame [OF ok(1) l(2,3)]
  have s: "Subs_ok (pb_mem x)" using ok(1) by (simp add: publishing_ok_def)
  have mem: "c \<in> set subs \<longleftrightarrow> b' = b" using c(1) s l(1) unfolding Subs_ok_def subs_ok_def by blast
  have "distinct subs \<and> (\<forall>a \<in> set subs. gomap_get (mem_chans m) a \<noteq> None)"
    using s l(1,2) unfolding Subs_ok_def subs_ok_def by (auto simp: same_bus_def)
  then have "publishing_ok (publish_step e x)" using f(1) Collect p by (auto simp: publishing_ok_def)
  moreover have "ledger (publish_step e x) c = ledger (x\<lparr>pb_mem := m\<rparr>) c + collects b e"
    using Collect p mem by (simp add: ledger_def on_its_way_def)
  ultimately show ?thesis using f(2,3) c(1) Collect p by simp
next
  case (SendNext k)
  show ?thesis
  proof (cases "k < length (pb_calls x) \<and> snd (snd (pb_calls x ! k)) \<noteq> []")
    case True
    then obtain b' msg s subs where "pb_calls x ! k = (b', msg, s # subs)" by (metis neq_Nil_conv prod.collapse)
    from send_ledger [OF ok(1) _ this] True c(1) SendNext show ?thesis by simp
  next
    case False
    then have "publish_step e x = x" using SendNext by (cases "pb_calls x ! k") auto
    with ok c SendNext show ?thesis by simp
  qed
next
  case (Recv s)
  then show ?thesis using received [OF ok(1)] c(1) by (simp del: publish_step.simps)
next
  case (Subscribe b')
  then show ?thesis using subscribed [OF ok(1)] c(1) by (simp del: publish_step.simps)
next
  case (Cancel b' s)
  then show ?thesis using cancelled [OF ok(1)] c by (simp del: publish_step.simps)
next
  case (Apply b' i sh del)
  show ?thesis
    by (rule bus_frame_step [OF ok(1) _ _ c(1) mem_same_bus(1) [OF publishing_mem [OF ok(1)]]])
      (use Apply ok(2) mem_ApplyShape_law(2) [OF publishing_mem [OF ok(1)] _ surjective_pairing] in simp_all)
next
  case (Fetch b')
  show ?thesis
    by (rule bus_frame_step [OF ok(1) _ _ c(1) mem_same_bus(2) [OF publishing_mem [OF ok(1)]]])
      (use Fetch mem_Snapshot_law(1) [OF publishing_mem [OF ok(1)] surjective_pairing] in simp_all)
next
  case (Load b' snap)
  show ?thesis
    by (rule bus_frame_step [OF ok(1) _ _ c(1) mem_same_bus(3) [OF publishing_mem [OF ok(1)]]])
      (use Load ok(2) mem_Hydrate_law(2) [OF publishing_mem [OF ok(1)] _ surjective_pairing] in simp_all)
next
  case (Enter b' i p)
  show ?thesis
    by (rule bus_frame_step [OF ok(1) _ _ c(1) mem_same_bus(4) [OF publishing_mem [OF ok(1)]]])
      (use Enter mem_SetPresence_law(2) [OF publishing_mem [OF ok(1)] surjective_pairing] in simp_all)
next
  case (Leave b' i)
  show ?thesis
    by (rule bus_frame_step [OF ok(1) _ _ c(1) mem_same_bus(5) [OF publishing_mem [OF ok(1)]]])
      (use Leave mem_RemovePresence_law(2) [OF publishing_mem [OF ok(1)] surjective_pairing] in simp_all)
next
  case (Roster b')
  show ?thesis
    by (rule bus_frame_step [OF ok(1) _ _ c(1) mem_same_bus(6) [OF publishing_mem [OF ok(1)]]]) (use Roster mem_Presence_ok [OF publishing_mem [OF ok(1)]] in simp_all)
qed

lemma publish_run_ledger:
  assumes "publishing_ok x" "c \<in> set (subs_of (pb_mem x) b)" "Cancel b c \<notin> set es" "run_fits es x"
  shows "ledger (fold publish_step es x) c = ledger x c + sum_list (map (collects b) es)"
  using assms
proof (induction es arbitrary: x)
  case (Cons e es)
  have "publishing_ok (publish_step e x) \<and> c \<in> set (subs_of (pb_mem (publish_step e x)) b) \<and>
      ledger (publish_step e x) c = ledger x c + collects b e"
    using Cons.prems by (intro publish_step_ledger) auto
  with Cons.IH [of "publish_step e x"] Cons.prems show ?case by (simp add: add.assoc)
qed simp

lemma start_publishing_ok: "Memory_ok m \<Longrightarrow> Subs_ok m \<Longrightarrow> publishing_ok (start_publishing m)"
  by (simp add: publishing_ok_def start_publishing_def)

lemma lost_only_when_full:
  "pb_lost (publish_step e x) c \<noteq> pb_lost x c \<Longrightarrow> length (chan_queue (pb_mem x) c) \<ge> 256"
  by (cases e) (auto simp: sub_buffer_def split: prod.splits option.splits list.splits if_splits)

text \<open>The messages published to a board, in the order the calls took their lists of subscribers.\<close>

definition published_to :: "bytes \<Rightarrow> bus_event list \<Rightarrow> bytes list" where
  "published_to b es = List.map_filter (\<lambda>e. case e of Collect b' msg \<Rightarrow> if b' = b then Some msg else None | _ \<Rightarrow> None) es"

lemma published_sum: "sum_list (map (collects b) es) = mset (published_to b es)"
  by (induction es) (auto simp: published_to_def map_filter_simps split: bus_event.split)

section \<open>One subscriber\<close>

text \<open>
  An instance subscribes once per board. With the same single subscriber at both moments, taking
  the list changes nothing and the send is the whole of \<^verbatim>\<open>Publish\<close>.
\<close>

lemma board_exists: "subs_of m b \<noteq> [] \<Longrightarrow> mem_board m b = (the_board m b, m)"
  by (auto simp: mem_board_def the_board_get new_memBoard_def split: option.splits)

lemma single_subscriber_atomic:
  assumes "subs_of (pb_mem x) b = [s]"
  shows "publish_step (Collect b msg) x = x\<lparr>pb_calls := pb_calls x @ [(b, msg, [s])]\<rparr>"
    "k < length (pb_calls x) \<Longrightarrow> pb_calls x ! k = (b, msg, [s]) \<Longrightarrow>
      pb_mem (publish_step (SendNext k) x) = snd (mem_Publish (pb_mem x) b msg)"
  using board_exists [of "pb_mem x" b] assms by (simp_all add: publish_collect_def publish_halves)

section \<open>Properties\<close>

text \<open>(C11)
  No message is lost, invented or duplicated by interleaving. Take any schedule of publishes, each of them
  taking its list of subscribers and then sending to one subscriber at a time, together with subscriptions,
  cancellations, receives and all other methods of the in-process broker. For a subscription that is not
  cancelled, the messages received from its channel or waiting in it, those it had no room for,
  and those that calls under way have yet to send to it are together what was there at the start and every message
  published to its board since, each once. A message is refused only by a channel that holds 256.
\<close>

theorem publish_conserves_messages:
  assumes "Memory_ok m" "Subs_ok m" "c \<in> set (subs_of m b)" "Cancel b c \<notin> set es" "run_fits es (start_publishing m)"
    "x = fold publish_step es (start_publishing m)"
  shows "mset (pb_got x c @ chan_queue (pb_mem x) c) + mset (pb_lost x c) + on_its_way x c =
    mset (chan_queue m c @ published_to b es) \<and>
    (\<forall>e y. pb_lost (publish_step e y) c \<noteq> pb_lost y c \<longrightarrow> 256 \<le> length (chan_queue (pb_mem y) c))"
proof -
  have "ledger x c = ledger (start_publishing m) c + sum_list (map (collects b) es)"
    unfolding assms(6) using assms(3-5) by (intro publish_run_ledger start_publishing_ok [OF assms(1,2)]) (simp_all add: start_publishing_def)
  then show ?thesis
    using lost_only_when_full [of _ _ c] by (simp add: ledger_def published_sum start_publishing_def on_its_way_def)
qed

text \<open>Two publishes, the second overtaking the first between its two steps.\<close>

definition one_sub :: Memory where
  "one_sub = snd (mem_Subscribe NewMemory ''b'')"

definition overtaking :: "bus_event list" where
  "overtaking = [Collect ''b'' ''1'', Collect ''b'' ''2'', Subscribe ''b'', SendNext 1, Recv 0, SendNext 0]"

theorem publish_conserves_messages_witness:
  "mset (pb_got (fold publish_step overtaking (start_publishing one_sub)) 0 @
      chan_queue (pb_mem (fold publish_step overtaking (start_publishing one_sub))) 0) = {#''1'', ''2''#}"
proof -
  let ?x = "fold publish_step overtaking (start_publishing one_sub)"
  have m: "Memory_ok one_sub" "Subs_ok one_sub"
    using mem_Subscribe_Subs(2,3) [OF NewMemory_ok NewMemory_Subs_ok surjective_pairing] by (simp_all add: one_sub_def)
  have s: "0 \<in> set (subs_of one_sub ''b'')" "Cancel ''b'' 0 \<notin> set overtaking" "run_fits overtaking (start_publishing one_sub)"
    by code_simp+
  have e: "pb_lost ?x 0 = []" "on_its_way ?x 0 = {#}" "chan_queue one_sub 0 = []" "published_to ''b'' overtaking = [''1'', ''2'']"
    by code_simp+
  from publish_conserves_messages [OF m s refl] show ?thesis by (simp add: e)
qed

end
