(* ===== verification/Browser.thy ===== *)
theory Browser
  imports Screen
begin

text \<open>
  The rest of the browser client, \<^verbatim>\<open>web/src/App.tsx\<close>: the life of its WebSocket, with the timer that
  reconnects, and the pointer, with the rectangle being drawn and the throttle on cursor messages.
  Numbers are of any ordered ring, \<open>num\<close> writes one as JSON; what the canvas and React do is left out.
\<close>

section \<open>State\<close>

record 'n DrawState =
  ds_startX :: 'n
  ds_startY :: 'n
  ds_x :: 'n
  ds_y :: 'n

record 'n Extent =
  ex_x :: 'n
  ex_y :: 'n
  ex_w :: 'n
  ex_h :: 'n

datatype readyState = CONNECTING | OPEN | CLOSING | CLOSED

datatype connStatus = Status_connecting | Status_connected | Status_disconnected

text \<open>
  Sockets are numbered in the order they are made; \<^verbatim>\<open>ws\<close> and \<^verbatim>\<open>wsRef.current\<close> are the last one. What was
  sent is kept beside the state, with the socket it went to and, for a cursor position, the time.
\<close>

record 'n Browser =
  bw_app :: App
  bw_draw :: "'n DrawState option"
  bw_lastCursorSent :: 'n
  bw_sockets :: "readyState list"
  bw_timers :: nat
  bw_stopped :: bool
  bw_status :: connStatus
  bw_sent :: "(nat \<times> 'n option \<times> bytes) list"

definition ws_connect :: "'n Browser \<Rightarrow> 'n Browser" where
  "ws_connect b = b\<lparr>bw_sockets := bw_sockets b @ [CONNECTING]\<rparr>"

definition browser_mount :: "'n::linordered_idom Browser" where
  "browser_mount = ws_connect
     \<lparr>bw_app = App_init, bw_draw = None, bw_lastCursorSent = 0, bw_sockets = [], bw_timers = 0, bw_stopped = False,
      bw_status = Status_connecting, bw_sent = []\<rparr>"

definition ws_send :: "'n option \<Rightarrow> bytes \<Rightarrow> 'n Browser \<Rightarrow> 'n Browser" where
  "ws_send at msg b =
     (if bw_sockets b \<noteq> [] \<and> last (bw_sockets b) = OPEN
      then b\<lparr>bw_sent := bw_sent b @ [(length (bw_sockets b) - 1, at, msg)]\<rparr>
      else b)"

section \<open>Pointer\<close>

definition normalize_draw :: "'n::linordered_idom DrawState \<Rightarrow> 'n Extent" where
  "normalize_draw d =
     \<lparr>ex_x = min (ds_startX d) (ds_x d), ex_y = min (ds_startY d) (ds_y d),
      ex_w = \<bar>ds_x d - ds_startX d\<bar>, ex_h = \<bar>ds_y d - ds_startY d\<bar>\<rparr>"

definition pointer_down :: "'n \<Rightarrow> 'n \<Rightarrow> 'n Browser \<Rightarrow> 'n Browser" where
  "pointer_down x y b = b\<lparr>bw_draw := Some \<lparr>ds_startX = x, ds_startY = y, ds_x = x, ds_y = y\<rparr>\<rparr>"

definition cursor_message :: "('n \<Rightarrow> bytes) \<Rightarrow> 'n \<Rightarrow> 'n \<Rightarrow> bytes" where
  "cursor_message num x y =
     json_object [(''type'', marshal_string ''cursor''), (''payload'', json_object [(''x'', num x), (''y'', num y)])]"

definition pointer_move :: "('n::linordered_idom \<Rightarrow> bytes) \<Rightarrow> 'n \<Rightarrow> 'n \<Rightarrow> 'n \<Rightarrow> 'n Browser \<Rightarrow> 'n Browser" where
  "pointer_move num now x y b =
     (let b1 = b\<lparr>bw_draw := map_option (\<lambda>d. d\<lparr>ds_x := x, ds_y := y\<rparr>) (bw_draw b)\<rparr> in
      if now - bw_lastCursorSent b1 \<ge> 40
      then ws_send (Some now) (cursor_message num x y) (b1\<lparr>bw_lastCursorSent := now\<rparr>)
      else b1)"

definition rect_shape :: "('n \<Rightarrow> bytes) \<Rightarrow> 'n Extent \<Rightarrow> bytes \<Rightarrow> bytes" where
  "rect_shape num r color =
     json_object [(''type'', marshal_string ''rect''), (''x'', num (ex_x r)), (''y'', num (ex_y r)),
       (''w'', num (ex_w r)), (''h'', num (ex_h r)), (''color'', color)]"

text \<open>Reading the colour of a self that is null throws, after the drawing was put down.\<close>

definition pointer_up :: "('n::linordered_idom \<Rightarrow> bytes) \<Rightarrow> bytes \<Rightarrow> 'n Browser \<Rightarrow> 'n Browser" where
  "pointer_up num uid b =
     (let b1 = b\<lparr>bw_draw := None\<rparr> in
      case bw_draw b of
        None \<Rightarrow> b1
      | Some d \<Rightarrow>
          let rect = normalize_draw d in
          if ex_w rect < 3 \<and> ex_h rect < 3 then b1
          else (case js_prop (app_self (bw_app b)) ''color'' of
             Inl e \<Rightarrow> b1
           | Inr v \<Rightarrow>
               let color = (if nullish v then marshal_string ''#334155'' else the v);
                   (msg, a) = onPointerUp uid (rect_shape num rect color) (bw_app b)
               in ws_send None msg (b1\<lparr>bw_app := a\<rparr>)))"

section \<open>Events\<close>

datatype 'n browser_event =
    SocketOpen nat
  | SocketClosing nat
  | SocketClose nat
  | SocketMessage nat bytes
  | TimerFires
  | Unmount
  | PointerDown 'n 'n
  | PointerMove 'n 'n 'n
  | PointerUp bytes

text \<open>
  Whether the browser can fire an event now: messages come in only on an open socket, pointer events
  only while mounted. \<open>SocketClosing\<close> is the other side beginning to close, which runs no code of ours.
\<close>

fun may_fire :: "'n browser_event \<Rightarrow> 'n Browser \<Rightarrow> bool" where
  "may_fire (SocketOpen k) b \<longleftrightarrow> k < length (bw_sockets b) \<and> bw_sockets b ! k = CONNECTING"
| "may_fire (SocketClosing k) b \<longleftrightarrow> k < length (bw_sockets b) \<and> bw_sockets b ! k \<in> {CONNECTING, OPEN}"
| "may_fire (SocketClose k) b \<longleftrightarrow> k < length (bw_sockets b) \<and> bw_sockets b ! k \<noteq> CLOSED"
| "may_fire (SocketMessage k data) b \<longleftrightarrow> k < length (bw_sockets b) \<and> bw_sockets b ! k = OPEN"
| "may_fire TimerFires b \<longleftrightarrow> 0 < bw_timers b"
| "may_fire e b \<longleftrightarrow> \<not> bw_stopped b"

fun browser_step :: "('n::linordered_idom \<Rightarrow> bytes) \<Rightarrow> 'n browser_event \<Rightarrow> 'n Browser \<Rightarrow> 'n Browser" where
  "browser_step num (SocketOpen k) b = b\<lparr>bw_sockets := (bw_sockets b)[k := OPEN], bw_status := Status_connected\<rparr>"
| "browser_step num (SocketClosing k) b = b\<lparr>bw_sockets := (bw_sockets b)[k := CLOSING]\<rparr>"
| "browser_step num (SocketClose k) b =
     b\<lparr>bw_sockets := (bw_sockets b)[k := CLOSED], bw_status := Status_disconnected,
       bw_timers := (if bw_stopped b then bw_timers b else bw_timers b + 1)\<rparr>"
| "browser_step num (SocketMessage k data) b = b\<lparr>bw_app := snd (handleMessage data (bw_app b))\<rparr>"
| "browser_step num TimerFires b = ws_connect (b\<lparr>bw_timers := bw_timers b - 1\<rparr>)"
| "browser_step num Unmount b =
     b\<lparr>bw_stopped := True,
       bw_sockets := (if last (bw_sockets b) = CLOSED then bw_sockets b
                      else (bw_sockets b)[length (bw_sockets b) - 1 := CLOSING])\<rparr>"
| "browser_step num (PointerDown x y) b = pointer_down x y b"
| "browser_step num (PointerMove now x y) b = pointer_move num now x y b"
| "browser_step num (PointerUp uid) b = pointer_up num uid b"

inductive browser_reach :: "('n::linordered_idom \<Rightarrow> bytes) \<Rightarrow> 'n Browser \<Rightarrow> bool" for num where
  mount: "browser_reach num browser_mount"
| fire: "browser_reach num b \<Longrightarrow> may_fire e b \<Longrightarrow> browser_reach num (browser_step num e b)"

section \<open>Laws\<close>

lemma ws_send_fields [simp]:
  "bw_app (ws_send t m b) = bw_app b" "bw_sockets (ws_send t m b) = bw_sockets b" "bw_timers (ws_send t m b) = bw_timers b"
  "bw_stopped (ws_send t m b) = bw_stopped b" "bw_draw (ws_send t m b) = bw_draw b"
  "bw_lastCursorSent (ws_send t m b) = bw_lastCursorSent b"
  by (simp_all add: ws_send_def)

lemma pointer_sockets [simp]:
  "bw_sockets (pointer_down x y b) = bw_sockets b" "bw_sockets (pointer_move num now x y b) = bw_sockets b"
  "bw_sockets (pointer_up num uid b) = bw_sockets b"
  "bw_timers (pointer_down x y b) = bw_timers b" "bw_timers (pointer_move num now x y b) = bw_timers b"
  "bw_timers (pointer_up num uid b) = bw_timers b"
  "bw_stopped (pointer_down x y b) = bw_stopped b" "bw_stopped (pointer_move num now x y b) = bw_stopped b"
  "bw_stopped (pointer_up num uid b) = bw_stopped b"
  by (simp_all add: pointer_down_def pointer_move_def pointer_up_def Let_def split: option.split sum.split prod.split)

text \<open>One connection, or one timer that is going to make it.\<close>

definition conn_ok :: "'n Browser \<Rightarrow> bool" where
  "conn_ok b \<longleftrightarrow>
     bw_sockets b \<noteq> [] \<and> list_all (\<lambda>s. s = CLOSED) (butlast (bw_sockets b)) \<and>
     (if last (bw_sockets b) = CLOSED then bw_timers b = 1 else bw_timers b = 0)"

lemma conn_ok_only:
  assumes "conn_ok b" "k < length (bw_sockets b)" "bw_sockets b ! k \<noteq> CLOSED"
  shows "k = length (bw_sockets b) - 1" "last (bw_sockets b) = bw_sockets b ! k" "bw_timers b = 0"
proof -
  have "k \<ge> length (bw_sockets b) - 1"
  proof (rule ccontr)
    assume "\<not> ?thesis"
    then have k: "k < length (butlast (bw_sockets b))" by simp
    then have "butlast (bw_sockets b) ! k = CLOSED" using assms(1) by (simp add: conn_ok_def list_all_length)
    with k assms(3) show False by (simp add: nth_butlast)
  qed
  then show k: "k = length (bw_sockets b) - 1" using assms(2) by simp
  show l: "last (bw_sockets b) = bw_sockets b ! k" unfolding k using assms(2) by (intro last_conv_nth) auto
  show "bw_timers b = 0" using assms(1,3) l by (simp add: conn_ok_def)
qed

lemma conn_ok_set:
  assumes "conn_ok b" "k < length (bw_sockets b)" "bw_sockets b ! k \<noteq> CLOSED"
    "bw_sockets b2 = (bw_sockets b)[k := s]" "bw_timers b2 = bw_timers b + (if s = CLOSED then 1 else 0)"
  shows "conn_ok b2"
  using conn_ok_only [OF assms(1-3)] assms(1,4,5) by (auto simp: conn_ok_def butlast_list_update last_list_update)

lemma conn_ok_step:
  assumes ok: "conn_ok b" and e: "may_fire e b" "\<not> bw_stopped b" "e \<noteq> Unmount"
  shows "conn_ok (browser_step num e b)"
proof (cases e)
  case (SocketOpen k)
  with ok e show ?thesis by (intro conn_ok_set [OF ok, of k _ OPEN]) simp_all
next
  case (SocketClosing k)
  with ok e show ?thesis by (intro conn_ok_set [OF ok, of k _ CLOSING]) auto
next
  case (SocketClose k)
  with ok e show ?thesis by (intro conn_ok_set [OF ok, of k _ CLOSED]) simp_all
next
  case TimerFires
  then have l: "last (bw_sockets b) = CLOSED" "bw_timers b = 1" "bw_sockets b \<noteq> []"
    using e(1) ok by (auto simp: conn_ok_def split: if_splits)
  have "list_all (\<lambda>s. s = CLOSED) (butlast (bw_sockets b) @ [last (bw_sockets b)])"
    using ok l(1) by (simp add: conn_ok_def)
  then have "list_all (\<lambda>s. s = CLOSED) (bw_sockets b)" using l(3) by (simp del: list_all_append)
  then show ?thesis using TimerFires l by (simp add: conn_ok_def ws_connect_def)
qed (use ok e in \<open>simp_all add: conn_ok_def\<close>)

lemma stopped_stays: "bw_stopped b \<Longrightarrow> bw_stopped (browser_step num e b)"
  by (cases e) (simp_all add: ws_connect_def)

lemma reach_conn_ok: "browser_reach num b \<Longrightarrow> \<not> bw_stopped b \<Longrightarrow> conn_ok b"
proof (induction rule: browser_reach.induct)
  case mount
  show ?case by (simp add: browser_mount_def ws_connect_def conn_ok_def)
next
  case (fire b e)
  then have s: "\<not> bw_stopped b" using stopped_stays by blast
  moreover have "e \<noteq> Unmount" using fire.prems by auto
  ultimately show ?case using fire conn_ok_step by blast
qed

lemma conn_ok_count:
  assumes "conn_ok b"
  shows "length (filter (\<lambda>s. s \<noteq> CLOSED) (bw_sockets b)) + bw_timers b = 1"
proof -
  have b: "bw_sockets b = butlast (bw_sockets b) @ [last (bw_sockets b)]" using assms by (simp add: conn_ok_def)
  have "filter (\<lambda>s. s \<noteq> CLOSED) (butlast (bw_sockets b)) = []"
    using assms by (simp add: conn_ok_def filter_empty_conv list_all_iff)
  then have "filter (\<lambda>s. s \<noteq> CLOSED) (bw_sockets b) = filter (\<lambda>s. s \<noteq> CLOSED) [last (bw_sockets b)]"
    by (subst b) (simp only: filter_append append_Nil)
  then show ?thesis using assms by (simp add: conn_ok_def split: if_splits)
qed

section \<open>What is sent\<close>

definition cursor_times :: "'n Browser \<Rightarrow> 'n list" where
  "cursor_times b = List.map_filter (\<lambda>(k, at, m). at) (bw_sent b)"

text \<open>A message the server may expect of a browser: a cursor position, or a rectangle somebody meant to draw.\<close>

definition meant :: "('n::linordered_idom \<Rightarrow> bytes) \<Rightarrow> nat \<times> 'n option \<times> bytes \<Rightarrow> bool" where
  "meant num s \<longleftrightarrow>
     (case fst (snd s) of
        Some t \<Rightarrow> (\<exists>x y. snd (snd s) = cursor_message num x y)
      | None \<Rightarrow> (\<exists>r color uid a. 0 \<le> ex_w r \<and> 0 \<le> ex_h r \<and> (3 \<le> ex_w r \<or> 3 \<le> ex_h r) \<and>
                  snd (snd s) = fst (onPointerUp uid (rect_shape num r color) a)))"

definition sent_ok :: "('n::linordered_idom \<Rightarrow> bytes) \<Rightarrow> 'n Browser \<Rightarrow> bool" where
  "sent_ok num b \<longleftrightarrow>
     sorted_wrt (\<lambda>s t. s + 40 \<le> t) (cursor_times b) \<and> list_all (\<lambda>t. t \<le> bw_lastCursorSent b) (cursor_times b) \<and>
     list_all (meant num) (bw_sent b)"

lemma sent_ok_more: "bw_sent b2 = bw_sent b \<Longrightarrow> bw_lastCursorSent b \<le> bw_lastCursorSent b2 \<Longrightarrow> sent_ok num b \<Longrightarrow> sent_ok num b2"
  by (auto simp: sent_ok_def cursor_times_def list_all_iff intro: order_trans)

lemma sent_ok_cursor:
  assumes "sent_ok num b" "bw_lastCursorSent b + 40 \<le> now" "bw_sent b2 = bw_sent b" "bw_lastCursorSent b2 = now"
  shows "sent_ok num (ws_send (Some now) (cursor_message num x y) b2)"
proof -
  have "t + 40 \<le> now" if "t \<in> set (cursor_times b)" for t
    using assms(1,2) that by (fastforce simp: sent_ok_def list_all_iff)
  then have "sorted_wrt (\<lambda>s t. s + 40 \<le> t) (cursor_times b @ [now])" using assms(1) by (simp add: sent_ok_def sorted_wrt_append)
  moreover have "sent_ok num b2" using assms by (intro sent_ok_more [OF assms(3) _ assms(1)]) simp
  ultimately show ?thesis using assms(3,4)
    by (auto simp: ws_send_def sent_ok_def cursor_times_def map_filter_def meant_def)
qed

lemma sent_ok_shape:
  assumes "sent_ok num b" "meant num (0, None, m)"
  shows "sent_ok num (ws_send None m b)"
  using assms by (simp add: ws_send_def sent_ok_def cursor_times_def map_filter_def meant_def)

lemma sent_ok_step: "sent_ok num b \<Longrightarrow> sent_ok num (browser_step num e b)"
proof (induction e)
  case (PointerMove now x y)
  then show ?case
    by (auto simp: pointer_move_def Let_def intro: sent_ok_cursor sent_ok_more)
next
  case (PointerUp uid)
  have "meant num (0, None, fst (onPointerUp uid (rect_shape num (normalize_draw d) color) (bw_app b)))"
    if "\<not> (ex_w (normalize_draw d) < 3 \<and> ex_h (normalize_draw d) < 3)" for d color
    using that unfolding meant_def by (auto intro!: exI [of _ "normalize_draw d"]) (auto simp: normalize_draw_def not_less)
  with PointerUp show ?case
    by (auto simp: pointer_up_def Let_def case_prod_unfold split: option.split sum.split
      intro!: sent_ok_shape intro: sent_ok_more)
qed (auto simp: ws_connect_def pointer_down_def intro: sent_ok_more)

lemma reach_sent_ok: "browser_reach num b \<Longrightarrow> sent_ok num b"
proof (induction rule: browser_reach.induct)
  case mount
  show ?case by (simp add: browser_mount_def ws_connect_def sent_ok_def cursor_times_def map_filter_def)
qed (rule sent_ok_step)

section \<open>Main results\<close>

text \<open>(C21)
  While the page is mounted it has, at every moment, either exactly one socket that is not closed,
  the last one it made, or exactly one timer that is going to make one: sockets going down in any order
  neither leave the page without a way back nor open a second connection to the board.
\<close>

theorem browser_one_connection:
  assumes "browser_reach num b" "\<not> bw_stopped b"
  shows "length (filter (\<lambda>s. s \<noteq> CLOSED) (bw_sockets b)) + bw_timers b = 1 \<and>
    list_all (\<lambda>s. s = CLOSED) (butlast (bw_sockets b))"
  using reach_conn_ok [OF assms] conn_ok_count [of b] by (simp add: conn_ok_def)

text \<open>A page whose connection went down twice and that is open again.\<close>

definition example_events :: "int browser_event list" where
  "example_events =
     [SocketOpen 0, SocketClosing 0, SocketClose 0, TimerFires, SocketClose 1, TimerFires, SocketOpen 2,
      PointerMove 100 5 6, PointerMove 120 5 7, PointerMove 150 6 7, PointerDown 10 10, PointerMove 160 4 30, PointerUp ''a'']"

definition example_page :: "int Browser" where
  "example_page = fold (browser_step (\<lambda>n. if n < 10 then ''7'' else ''17'')) example_events browser_mount"

lemma reach_fold:
  assumes "browser_reach num b" "\<And>i. i < length es \<Longrightarrow> may_fire (es ! i) (fold (browser_step num) (take i es) b)"
  shows "browser_reach num (fold (browser_step num) es b)"
  using assms(2)
proof (induction es rule: rev_induct)
  case (snoc e es)
  have "may_fire e (fold (browser_step num) es b)" using snoc.prems [of "length es"] by simp
  moreover have "may_fire (es ! i) (fold (browser_step num) (take i es) b)" if "i < length es" for i
    using snoc.prems [of i] that by (simp add: nth_append)
  then have "browser_reach num (fold (browser_step num) es b)" by (rule snoc.IH)
  ultimately show ?case by (simp add: browser_reach.fire)
qed (use assms(1) in simp)

lemma example_page_reach: "browser_reach (\<lambda>n. if n < 10 then ''7'' else ''17'') example_page"
  unfolding example_page_def
proof (rule reach_fold [OF browser_reach.mount])
  let ?num = "\<lambda>n :: int. if n < 10 then ''7'' else ''17''"
  have "list_all (\<lambda>i. may_fire (example_events ! i) (fold (browser_step ?num) (take i example_events) browser_mount)) [0..<13]"
    by code_simp
  then show "may_fire (example_events ! i) (fold (browser_step ?num) (take i example_events) browser_mount)"
    if "i < length example_events" for i
    using that by (simp add: list_all_iff example_events_def)
qed

lemma example_page_state:
  "bw_sockets example_page = [CLOSED, CLOSED, OPEN]" "bw_timers example_page = 0" "\<not> bw_stopped example_page"
  "cursor_times example_page = [100, 150]" "length (bw_sent example_page) = 3"
  by code_simp+

theorem browser_one_connection_witness:
  "\<not> bw_stopped example_page \<and> bw_sockets example_page = [CLOSED, CLOSED, OPEN] \<and>
    length (filter (\<lambda>s. s \<noteq> CLOSED) (bw_sockets example_page)) + bw_timers example_page = 1"
  using browser_one_connection [OF example_page_reach example_page_state(3)] example_page_state by blast

text \<open>(C29)
  What a page sends, whatever the pointer does and whatever became of its connections: two cursor
  positions are at least 40 ms apart by the clock, and everything else is a rectangle with non-negative
  sides, at least one of them 3 or longer, under the id it is drawn with.
\<close>

theorem pointer_messages:
  assumes "browser_reach num b"
  shows "sorted_wrt (\<lambda>s t. s + 40 \<le> t) (cursor_times b) \<and> list_all (meant num) (bw_sent b)"
  using reach_sent_ok [OF assms] by (simp add: sent_ok_def)

theorem pointer_messages_witness:
  "cursor_times example_page = [100, 150] \<and> length (bw_sent example_page) = 3 \<and>
    list_all (meant (\<lambda>n. if n < 10 then ''7'' else ''17'')) (bw_sent example_page)"
  using pointer_messages [OF example_page_reach] example_page_state by blast

text \<open>
  The timer of a page that is between two connections outlives it: it opens a connection after the
  page is gone, which the page's cleanup, already run, does not close.
\<close>

lemma timer_outlives_page:
  assumes "browser_reach num b" "\<not> bw_stopped b" "last (bw_sockets b) = CLOSED"
  defines "b2 \<equiv> browser_step num TimerFires (browser_step num Unmount b)"
  shows "browser_reach num b2 \<and> bw_stopped b2 \<and> last (bw_sockets b2) = CONNECTING \<and> \<not> may_fire Unmount b2"
proof -
  have t: "bw_timers b = 1" using reach_conn_ok [OF assms(1,2)] assms(3) by (simp add: conn_ok_def)
  have "browser_reach num (browser_step num Unmount b)" using assms(1,2) by (intro browser_reach.fire) simp_all
  then have "browser_reach num b2" unfolding b2_def by (rule browser_reach.fire) (simp add: t)
  then show ?thesis by (simp add: b2_def ws_connect_def)
qed

text \<open>A rectangle drawn while there is no open connection is shown, never sent, and gone with the next snapshot.\<close>

lemma offline_rectangle_lost:
  fixes num :: "'n::linordered_idom \<Rightarrow> bytes" and uid :: bytes
  assumes "last (bw_sockets b) \<noteq> OPEN" "bw_draw b = Some d" "3 \<le> ex_w (normalize_draw d)"
    "js_prop (app_self (bw_app b)) ''color'' = Inr v" "shows_doc doc m"
  defines "b2 \<equiv> browser_step num (PointerUp uid) b"
  shows "bw_sent b2 = bw_sent b \<and> shown (bw_app b2) uid \<noteq> None \<and>
    shown (bw_app (browser_step num (SocketMessage k m) b2)) = shown_doc doc"
  using assms(1-5) unfolding b2_def
  by (auto simp: pointer_up_def Let_def case_prod_unfold ws_send_def onPointerUp_def shown_upd shows_doc_def)

end
