(* ===== verification/Spec2Isabelle.thy ===== *)
theory Spec2Isabelle
  imports Durable RedisCluster Races Server RampUp SplitPublish Browser
begin

text \<open>
  A verification library for the collaborative whiteboard server. Clients connect over
  WebSocket to a board, draw and move cursors; every server instance fans what one client does out to
  all others, keeps the board's document in a broker shared by all instances, and checkpoints it
  to a durable store.

  \<^bold>\<open>The program.\<close> \<^verbatim>\<open>cmd/server\<close> wires one instance together: \<^verbatim>\<open>internal/ws\<close> upgrades a
  request and hands the connection to \<^verbatim>\<open>hub.Serve\<close>; \<^verbatim>\<open>internal/hub\<close> keeps the registry of live
  boards (\<^verbatim>\<open>hub.go\<close>), one goroutine per board that owns its client set (\<^verbatim>\<open>board.go\<close>), two pumps
  per client (\<^verbatim>\<open>client.go\<close>) and the coordinator that checkpoints (\<^verbatim>\<open>persistence.go\<close>). A shape
  operation goes from a client's read pump to \<^verbatim>\<open>Broker.ApplyShape\<close>, which assigns its sequence
  number and stores it, and to \<^verbatim>\<open>Broker.Publish\<close>; every instance's board goroutine receives it from its
  subscription and queues it for its clients. \<^verbatim>\<open>internal/broker\<close> has an in-process broker and one
  over Redis, \<^verbatim>\<open>internal/store\<close> an in-process store and one over Postgres, \<^verbatim>\<open>internal/protocol\<close> the JSON
  messages, \<^verbatim>\<open>internal/metrics\<close> the collectors. \<^verbatim>\<open>cmd/loadtest\<close> is a measuring client, and
  \<^verbatim>\<open>web/src/App.tsx\<close> the browser's, which draws what the messages tell it.

  \<^bold>\<open>The theories.\<close>
  \<^item> \<open>Prelude\<close>: byte strings, slices (\<open>None\<close> is nil), results (\<open>Inl\<close> is an error), Go maps
    as association lists with distinct keys, sorting and 64-bit words.
  \<^item> \<open>Json\<close>, \<open>JsonLaws\<close>, \<open>JsonArray\<close>: the part of \<^verbatim>\<open>encoding/json\<close> the program uses, byte by byte: validity,
    compaction, strings with their escapes, integers, decoding into structs with Go's case folding.
    The laws say that what is encoded is scanned and decoded back.
  \<^item> \<open>Protocol\<close> (\<^verbatim>\<open>internal/protocol\<close>): envelopes, payloads, \<open>Marshal\<close>, \<open>DecodePayload\<close>, their round
    trips and the only way encoding can fail.
  \<^item> \<open>Broker\<close> (\<^verbatim>\<open>broker.go\<close>): the interface as a record of methods over an abstract broker state, the
    abstract document of a board (a sequence number and a map from ids to stamped blobs), and the
    locale \<open>broker_contract\<close>: what each method does to documents and rosters, as long as
    the sequence number is below \<open>cap\<close>.
  \<^item> \<open>MemoryBroker\<close> (\<^verbatim>\<open>broker/memory.go\<close>): every method, the contract, last write wins, fan-out.
    \<open>SplitPublish\<close>: \<^verbatim>\<open>Publish\<close> as it runs, its list of subscribers taken under the mutex and the sends one by
    one outside it, interleaved with every other method: no message is lost, invented or duplicated,
    and with one subscriber, as a board has, it is the one step it is elsewhere.
  \<^item> \<open>Float64\<close>, \<open>RedisBroker\<close>, \<open>RedisLaws\<close>, \<open>RedisBus\<close> (\<^verbatim>\<open>broker/redis.go\<close>): Lua's double-precision
    numbers and their text, the two Lua scripts, every method and the forwarding goroutine of
    \<^verbatim>\<open>Subscribe\<close>, over a Redis server that is a parameter. \<open>redis_server\<close> and \<open>redis_pubsub\<close> state
    the documented effect of each command and of publish and subscribe; a link may lose any
    request or reply. The broker contract holds up to 14-digit sequence numbers, the bound of the
    stamps. A server in memory interprets both locales.
  \<^item> \<open>Store\<close>, \<open>PostgresStore\<close> (\<^verbatim>\<open>internal/store\<close>): the interface with the locale \<open>store_contract\<close>,
    the in-process store, and the Postgres one over a parameter whose operations are the program's
    SQL statements (locale \<open>postgres_db\<close>; a \<^verbatim>\<open>JSONB\<close> column gives back the value of a text, \<open>jsonb\<close>).
  \<^item> \<open>Persistence\<close> (\<^verbatim>\<open>hub/persistence.go\<close>): hydrate and save over any broker and store, proved once in
    the locales \<open>persistence_contract\<close> and \<open>restart_contract\<close>.
  \<^item> \<open>Metrics\<close>: the calls as events, the Prometheus collectors as their totals.
  \<^item> \<open>Board\<close>, \<open>BoardLaws\<close> (\<^verbatim>\<open>board.go\<close>): the handlers and the select loop over Go channels, where
    sending on or closing a closed channel is a panic value. No schedule panics, queues stay
    within 256, and a client's reliable messages have no gap, no duplicate and no reordering.
  \<^item> \<open>Client\<close>, \<open>ClientLaws\<close>, \<open>Session\<close> (\<^verbatim>\<open>client.go\<close>): identities, onboarding, both pumps, and the
    path of an operation from one socket to all queues on the in-process broker.
  \<^item> \<open>Instance\<close>: all sessions of a board interleaved with its loop, as a refinement of a small
    machine over a document and a roster, for every broker that is up (\<open>steady_broker\<close>,
    interpreted on both brokers).
  \<^item> \<open>Hub\<close>, \<open>HubLaws\<close> (\<^verbatim>\<open>hub.go\<close>): the registry and the life of every \<^verbatim>\<open>Serve\<close> call as an inductive
    step relation, one step per critical section or blocking channel operation; what holds in
    every reachable state, progress while the hub is open, what a finished \<^verbatim>\<open>Shutdown\<close> guarantees and
    two things it does not.
  \<^item> \<open>Production\<close>: Redis and Postgres together, when they answer: presence, restart, and that the
    two brokers cannot be told apart.
  \<^item> \<open>WebClient\<close> (\<^verbatim>\<open>web/src/App.tsx\<close>, \<^verbatim>\<open>protocol.ts\<close>): what a browser makes of every message, what it
    sends for a rectangle, and which shapes it can paint; an exception is an error beside the state
    it leaves. \<open>Screen\<close>: the drawing against the document. Every message of the server is one that
    replaces the drawing, applies one operation or leaves it alone, and a drawing each of whose
    shapes shapes is that of some moment since a document catches up with the operations since.
    \<open>Browser\<close>: the page around it, with its sockets, the timer that reconnects, the pointer and the throttle
    on cursor messages. While mounted it has one connection or one timer that makes it; cursor positions
    are 40 ms apart and only rectangles of some size are sent. A timer can outlive its page, and a rectangle
    drawn offline is lost.
  \<^item> \<open>Bus\<close>, \<open>Cluster\<close>: any number of instances on one broker, with what a subscription has yet to
    receive (locale \<open>bus_broker\<close>, interpreted on the in-process broker); every client that was sent
    a snapshot and stays connected ends up with the document. \<open>RedisCluster\<close>: the same contract for
    the Redis broker (locale \<open>redis_live\<close>), forwarding goroutines included, and that there is always a
    way to bring a client up to date.
  \<^item> \<open>Races\<close>: the two calls of \<^verbatim>\<open>applyShapeOp\<close> and of \<^verbatim>\<open>sendSnapshot\<close> as steps of their own, which
    run back to back are the steps of \<open>Instance\<close>. Updates commute; a deletion that overtakes an update
    and a snapshot that is overtaken by an operation leave a wrong drawing, as two runs show.
  \<^item> \<open>WebSocket\<close> (\<^verbatim>\<open>internal/ws\<close>): handler and adapter over the WebSocket library as a parameter
    (locale \<open>websocket_conn\<close>).
  \<^item> \<open>Server\<close> (\<^verbatim>\<open>cmd/server\<close>): configuration, routes, \<^verbatim>\<open>run\<close> with its deferred calls as traces of
    opened and closed resources, the hub's options and its coordinator loop.
  \<^item> \<open>LoadTest\<close> (\<^verbatim>\<open>cmd/loadtest\<close>): what the measuring client sends, recognises and reports, its
    durations rounded. \<open>RampUp\<close>: its client goroutines behind the dial semaphore and the wait for all of
    them, as an inductive step relation; the wait always can end, and then the counters are final.
  \<^item> \<open>Durable\<close>: the registry joined to broker and store, each call of \<^verbatim>\<open>hydrate\<close> and \<^verbatim>\<open>save\<close> a step of its
    own, as an inductive step relation over the phases of every board, the coordinator's round and
    the sessions' operations. Its invariant says of every snapshot on its way how old it is, and of
    every board that its document is or will be in the store. The locale \<open>checkpointed\<close> is
    interpreted on the in-process broker with either store.
  \<^item> This theory: the periodic checkpoint over the registry and the persistence layer, and the
    durability of boards at rest, with the run of a shutdown that loses an operation.

  \<^bold>\<open>Choices.\<close> State is passed explicitly. A goroutine's blocking operation is a step that is
  possible or not; which arm of a select is taken, and how goroutines interleave, is an argument of
  the definitions and quantified in the theorems. Sequence numbers are 64-bit words. The iteration
  order of a Go map is the order of its list, and results are shown not to depend on it. The
  JSON scanners recurse on the length of their input as fuel, which is enough because every step
  consumes a byte; \<open>conn_frames\<close> takes a number of reads and is used with more reads than there
  are messages. All other loops are structural or have a measure.

  \<^bold>\<open>Not modelled.\<close> Timeouts, tickers and contexts appear only as the arm of a select that fires.
  Logging and printing are left out. Coordinates of cursors stay the text of a JSON number:
  \<^verbatim>\<open>encoding/json\<close> would rewrite that text. Text is assumed to be UTF-8 (\<open>utf8_text\<close>) where a
  theorem says so, because invalid bytes would be replaced. A
  nil slice of shapes and an empty one are not told apart. The HTTP mux and the WebSocket handshake are library code, as is the text format of
  the metrics page; flag parsing of the load test is left out, and of the browser client
  the canvas, React and its layout. Text and rates of the load test's report are left out, its figures are not. A browser's numbers are texts, but for
  sequence numbers, which are rounded to doubles. \<open>Cluster\<close> takes a frame and a greeting as one step
  each, no buffer of the bus to be full and no subscription to end; \<open>Races\<close> says what the first
  hides. go-redis may drop a message when its own buffer stays full, which \<open>redis_pubsub\<close> excludes.
  \<open>Durable\<close> follows one instance: what other instances write to the same board through Redis is not
  part of it, and presence calls, which leave documents alone, are not among its steps. Its operations
  are those within the range of sequence numbers that leave a document the store can represent.
\<close>

section \<open>The periodic checkpoint\<close>

context persistence_contract
begin

text \<open>Saving board after board: nothing is lost and every board ends up stored.\<close>

lemma save_list:
  assumes "inv bs" "sinv ss" "\<And>b snap. snapshot_of (doc bs b) snap \<Longrightarrow> fits b snap"
  shows "\<exists>bs' ss'. foldl (save B S) (bs, ss) ids = (bs', ss') \<and> inv bs' \<and> sinv ss' \<and> doc bs' = doc bs \<and>
    (\<forall>b y. stored ss b = Some y \<longrightarrow> (\<exists>z. stored ss' b = Some z \<and> snap_Seq y \<le> snap_Seq z)) \<and>
    (\<forall>b \<in> set ids. \<exists>y. stored ss' b = Some y \<and> d_seq (doc bs b) \<le> snap_Seq y)"
  using assms
proof (induction ids arbitrary: bs ss)
  case (Cons i ids)
  obtain bs1 ss1 snap where s: "save B S (bs, ss) i = (bs1, ss1)" "inv bs1" "sinv ss1" "doc bs1 = doc bs"
    "snapshot_of (doc bs i) snap"
    "stored ss1 = (if stale (stored ss i) snap then stored ss else (stored ss)(i \<mapsto> norm snap))"
    using save_stores [OF Cons.prems] by metis
  obtain bs' ss' where r: "foldl (save B S) (bs1, ss1) ids = (bs', ss')" "inv bs'" "sinv ss'" "doc bs' = doc bs1"
    "\<forall>b y. stored ss1 b = Some y \<longrightarrow> (\<exists>z. stored ss' b = Some z \<and> snap_Seq y \<le> snap_Seq z)"
    "\<forall>b \<in> set ids. \<exists>y. stored ss' b = Some y \<and> d_seq (doc bs1 b) \<le> snap_Seq y"
    using Cons.IH [OF s(2,3)] Cons.prems(3) s(4) by (metis (no_types, lifting))
  have grow: "\<exists>z. stored ss1 b = Some z \<and> snap_Seq y \<le> snap_Seq z" if "stored ss b = Some y" for b y
    using that s(6) norm_seq [OF Cons.prems(3) [OF s(5)]] by (auto simp: stale_def)
  have "\<exists>y. stored ss1 i = Some y \<and> d_seq (doc bs i) \<le> snap_Seq y"
    using s(6) snapshot_of_seq [OF s(5)] norm_seq [OF Cons.prems(3) [OF s(5)]] by (cases "stored ss i") (auto simp: stale_def)
  then have "\<exists>y. stored ss' i = Some y \<and> d_seq (doc bs i) \<le> snap_Seq y"
    using r(5) by (meson order_trans)
  moreover have "\<forall>b y. stored ss b = Some y \<longrightarrow> (\<exists>z. stored ss' b = Some z \<and> snap_Seq y \<le> snap_Seq z)"
    using grow r(5) by (meson order_trans)
  ultimately show ?case using s(1,4) r(1-4,6) by simp
qed auto

end

section \<open>Properties\<close>

text \<open>(C3)
  A board at rest is durable. Take any broker and store that keep their contracts and answer, a
  server that starts with an empty broker, and any interleaving of connections, operations, boards
  coming and going, periodic checkpoints and a shutdown, in which every call of the broker and of
  the store is a step of its own, so that snapshots may be overtaken before they are written. When all
  goroutines of a board have returned, and the hub is not shutting down or no operation came
  after the board's final snapshot, the store holds a snapshot of exactly the board's document,
  written as the store writes it, and hydrating an empty broker brings that back.
\<close>

theorem resting_board_is_durable:
  assumes "checkpointed B binv doc roster cap S sinv stored fits norm fresh"
    "binv bs" "\<forall>b. doc bs b = empty_doc" "sinv ss" "\<forall>b y. stored ss b = Some y \<longrightarrow> proper y" "\<forall>b. storable fits b empty_doc"
    "durable_reach B S doc cap fits bs ss x" "bid \<in> set (h_ids (du_hub x))"
    "\<forall>b < length (h_ids (du_hub x)). h_ids (du_hub x) ! b = bid \<longrightarrow> b \<in> set (h_done (du_hub x))"
    "h_closing (du_hub x) \<longrightarrow> bid \<notin> set (du_late x)"
  shows "\<exists>y. stored (du_store x) bid = Some y \<and> (\<exists>snap. snapshot_of (doc (du_broker x) bid) snap \<and> (y = snap \<or> y = norm snap)) \<and>
    doc (fst (hydrate B S (fresh, du_store x) bid)) bid = doc_of_snapshot y"
proof -
  note g = checkpointed.good_reach [OF assms(1,7) checkpointed.good_start [OF assms(1)]]
  have ok: "durable_ok binv doc sinv stored fits norm x" using assms(2-6) by (intro g) auto
  then have "bid \<notin> set (du_late x)" using checkpointed.late_closing [OF assms(1) ok] assms(10) by fastforce
  moreover have "boards_of (h_ids (du_hub x)) bid \<subseteq> set (h_done (du_hub x))" using assms(9) by auto
  ultimately obtain y where "stored (du_store x) bid = Some y" "matches norm (doc (du_broker x) bid) y"
    "doc (fst (hydrate B S (fresh, du_store x) bid)) bid = doc_of_snapshot y"
    using checkpointed.rest_durable [OF assms(1) ok assms(8)] by metis
  then show ?thesis unfolding matches_def by blast
qed

theorem resting_board_is_durable_witness:
  "d_seq (mem_doc (du_broker at_rest) ''b'') = 1 \<and>
   mem_doc (fst (hydrate memory_broker memory_store (NewMemory, du_store at_rest) ''b'')) ''b'' = mem_doc (du_broker at_rest) ''b''"
proof -
  have start: "\<forall>b. mem_doc NewMemory b = empty_doc" "gomap_ok (sm_snaps NewMemStore)"
    "\<forall>b y. gomap_get (sm_snaps NewMemStore) b = Some y \<longrightarrow> proper y" "\<forall>b. storable (\<lambda>b x. True) b empty_doc"
    by (simp_all add: mem_doc_def the_board_get NewMemory_def NewMemStore_def storable_def)
  have "''b'' \<in> set (h_ids (du_hub at_rest))"
    "\<forall>b < length (h_ids (du_hub at_rest)). h_ids (du_hub at_rest) ! b = ''b'' \<longrightarrow> b \<in> set (h_done (du_hub at_rest))"
    "h_closing (du_hub at_rest) \<longrightarrow> ''b'' \<notin> set (du_late at_rest)"
    by (simp_all add: at_rest_state)
  from resting_board_is_durable [OF memdur.checkpointed_axioms NewMemory_ok start at_rest_reach this]
  show ?thesis by (auto simp: snapshot_of_def at_rest_data(1) empty_doc_def)
qed

text \<open>(C16)
  What a shutdown may lose: there is a run of the server with the in-process broker and store in which
  \<^verbatim>\<open>Shutdown\<close> returns nil, every board and session has returned and every call has succeeded, and yet the
  document has an operation the store does not have, which a restart does not bring back. The board
  took its final snapshot while a read pump was still handling a frame.
\<close>

theorem shutdown_can_lose_an_operation:
  "\<exists>x. durable_reach memory_broker memory_store mem_doc (- 1) (\<lambda>b y. True) NewMemory NewMemStore x \<and>
    h_shutdown (du_hub x) = Drained \<and> set (h_conns (du_hub x)) \<subseteq> {Rejected, Returned} \<and>
    set (h_done (du_hub x)) = {..<length (h_ids (du_hub x))} \<and>
    d_shapes (mem_doc (du_broker x) ''b'') ''s'' = Some (2, ''1'') \<and>
    d_shapes (mem_doc (fst (hydrate memory_broker memory_store (NewMemory, du_store x) ''b'')) ''b'') ''s'' = None"
proof (intro exI conjI)
  show "durable_reach memory_broker memory_store mem_doc (- 1) (\<lambda>b y. True) NewMemory NewMemStore lost_operation"
    by (rule lost_operation_reach)
  have "durable_ok Memory_ok mem_doc (\<lambda>m. gomap_ok (sm_snaps m)) (\<lambda>m. gomap_get (sm_snaps m)) (\<lambda>b x. True) (\<lambda>x. x) lost_operation"
    by (rule memdur.good_reach [OF lost_operation_reach mem_start])
  then have "hub_reach True (du_hub lost_operation)" by (simp add: durable_ok_def)
  from drained_hub [OF this lost_operation_state(1)] show "set (h_conns (du_hub lost_operation)) \<subseteq> {Rejected, Returned}" by simp
  show "d_shapes (mem_doc (fst (hydrate memory_broker memory_store (NewMemory, du_store lost_operation) ''b'')) ''b'') ''s'' = None"
    by (simp add: lost_operation_state(5) at_rest_restart doc_apply_def empty_doc_def)
qed (auto simp: lost_operation_state doc_apply_def empty_doc_def)

text \<open>
  The periodic checkpoint: whenever the coordinator snapshots all boards, every board in the
  registry of a reachable hub ends up in the store with a snapshot at least as new as its document
  is, no stored snapshot is replaced by an older one, and no document changes.
\<close>

lemma checkpoint_covers_registry:
  assumes "hub_reach s h" "Memory_ok m" "gomap_ok (sm_snaps st)"
  shows "\<exists>m' st'. snapshotAllBoards memory_broker memory_store h (m, st) = (m', st') \<and> mem_doc m' = mem_doc m \<and>
    (\<forall>b y. gomap_get (sm_snaps st) b = Some y \<longrightarrow>
      (\<exists>z. gomap_get (sm_snaps st') b = Some z \<and> snap_Seq y \<le> snap_Seq z)) \<and>
    (\<forall>b. registered (h_boards h) b \<longrightarrow>
      (\<exists>y. gomap_get (sm_snaps st') (h_ids h ! b) = Some y \<and> d_seq (mem_doc m (h_ids h ! b)) \<le> snap_Seq y))"
proof -
  have r: "registry_ok h" using hub_reach_ok [OF assms(1)] by (simp add: hub_ok_def)
  have "h_ids h ! b \<in> set (map fst (h_boards h))" if b: "registered (h_boards h) b" for b
  proof -
    obtain bid e where e: "gomap_get (h_boards h) bid = Some e" "e_board e = b" using b by (auto simp: registered_def)
    have "h_ids h ! b = bid" using registry_invD(2) [OF r e(1)] e(2) by simp
    then show ?thesis using map_of_SomeD [OF e(1)] by force
  qed
  then show ?thesis
    using mm.save_list [OF assms(2,3) TrueI, of "map fst (h_boards h)"] unfolding snapshotAllBoards_def by meson
qed

end
